(* ===== verification/Duck_Prelude.thy ===== *)
theory Duck_Prelude
  imports Main "HOL-Library.Word"
begin

text \<open>
  Shared vocabulary of the development.

  Go values are modelled at their width: \<open>byte\<close>, \<open>u16\<close>, \<open>u32\<close> and \<open>u64\<close> are
  machine words; the signed types \<open>int8\<close> .. \<open>int64\<close> are the same words read with
  \<open>sint\<close>.  A Go \<open>string\<close> is a sequence of bytes and is a HOL \<open>string\<close> (HOL
  characters are bytes); \<open>[]byte\<close> is \<open>bytes\<close>; the two conversions are
  \<open>go_string\<close> and \<open>go_bytes\<close>.  Go's \<open>(T, error)\<close> results are the datatype
  \<open>go\<close>, whose third constructor is a run-time panic, so that an out-of-range
  index or a nil dereference is a value of the model.

  The theory also holds \<open>encoding/binary\<close>'s fixed-width byte orders (\<open>le_put\<close>,
  \<open>le_get\<close>) with their inverse laws, and the named theorem collections the
  component theories fill.
\<close>

unbundle bit_operations_syntax

named_theorems wire_simps \<open>what a reader returns on the bytes a writer produced\<close>
named_theorems writer_simps \<open>writer operations as appended bytes\<close>
named_theorems advance_intros \<open>reader operations only move forward\<close>

type_synonym byte = "8 word"
type_synonym bytes = "byte list"
type_synonym u16 = "16 word"
type_synonym u32 = "32 word"
type_synonym u64 = "64 word"

section \<open>Go results\<close>

datatype ('e, 'a) go = Ok 'a | Err 'e | Panic

fun go_bind :: "('e, 'a) go \<Rightarrow> ('a \<Rightarrow> ('e, 'b) go) \<Rightarrow> ('e, 'b) go" where
  "go_bind (Ok x) f = f x"
| "go_bind (Err e) f = Err e"
| "go_bind Panic f = Panic"

text \<open>Indexing a slice panics when the index is out of range.\<close>

definition go_index :: "'a list \<Rightarrow> nat \<Rightarrow> ('e, 'a) go" where
  "go_index xs i = (if i < length xs then Ok (xs ! i) else Panic)"

lemma go_index_Ok [simp]: "i < length xs \<Longrightarrow> go_index xs i = Ok (xs ! i)"
  by (simp add: go_index_def)

lemma go_bind_eq_Ok: "go_bind m f = Ok y \<longleftrightarrow> (\<exists>x. m = Ok x \<and> f x = Ok y)"
  by (cases m) auto

lemma go_bind_eq_Panic: "go_bind m f = Panic \<longleftrightarrow> m = Panic \<or> (\<exists>x. m = Ok x \<and> f x = Panic)"
  by (cases m) auto

text \<open>
  \<open>xs[a:b]\<close>.  Go allows \<open>b\<close> up to the capacity of the slice; the model panics already
  past its length.
\<close>

definition go_slice :: "'a list \<Rightarrow> nat \<Rightarrow> nat \<Rightarrow> ('e, 'a list) go" where
  "go_slice xs a b = (if a \<le> b \<and> b \<le> length xs then Ok (take (b - a) (drop a xs)) else Panic)"

text \<open>A loop that computes one value per element and stops at the first failure.\<close>

fun go_map :: "('a \<Rightarrow> ('e, 'b) go) \<Rightarrow> 'a list \<Rightarrow> ('e, 'b list) go" where
  "go_map f [] = Ok []"
| "go_map f (x # xs) = go_bind (f x) (\<lambda>y. go_bind (go_map f xs) (\<lambda>ys. Ok (y # ys)))"

lemma go_map_length: "go_map f xs = Ok ys \<Longrightarrow> length ys = length xs"
  by (induction xs arbitrary: ys) (auto simp: go_bind_eq_Ok)

lemma go_map_list_all2: "go_map f xs = Ok ys \<Longrightarrow> list_all2 (\<lambda>x y. f x = Ok y) xs ys"
  by (induction xs arbitrary: ys) (auto simp: go_bind_eq_Ok)

lemma go_map_in_set: "go_map f xs = Ok ys \<Longrightarrow> y \<in> set ys \<Longrightarrow> \<exists>x\<in>set xs. f x = Ok y"
  by (induction xs arbitrary: ys) (auto simp: go_bind_eq_Ok)

lemma go_map_not_panic: "(\<And>x. x \<in> set xs \<Longrightarrow> f x \<noteq> Panic) \<Longrightarrow> go_map f xs \<noteq> Panic"
  by (induction xs) (auto simp: go_bind_eq_Panic)

lemma go_map_Ok: "(\<And>x. x \<in> set xs \<Longrightarrow> f x = Ok (g x)) \<Longrightarrow> go_map f xs = Ok (map g xs)"
  by (induction xs) auto

lemma go_map_all: "list_all2 (\<lambda>x y. f x = Ok y) xs ys \<Longrightarrow> go_map f xs = Ok ys"
  by (induction xs ys rule: list_all2_induct) simp_all

lemma go_map_nth: "(\<And>i. i < length vals \<Longrightarrow> f i = Ok (vals ! i)) \<Longrightarrow> go_map f [0..<length vals] = Ok vals"
  by (rule go_map_all) (simp add: list_all2_conv_all_nth)

lemma list_all2_choose:
  assumes "\<And>x. x \<in> set xs \<Longrightarrow> \<exists>y. P x y"
  shows "\<exists>ys. list_all2 P xs ys"
  using assms
proof (induction xs)
  case (Cons x xs)
  obtain y where "P x y"
    using Cons.prems [of x] by auto
  moreover obtain ys where "list_all2 P xs ys"
    using Cons by auto
  ultimately show ?case
    by (intro exI [of _ "y # ys"]) simp
qed auto

section \<open>Strings and byte slices\<close>

definition go_string :: "bytes \<Rightarrow> string" where
  "go_string bs = map (\<lambda>b. char_of (unat b)) bs"

definition go_bytes :: "string \<Rightarrow> bytes" where
  "go_bytes s = map (\<lambda>c. word_of_nat (of_char c)) s"

lemma unat_byte_mod [simp]: "unat (b :: byte) mod 256 = unat b"
  using unsigned_less [of b, where 'a = nat] by simp

lemma char_byte_char [simp]: "char_of (unat (word_of_nat (of_char c) :: byte)) = c"
proof -
  have "(of_char c :: nat) < 256"
    by simp
  then have "unat (word_of_nat (of_char c) :: byte) = of_char c"
    by (simp add: unat_of_nat)
  then show ?thesis
    by simp
qed

lemma go_bytes_string [simp]: "go_bytes (go_string bs) = bs"
  by (simp add: go_bytes_def go_string_def comp_def)

lemma go_string_bytes [simp]: "go_string (go_bytes s) = s"
  by (simp add: go_bytes_def go_string_def comp_def)

lemma length_go_string [simp]: "length (go_string bs) = length bs"
  by (simp add: go_string_def)

lemma length_go_bytes [simp]: "length (go_bytes s) = length s"
  by (simp add: go_bytes_def)

lemma go_string_Nil [simp]: "go_string [] = []"
  by (simp add: go_string_def)

lemma go_bytes_Nil [simp]: "go_bytes [] = []"
  by (simp add: go_bytes_def)

section \<open>Decimal digits\<close>

text \<open>\<open>strconv.Itoa\<close>, \<open>strconv.FormatInt(_, 10)\<close> and the plain \<open>%d\<close> verb.\<close>

definition digit_char :: "nat \<Rightarrow> char" where
  "digit_char d = char_of (48 + d)"

fun nat_dec :: "nat \<Rightarrow> string" where
  "nat_dec n = (if n < 10 then [digit_char n] else nat_dec (n div 10) @ [digit_char (n mod 10)])"

declare nat_dec.simps [simp del]

definition int_dec :: "int \<Rightarrow> string" where
  "int_dec i = (if i < 0 then ''-'' @ nat_dec (nat (- i)) else nat_dec (nat i))"

section \<open>Widening and truncating back\<close>

lemma ucast_round [simp]:
  "ucast (ucast (a :: u32) :: u64) = a"
  "ucast (ucast (b :: byte) :: u64) = b"
  "ucast (ucast (c :: u16) :: u64) = c"
  by (rule bit_word_eqI; simp add: bit_simps)+

section \<open>Little-endian fixed-width integers\<close>

text \<open>
  \<open>le_put n w\<close> is \<open>binary.LittleEndian.AppendUint\<close> for \<open>n\<close> bytes and \<open>le_get\<close> is
  \<open>binary.LittleEndian.Uint\<close> on a slice of that length.
\<close>

fun le_put :: "nat \<Rightarrow> 'a::len word \<Rightarrow> bytes" where
  "le_put 0 w = []"
| "le_put (Suc n) w = ucast w # le_put n (drop_bit 8 w)"

fun le_get :: "bytes \<Rightarrow> 'a::len word" where
  "le_get [] = 0"
| "le_get (b # bs) = ucast b OR push_bit 8 (le_get bs)"

lemma length_le_put [simp]: "length (le_put n w) = n"
  by (induction n arbitrary: w) auto

lemma le_get_put_take_bit: "le_get (le_put n w) = take_bit (8 * n) w"
proof (induction n arbitrary: w)
  case 0
  then show ?case by simp
next
  case (Suc n)
  show ?case
    by (rule bit_word_eqI) (auto simp: Suc bit_simps)
qed

lemma le_get_put [simp]:
  "LENGTH('a::len) \<le> 8 * n \<Longrightarrow> le_get (le_put n (w :: 'a word)) = w"
  by (simp add: le_get_put_take_bit take_bit_word_eq_self)

lemma le_get_bound: "bit (le_get cs :: 'a::len word) k \<Longrightarrow> k < 8 * length cs"
proof (induction cs arbitrary: k)
  case Nil
  then show ?case by simp
next
  case (Cons c cs)
  then consider "bit c k" | "8 \<le> k" "bit (le_get cs :: 'a word) (k - 8)"
    by (auto simp: bit_simps)
  then show ?case
  proof cases
    case 1
    then have "k < 8"
      using bit_imp_le_length [of c k] by simp
    then show ?thesis by simp
  next
    case 2
    then have "k - 8 < 8 * length cs"
      by (intro Cons.IH)
    then show ?thesis by simp
  qed
qed

lemma le_put_get [simp]:
  "8 * length bs \<le> LENGTH('a::len) \<Longrightarrow> le_put (length bs) (le_get bs :: 'a word) = bs"
proof (induction bs)
  case Nil
  then show ?case by simp
next
  case (Cons b bs)
  have byte_of_first: "ucast (ucast b OR push_bit 8 (le_get bs) :: 'a word) = b"
    by (rule bit_word_eqI) (use Cons.prems in \<open>auto simp: bit_simps\<close>)
  have "drop_bit 8 (ucast b OR push_bit 8 (le_get bs) :: 'a word) = le_get bs"
  proof (rule bit_word_eqI)
    fix n
    have "bit (le_get bs :: 'a word) n \<Longrightarrow> 8 + n < LENGTH('a)"
      using Cons.prems le_get_bound [of bs n, where 'a = 'a] by simp
    moreover have "\<not> bit b (8 + n)"
      using bit_imp_le_length [of b "8 + n"] by auto
    ultimately show "bit (drop_bit 8 (ucast b OR push_bit 8 (le_get bs) :: 'a word)) n
        = bit (le_get bs :: 'a word) n"
      by (auto simp: bit_simps)
  qed
  then show ?case
    using Cons byte_of_first by simp
qed

section \<open>Sums over a list of parts\<close>

lemma sum_list_update_add:
  fixes f :: "'a \<Rightarrow> 'b :: comm_monoid_add"
  shows "i < length xs \<Longrightarrow> sum_list (map f (xs[i := x])) + f (xs ! i) = sum_list (map f xs) + f x"
proof (induction xs arbitrary: i)
  case (Cons a xs)
  then show ?case by (cases i) (auto simp: ac_simps)
qed simp

end
