(* ===== verification/Qser.thy ===== *)
theory Qser
  imports Duck_Prelude
begin

text \<open>
  The BinarySerializer framing of \<^verbatim>\<open>src/internal/qser/qser.go\<close>: \<open>reader\<close> is the
  struct \<open>Reader\<close> (buffer, offset, sticky error) and each method is one definition
  that takes the reader and returns the new one; a \<open>Writer\<close> has its buffer as the
  only field, so a writer is the bytes written so far.  \<open>go_uvarint\<close> and
  \<open>put_uvarint\<close> are the two \<open>encoding/binary\<close> functions the methods call.

  Lemmas: \<open>advances\<close> (every method leaves the buffer alone, moves the offset forward
  and never past the end, and does nothing once an error is set), and the round trip
  of every value encoding, stated on the reader \<open>rd pre bs\<close> that has consumed \<open>pre\<close>
  and has \<open>bs\<close> in front of it.
\<close>

section \<open>Constants, errors and state\<close>

definition EndID :: u16 where
  "EndID = 0xFFFF"

definition OptionalIdxAbsent :: u64 where
  "OptionalIdxAbsent = 0xFFFFFFFFFFFFFFFF"

datatype qser_error = ErrTruncated | ErrOverflow | ErrUnexpectedField u16

record hugeint =
  Upper :: u64
  Lower :: u64

record reader =
  rbuf :: bytes
  roff :: nat
  rerr :: "qser_error option"

definition NewReader :: "bytes \<Rightarrow> reader" where
  "NewReader buf = \<lparr>rbuf = buf, roff = 0, rerr = None\<rparr>"

text \<open>
  \<open>len(r.buf) - r.off\<close>.  The offset never passes the end (\<open>reader_ok\<close> below), so the
  difference is not negative.
\<close>

definition Remaining :: "reader \<Rightarrow> nat" where
  "Remaining r = length (rbuf r) - roff r"

definition Rest :: "reader \<Rightarrow> bytes" where
  "Rest r = drop (roff r) (rbuf r)"

definition reader_fail :: "reader \<Rightarrow> qser_error \<Rightarrow> reader" where
  "reader_fail r e = (if rerr r = None then r\<lparr>rerr := Some e\<rparr> else r)"

section \<open>Reading\<close>

definition PeekID :: "reader \<Rightarrow> u16 \<times> reader" where
  "PeekID r =
     (if rerr r \<noteq> None then (EndID, r)
      else if Remaining r < 2 then (EndID, reader_fail r ErrTruncated)
      else (le_get (take 2 (Rest r)), r))"

definition TryField :: "reader \<Rightarrow> u16 \<Rightarrow> bool \<times> reader" where
  "TryField r fid =
     (let (got, r) = PeekID r in
      if got \<noteq> fid \<or> rerr r \<noteq> None then (False, r)
      else (True, r\<lparr>roff := roff r + 2\<rparr>))"

definition Reader_End :: "reader \<Rightarrow> reader" where
  "Reader_End r =
     (let (got, r) = PeekID r in
      if rerr r \<noteq> None then r
      else if got \<noteq> EndID then reader_fail r (ErrUnexpectedField got)
      else r\<lparr>roff := roff r + 2\<rparr>)"

text \<open>A failed \<open>Take\<close> returns the nil slice, which is the empty list here.\<close>

definition Take :: "reader \<Rightarrow> int \<Rightarrow> bytes \<times> reader" where
  "Take r n =
     (if rerr r \<noteq> None then ([], r)
      else if n < 0 \<or> int (Remaining r) < n then ([], reader_fail r ErrTruncated)
      else (take (nat n) (Rest r), r\<lparr>roff := roff r + nat n\<rparr>))"

text \<open>\<open>binary.Uvarint\<close>: index, value so far, shift, unread bytes.\<close>

fun go_uvarint :: "nat \<Rightarrow> u64 \<Rightarrow> nat \<Rightarrow> bytes \<Rightarrow> u64 \<times> int" where
  "go_uvarint i x s [] = (0, 0)"
| "go_uvarint i x s (b # bs) =
     (if i = 10 then (0, - (int i + 1))
      else if b < 0x80 then
        (if i = 9 \<and> b > 1 then (0, - (int i + 1))
         else (x OR push_bit s (ucast b), int i + 1))
      else go_uvarint (i + 1) (x OR push_bit s (ucast (b AND 0x7f))) (s + 7) bs)"

definition Reader_Uvarint :: "reader \<Rightarrow> u64 \<times> reader" where
  "Reader_Uvarint r =
     (if rerr r \<noteq> None then (0, r)
      else let (v, n) = go_uvarint 0 0 0 (Rest r) in
        if n = 0 then (0, reader_fail r ErrTruncated)
        else if n < 0 then (0, reader_fail r ErrOverflow)
        else (v, r\<lparr>roff := roff r + nat n\<rparr>))"

text \<open>The loop of \<open>Svarint\<close>; its state is the counter, the value and the shift.\<close>

function svarint_loop :: "reader \<Rightarrow> nat \<Rightarrow> u64 \<Rightarrow> nat \<Rightarrow> u64 \<times> reader" where
  "svarint_loop r i v shift =
     (if Remaining r = 0 then (0, reader_fail r ErrTruncated)
      else if i = 10 then (0, reader_fail r ErrOverflow)
      else
        let b = rbuf r ! roff r;
            r = r\<lparr>roff := roff r + 1\<rparr>;
            v = (if shift < 64 then v OR push_bit shift (ucast (b AND 0x7f)) else v);
            shift = shift + 7
        in if b AND 0x80 = 0
           then (if shift < 64 \<and> b AND 0x40 \<noteq> 0 then v OR push_bit shift (NOT 0) else v, r)
           else svarint_loop r (i + 1) v shift)"
  by pat_completeness auto
termination
  by (relation "measure (\<lambda>(r, i, v, shift). Remaining r)") (auto simp: Remaining_def)

declare svarint_loop.simps [simp del]

definition Reader_Svarint :: "reader \<Rightarrow> u64 \<times> reader" where
  "Reader_Svarint r = (if rerr r \<noteq> None then (0, r) else svarint_loop r 0 0 0)"

definition Reader_Bool :: "reader \<Rightarrow> bool \<times> reader" where
  "Reader_Bool r = (let (b, r) = Take r 1 in (length b = 1 \<and> b ! 0 \<noteq> 0, r))"

definition Reader_Bytes :: "reader \<Rightarrow> bytes \<times> reader" where
  "Reader_Bytes r =
     (let (n, r) = Reader_Uvarint r in
      if rerr r \<noteq> None then ([], r)
      else if unat n > Remaining r then ([], reader_fail r ErrTruncated)
      else Take r (uint n))"

definition Reader_String :: "reader \<Rightarrow> string \<times> reader" where
  "Reader_String r = (let (b, r) = Reader_Bytes r in (go_string b, r))"

definition ListCount :: "reader \<Rightarrow> nat \<times> reader" where
  "ListCount r =
     (let (n, r) = Reader_Uvarint r in
      if rerr r \<noteq> None then (0, r)
      else if unat n > Remaining r then (0, reader_fail r ErrTruncated)
      else (unat n, r))"

definition Present :: "reader \<Rightarrow> bool \<times> reader" where
  "Present r = Reader_Bool r"

definition Reader_Hugeint :: "reader \<Rightarrow> hugeint \<times> reader" where
  "Reader_Hugeint r =
     (let (u, r) = Reader_Svarint r; (l, r) = Reader_Uvarint r
      in (\<lparr>Upper = u, Lower = l\<rparr>, r))"

definition OptionalIdx :: "reader \<Rightarrow> u64 \<times> reader" where
  "OptionalIdx r = Reader_Uvarint r"

text \<open>
  \<open>if r.TryField(id) { x = f(r) }\<close> with \<open>d\<close> the value \<open>x\<close> has otherwise.
\<close>

definition opt_field :: "reader \<Rightarrow> u16 \<Rightarrow> (reader \<Rightarrow> 'a \<times> reader) \<Rightarrow> 'a \<Rightarrow> 'a \<times> reader" where
  "opt_field r fid f d = (let (here, r) = TryField r fid in if here then f r else (d, r))"

text \<open>
  The counted loops of the decoders: \<open>for range n\<close> around one read, without an early
  return and with one.
\<close>

fun read_list :: "(reader \<Rightarrow> 'a \<times> reader) \<Rightarrow> nat \<Rightarrow> reader \<Rightarrow> 'a list \<times> reader" where
  "read_list f 0 r = ([], r)"
| "read_list f (Suc n) r = (let (x, r) = f r; (xs, r) = read_list f n r in (x # xs, r))"

fun read_list_go :: "(reader \<Rightarrow> ('e, 'a) go \<times> reader) \<Rightarrow> nat \<Rightarrow> reader \<Rightarrow> ('e, 'a list) go \<times> reader" where
  "read_list_go f 0 r = (Ok [], r)"
| "read_list_go f (Suc n) r =
     (case f r of
        (Ok x, r) \<Rightarrow>
          (case read_list_go f n r of
             (Ok xs, r) \<Rightarrow> (Ok (x # xs), r)
           | (Err e, r) \<Rightarrow> (Err e, r)
           | (Panic, r) \<Rightarrow> (Panic, r))
      | (Err e, r) \<Rightarrow> (Err e, r)
      | (Panic, r) \<Rightarrow> (Panic, r))"

section \<open>Writing\<close>

type_synonym writer = bytes

definition Writer_Field :: "writer \<Rightarrow> u16 \<Rightarrow> writer" where
  "Writer_Field w fid = w @ le_put 2 fid"

definition Writer_End :: "writer \<Rightarrow> writer" where
  "Writer_End w = Writer_Field w EndID"

text \<open>\<open>binary.AppendUvarint\<close>, the bytes it appends.\<close>

function put_uvarint :: "u64 \<Rightarrow> bytes" where
  "put_uvarint x = (if x \<ge> 0x80 then (ucast x OR 0x80) # put_uvarint (drop_bit 7 x) else [ucast x])"
  by pat_completeness auto
termination
proof (relation "measure unat")
  fix x :: u64
  assume "0x80 \<le> x"
  then have "0x80 \<le> unat x"
    by (simp add: word_le_nat_alt)
  then show "(drop_bit 7 x, x) \<in> measure unat"
    by (simp add: drop_bit_eq_div unat_div)
qed simp

declare put_uvarint.simps [simp del]

definition Writer_Uvarint :: "writer \<Rightarrow> u64 \<Rightarrow> writer" where
  "Writer_Uvarint w v = w @ put_uvarint v"

text \<open>The bytes the loop of \<open>Writer.Svarint\<close> appends; \<open>v >>= 7\<close> is arithmetic.\<close>

function put_svarint :: "u64 \<Rightarrow> bytes" where
  "put_svarint v =
     (let b = (ucast (v AND 0x7f) :: byte); v' = signed_drop_bit 7 v in
      if (v' = 0 \<and> b AND 0x40 = 0) \<or> (v' = -1 \<and> b AND 0x40 \<noteq> 0) then [b]
      else (b OR 0x80) # put_svarint v')"
  by pat_completeness auto
termination
proof (relation "measure (\<lambda>v. nat \<bar>sint v\<bar>)")
  fix v :: u64 and b :: byte and v' :: u64
  assume b: "b = ucast (v AND 0x7f)" and v': "v' = signed_drop_bit 7 v"
    and more: "\<not> ((v' = 0 \<and> b AND 0x40 = 0) \<or> (v' = -1 \<and> b AND 0x40 \<noteq> 0))"
  have "v \<noteq> 0"
    using b v' more by auto
  moreover have "v \<noteq> -1"
    using b v' more by auto
  ultimately have "sint v \<noteq> sint (0 :: u64)" "sint v \<noteq> sint (-1 :: u64)"
    by (metis signed_word_eqI)+
  then have "sint v \<noteq> 0" "sint v \<noteq> -1"
    by simp_all
  then have "\<bar>sint v div 128\<bar> < \<bar>sint v\<bar>"
    by (auto simp: abs_if)
  then show "(v', v) \<in> measure (\<lambda>v. nat \<bar>sint v\<bar>)"
    by (simp add: v' sint_signed_drop_bit_eq drop_bit_eq_div)
qed simp

declare put_svarint.simps [simp del]

definition Writer_Svarint :: "writer \<Rightarrow> u64 \<Rightarrow> writer" where
  "Writer_Svarint w v = w @ put_svarint v"

definition Writer_Bool :: "writer \<Rightarrow> bool \<Rightarrow> writer" where
  "Writer_Bool w b = (if b then w @ [1] else w @ [0])"

definition Writer_BytesVal :: "writer \<Rightarrow> bytes \<Rightarrow> writer" where
  "Writer_BytesVal w b = Writer_Uvarint w (word_of_nat (length b)) @ b"

definition Writer_String :: "writer \<Rightarrow> string \<Rightarrow> writer" where
  "Writer_String w s = Writer_BytesVal w (go_bytes s)"

definition Writer_Raw :: "writer \<Rightarrow> bytes \<Rightarrow> writer" where
  "Writer_Raw w b = w @ b"

definition Writer_Hugeint :: "writer \<Rightarrow> hugeint \<Rightarrow> writer" where
  "Writer_Hugeint w h = Writer_Uvarint (Writer_Svarint w (Upper h)) (Lower h)"

definition FieldUvarint :: "writer \<Rightarrow> u16 \<Rightarrow> u64 \<Rightarrow> writer" where
  "FieldUvarint w fid v = Writer_Uvarint (Writer_Field w fid) v"

definition FieldSvarint :: "writer \<Rightarrow> u16 \<Rightarrow> u64 \<Rightarrow> writer" where
  "FieldSvarint w fid v = Writer_Svarint (Writer_Field w fid) v"

definition FieldBool :: "writer \<Rightarrow> u16 \<Rightarrow> bool \<Rightarrow> writer" where
  "FieldBool w fid b = Writer_Bool (Writer_Field w fid) b"

definition FieldString :: "writer \<Rightarrow> u16 \<Rightarrow> string \<Rightarrow> writer" where
  "FieldString w fid s = Writer_String (Writer_Field w fid) s"

definition FieldBytes :: "writer \<Rightarrow> u16 \<Rightarrow> bytes \<Rightarrow> writer" where
  "FieldBytes w fid b = Writer_BytesVal (Writer_Field w fid) b"

definition FieldHugeint :: "writer \<Rightarrow> u16 \<Rightarrow> hugeint \<Rightarrow> writer" where
  "FieldHugeint w fid h = Writer_Hugeint (Writer_Field w fid) h"


lemmas writer_defs =
  Writer_Field_def Writer_End_def Writer_Uvarint_def Writer_Svarint_def Writer_Bool_def
  Writer_BytesVal_def Writer_String_def Writer_Raw_def Writer_Hugeint_def
  FieldUvarint_def FieldSvarint_def FieldBool_def FieldString_def FieldBytes_def FieldHugeint_def

section \<open>Every read moves forward, inside the buffer\<close>

definition reader_ok :: "reader \<Rightarrow> bool" where
  "reader_ok r \<longleftrightarrow> roff r \<le> length (rbuf r)"

definition advances :: "reader \<Rightarrow> reader \<Rightarrow> bool" where
  "advances r r' \<longleftrightarrow>
     rbuf r' = rbuf r \<and> roff r \<le> roff r' \<and>
     (reader_ok r \<longrightarrow> reader_ok r') \<and> (rerr r \<noteq> None \<longrightarrow> r' = r)"

lemma advances_refl [advance_intros]: "advances r r"
  by (simp add: advances_def)

lemma advances_trans: "advances r s \<Longrightarrow> advances s t \<Longrightarrow> advances r t"
  by (auto simp: advances_def)

lemma advances_fail [advance_intros]: "advances r (reader_fail r e)"
  by (simp add: advances_def reader_fail_def reader_ok_def)

lemma advances_skip [advance_intros]:
  "rerr r = None \<Longrightarrow> n \<le> Remaining r \<Longrightarrow> advances r (r\<lparr>roff := roff r + n\<rparr>)"
  by (auto simp: advances_def reader_ok_def Remaining_def)

lemma advances_err: "advances r r' \<Longrightarrow> rerr r = Some e \<Longrightarrow> r' = r"
  by (simp add: advances_def)

lemma advances_ok: "advances r r' \<Longrightarrow> reader_ok r \<Longrightarrow> reader_ok r'"
  by (simp add: advances_def)

lemma advances_no_err: "advances r r' \<Longrightarrow> rerr r' = None \<Longrightarrow> rerr r = None"
  by (cases "rerr r") (auto simp: advances_def)

lemma reader_ok_NewReader [simp]: "reader_ok (NewReader buf)"
  by (simp add: reader_ok_def NewReader_def)

text \<open>An operation of the reader that returns a value keeps to the contract.\<close>

locale reader_op =
  fixes f :: "reader \<Rightarrow> 'a \<times> reader"
  assumes forward: "advances r (snd (f r))"
begin

lemma op_advances: "f r = (x, r') \<Longrightarrow> advances r r'"
  using forward [of r] by simp

lemma op_sticky: "rerr r = Some e \<Longrightarrow> f r = (x, r') \<Longrightarrow> r' = r"
  using op_advances advances_err by blast

lemma op_ok: "reader_ok r \<Longrightarrow> f r = (x, r') \<Longrightarrow> reader_ok r' \<and> rbuf r' = rbuf r"
  using op_advances [of r x r'] by (simp add: advances_def)

lemma read_list_advances: "advances r (snd (read_list f n r))"
proof (induction n arbitrary: r)
  case 0
  then show ?case by (simp add: advances_refl)
next
  case (Suc n)
  show ?case
    using forward [of r] Suc [of "snd (f r)"]
    by (auto simp: split_beta Let_def intro: advances_trans)
qed

lemma list_op: "reader_op (read_list f n)"
  by unfold_locales (rule read_list_advances)

end

lemma PeekID_advances: "advances r (snd (PeekID r))"
  by (simp add: PeekID_def advance_intros)

lemma TryField_advances: "advances r (snd (TryField r fid))"
  by (auto simp: TryField_def PeekID_def reader_fail_def advances_def reader_ok_def Remaining_def)

lemma End_advances [advance_intros]: "advances r (Reader_End r)"
  by (auto simp: Reader_End_def PeekID_def reader_fail_def advances_def reader_ok_def Remaining_def)

lemma Take_advances: "advances r (snd (Take r n))"
  by (auto simp: Take_def advances_refl advances_fail intro!: advances_skip)

lemma go_uvarint_consumed: "go_uvarint i x s bs = (v, n) \<Longrightarrow> 0 < n \<Longrightarrow> n \<le> int i + int (length bs)"
  by (induction i x s bs rule: go_uvarint.induct) (auto split: if_splits)

lemma Uvarint_advances: "advances r (snd (Reader_Uvarint r))"
proof -
  obtain v n where vn: "go_uvarint 0 0 0 (Rest r) = (v, n)"
    by (cases "go_uvarint 0 0 0 (Rest r)")
  have "n > 0 \<Longrightarrow> nat n \<le> Remaining r"
    using go_uvarint_consumed [OF vn] by (simp add: Rest_def Remaining_def)
  then show ?thesis
    by (auto simp: Reader_Uvarint_def vn advances_refl advances_fail intro!: advances_skip)
qed

lemma svarint_loop_advances: "rerr r = None \<Longrightarrow> advances r (snd (svarint_loop r i v shift))"
proof (induction r i v shift rule: svarint_loop.induct)
  case (1 r i v shift)
  let ?r = "r\<lparr>roff := roff r + 1\<rparr>"
  have step: "Remaining r \<noteq> 0 \<Longrightarrow> advances r ?r"
    by (rule advances_skip) (simp_all add: 1)
  show ?case
    using "1.IH" "1.prems" step
    by (subst svarint_loop.simps)
       (auto simp: Let_def advances_fail intro: advances_trans [of r ?r])
qed

lemma Svarint_advances: "advances r (snd (Reader_Svarint r))"
  by (simp add: Reader_Svarint_def advances_refl svarint_loop_advances)

interpretation uvarint_op: reader_op Reader_Uvarint
  by unfold_locales (rule Uvarint_advances)

interpretation svarint_op: reader_op Reader_Svarint
  by unfold_locales (rule Svarint_advances)

interpretation take_op: reader_op "\<lambda>r. Take r n" for n
  by unfold_locales (rule Take_advances)

interpretation try_op: reader_op "\<lambda>r. TryField r fid" for fid
  by unfold_locales (rule TryField_advances)

interpretation bool_op: reader_op Reader_Bool
  by unfold_locales (simp add: Reader_Bool_def split_beta Let_def Take_advances)

interpretation present_op: reader_op Present
  by unfold_locales (simp add: Present_def bool_op.forward)

context reader_op
begin

lemma opt_field_advances: "advances r (snd (opt_field r fid f d))"
  using TryField_advances [of r fid] forward [of "snd (TryField r fid)"]
  by (auto simp: opt_field_def split_beta Let_def intro: advances_trans)

end

text \<open>The same contract for decoders that return a Go result, and its counted loop.\<close>

locale decoder_op = reader_op f for f :: "reader \<Rightarrow> ('e, 'b) go \<times> reader"
begin

lemma read_list_go_advances: "advances r (snd (read_list_go f n r))"
proof (induction n arbitrary: r)
  case 0
  then show ?case by (simp add: advances_refl)
next
  case (Suc n)
  show ?case
    using forward [of r] Suc [of "snd (f r)"]
    by (auto intro: advances_trans split: prod.splits go.splits)
qed

lemma read_list_go_length: "read_list_go f n r = (Ok xs, r') \<Longrightarrow> length xs = n"
  by (induction n arbitrary: r xs) (auto split: prod.splits go.splits)

end

lemma counted_advances:
  "advances r (snd (let (n, r) = Reader_Uvarint r in
     if rerr r \<noteq> None then (x, r)
     else if unat n > Remaining r then (x, reader_fail r ErrTruncated) else g n r))"
  if "\<And>n r. advances r (snd (g n r))"
  using Uvarint_advances [of r] that advances_fail
  by (auto simp: split_beta Let_def intro: advances_trans)

interpretation bytes_op: reader_op Reader_Bytes
  by unfold_locales (unfold Reader_Bytes_def, rule counted_advances, rule Take_advances)

interpretation string_op: reader_op Reader_String
  by unfold_locales (simp add: Reader_String_def split_beta Let_def bytes_op.forward)

interpretation count_op: reader_op ListCount
  by unfold_locales (unfold ListCount_def, rule counted_advances, simp add: advances_refl)

interpretation optional_op: reader_op OptionalIdx
  by unfold_locales (simp add: OptionalIdx_def Uvarint_advances)

interpretation hugeint_op: reader_op Reader_Hugeint
proof
  fix r
  show "advances r (snd (Reader_Hugeint r))"
    using advances_trans [OF Svarint_advances Uvarint_advances]
    by (simp add: Reader_Hugeint_def split_beta Let_def)
qed

text \<open>The contract of every primitive in the shape forward proofs use.\<close>

lemmas op_advances =
  uvarint_op.op_advances svarint_op.op_advances take_op.op_advances try_op.op_advances
  bool_op.op_advances present_op.op_advances bytes_op.op_advances string_op.op_advances
  count_op.op_advances optional_op.op_advances hugeint_op.op_advances

lemmas opt_advances =
  uvarint_op.opt_field_advances bool_op.opt_field_advances present_op.opt_field_advances
  bytes_op.opt_field_advances string_op.opt_field_advances

lemma opt_field_forward:
  "reader_op f \<Longrightarrow> opt_field r fid f d = (x, r') \<Longrightarrow> advances r r'"
  using reader_op.opt_field_advances [of f r fid d] by simp

lemma reader_op_apfst: "reader_op f \<Longrightarrow> reader_op (\<lambda>r. apfst g (f r))"
  by (simp add: reader_op_def)

lemma ListCount_bound: "ListCount r = (n, r') \<Longrightarrow> n \<le> Remaining r'"
  by (auto simp: ListCount_def split_beta Let_def split: if_splits)


section \<open>Round trips\<close>

text \<open>The error-free reader that has consumed \<open>pre\<close> and has \<open>bs\<close> in front of it.\<close>

definition rd :: "bytes \<Rightarrow> bytes \<Rightarrow> reader" where
  "rd pre bs = \<lparr>rbuf = pre @ bs, roff = length pre, rerr = None\<rparr>"

lemma NewReader_rd: "NewReader bs = rd [] bs"
  by (simp add: NewReader_def rd_def)

lemma rd_simps [simp]:
  "rerr (rd pre bs) = None" "Rest (rd pre bs) = bs" "Remaining (rd pre bs) = length bs"
  by (simp_all add: rd_def Rest_def Remaining_def)

lemma rd_skip: "roff (rd pre (xs @ ys)) + length xs = roff (rd (pre @ xs) ys)"
  "(rd pre (xs @ ys))\<lparr>roff := length pre + length xs\<rparr> = rd (pre @ xs) ys"
  by (simp_all add: rd_def)

lemma skip_rd: "n = length xs \<Longrightarrow> (rd pre (xs @ ys))\<lparr>roff := roff (rd pre (xs @ ys)) + n\<rparr> = rd (pre @ xs) ys"
  by (simp add: rd_def)

lemma PeekID_rd [wire_simps]: "PeekID (rd pre (le_put 2 fid @ ys)) = (fid, rd pre (le_put 2 fid @ ys))"
  by (simp add: PeekID_def)

lemma TryField_rd [wire_simps]:
  "TryField (rd pre (le_put 2 got @ ys)) fid =
     (if got = fid then (True, rd (pre @ le_put 2 got) ys) else (False, rd pre (le_put 2 got @ ys)))"
  by (simp only: TryField_def PeekID_rd prod.case Let_def rd_simps)
     (simp add: skip_rd del: add_2_eq_Suc' append_assoc)

lemma End_rd [wire_simps]:
  "Reader_End (rd pre (le_put 2 EndID @ ys)) = rd (pre @ le_put 2 EndID) ys"
  by (simp only: Reader_End_def PeekID_rd prod.case Let_def rd_simps)
     (simp add: skip_rd del: add_2_eq_Suc' append_assoc)

lemma End_rd_last [wire_simps]: "Reader_End (rd pre (le_put 2 EndID)) = rd (pre @ le_put 2 EndID) []"
  using End_rd [of pre "[]"] by simp

lemma opt_field_rd [wire_simps]:
  "opt_field (rd pre (le_put 2 got @ ys)) fid f d =
     (if got = fid then f (rd (pre @ le_put 2 got) ys) else (d, rd pre (le_put 2 got @ ys)))"
  by (simp add: opt_field_def TryField_rd)

lemma Take_rd: "n = int (length xs) \<Longrightarrow> Take (rd pre (xs @ ys)) n = (xs, rd (pre @ xs) ys)"
  by (simp add: Take_def skip_rd)

text \<open>
  A value encoding: what \<open>dec\<close> reads back from the bytes \<open>enc\<close> produces, for the
  values \<open>enc\<close> is meant for.
\<close>

locale wire_codec =
  fixes enc :: "'a \<Rightarrow> bytes" and dec :: "reader \<Rightarrow> 'a \<times> reader" and ok :: "'a \<Rightarrow> bool"
  assumes dec_enc: "ok x \<Longrightarrow> dec (rd pre (enc x @ ys)) = (x, rd (pre @ enc x) ys)"
begin

lemma dec_enc_list:
  "list_all ok xs \<Longrightarrow>
   read_list dec (length xs) (rd pre (concat (map enc xs) @ ys)) = (xs, rd (pre @ concat (map enc xs)) ys)"
  by (induction xs arbitrary: pre) (simp_all add: dec_enc)

lemma enc_inj: "ok x \<Longrightarrow> ok y \<Longrightarrow> enc x @ xs = enc y @ ys \<Longrightarrow> x = y"
  using dec_enc [of x "[]" xs] dec_enc [of y "[]" ys] by simp

lemma enc_inj_list:
  "list_all ok xs \<Longrightarrow> list_all ok ys \<Longrightarrow> length xs = length ys \<Longrightarrow>
   concat (map enc xs) = concat (map enc ys) \<Longrightarrow> xs = ys"
  using dec_enc_list [of xs "[]" "[]"] dec_enc_list [of ys "[]" "[]"] by simp

end

subsection \<open>Unsigned varints\<close>

lemma unat_drop_7: "unat (drop_bit 7 (x :: u64)) = unat x div 128"
  by (simp add: drop_bit_eq_div unat_div)

lemma mask7_byte: "(0x7f :: byte) = mask 7" and mask7_u64: "(0x7f :: u64) = mask 7"
  by (simp_all add: mask_eq_exp_minus_1)

lemma bit_0x80: "bit (0x80 :: int) n \<longleftrightarrow> n = 7" and bit_0x40: "bit (0x40 :: int) n \<longleftrightarrow> n = 6"
proof -
  have "(0x80 :: int) = 2 ^ 7" "(0x40 :: int) = 2 ^ 6"
    by simp_all
  then show "bit (0x80 :: int) n \<longleftrightarrow> n = 7" "bit (0x40 :: int) n \<longleftrightarrow> n = 6"
    by (simp_all only: bit_exp_iff) auto
qed

lemmas byte_bits = mask7_byte mask7_u64 bit_simps bit_mask_iff bit_0x80 bit_0x40

lemma byte_less_0x80: "(b :: byte) < 0x80 \<longleftrightarrow> \<not> bit b 7"
proof -
  have "unat b < 256"
    using unsigned_less [of b, where 'a = nat] by simp
  then have "unat b div 128 < 2"
    by simp
  then have "odd (unat b div 128) \<longleftrightarrow> unat b div 128 \<noteq> 0"
    by (auto simp: less_2_cases_iff)
  then have "bit (unat b) 7 \<longleftrightarrow> 128 \<le> unat b"
    by (simp add: bit_iff_odd div_eq_0_iff not_less)
  then show ?thesis
    by (simp add: bit_unsigned_iff word_less_nat_alt not_le)
qed

lemma low7_marked: "ucast ((ucast (x :: u64) OR 0x80) AND 0x7f :: byte) = x AND (0x7f :: u64)"
  by (rule bit_word_eqI) (auto simp: byte_bits)

lemma split7_unsigned: "push_bit s (x AND 0x7f) OR push_bit (s + 7) (drop_bit 7 x) = push_bit s (x :: u64)"
proof (rule bit_word_eqI)
  fix n
  have "s + 7 \<le> n \<Longrightarrow> 7 + (n - (s + 7)) = n - s"
    by simp
  then show "bit (push_bit s (x AND 0x7f) OR push_bit (s + 7) (drop_bit 7 x)) n = bit (push_bit s x) n"
    by (cases "s + 7 \<le> n") (auto simp: byte_bits)
qed

lemma marked_ge: "\<not> (ucast (x :: u64) OR (0x80 :: byte)) < 0x80"
  by (simp add: byte_less_0x80 byte_bits)

lemma small_ucast: "\<not> (0x80 :: u64) \<le> x \<Longrightarrow> unat (ucast x :: byte) = unat x \<and> unat x < 128"
  by (simp add: word_le_nat_alt unsigned_ucast_eq take_bit_nat_eq_self)

lemma go_uvarint_put:
  assumes "i \<le> 9" and "unat x < 2 ^ (64 - 7 * i)"
  shows "go_uvarint i acc (7 * i) (put_uvarint x @ ys)
    = (acc OR push_bit (7 * i) x, int i + int (length (put_uvarint x)))"
  using assms
proof (induction x arbitrary: i acc rule: put_uvarint.induct)
  case (1 x)
  show ?case
  proof (cases "0x80 \<le> x")
    case True
    then have big: "128 \<le> unat x"
      by (simp add: word_le_nat_alt)
    have i: "i \<le> 8"
    proof (rule ccontr)
      assume "\<not> i \<le> 8"
      with "1.prems" have "i = 9" by simp
      with "1.prems" big show False by simp
    qed
    have "64 - 7 * i = (64 - 7 * Suc i) + 7"
      using i by simp
    then have "(2 :: nat) ^ (64 - 7 * i) = 2 ^ (64 - 7 * Suc i) * 2 ^ 7"
      by (simp only: power_add)
    then have "unat x < 2 ^ (64 - 7 * Suc i) * 128"
      using "1.prems"(2) by simp
    then have "unat (drop_bit 7 x) < 2 ^ (64 - 7 * Suc i)"
      by (simp add: unat_drop_7 less_mult_imp_div_less)
    then have "go_uvarint (Suc i) (acc OR push_bit (7 * i) (x AND 0x7f)) (7 * Suc i) (put_uvarint (drop_bit 7 x) @ ys)
      = ((acc OR push_bit (7 * i) (x AND 0x7f)) OR push_bit (7 * Suc i) (drop_bit 7 x),
         int (Suc i) + int (length (put_uvarint (drop_bit 7 x))))"
      using i by (intro "1.IH" [OF True]) simp_all
    moreover have "(acc OR push_bit (7 * i) (x AND 0x7f)) OR push_bit (7 * Suc i) (drop_bit 7 x)
      = acc OR push_bit (7 * i) x"
      using split7_unsigned [of "7 * i" x] by (simp add: or.assoc add.commute)
    moreover have "put_uvarint x = (ucast x OR 0x80) # put_uvarint (drop_bit 7 x)"
      using True by (subst put_uvarint.simps) simp
    moreover have "7 * i + 7 = 7 * Suc i"
      by simp
    ultimately show ?thesis
      using i marked_ge [of x] low7_marked [of x] by (simp only: append_Cons go_uvarint.simps) simp
  next
    case False
    then have small: "unat (ucast x :: byte) = unat x" "unat x < 128"
      using small_ucast by blast+
    have lt: "(ucast x :: byte) < 0x80"
      using small by (simp add: word_less_nat_alt)
    have widened: "(ucast (ucast x :: byte) :: u64) = x"
      by (rule word_unat_eq_iff [THEN iffD2]) (use small in \<open>simp add: unsigned_ucast_eq unsigned_take_bit_eq take_bit_nat_eq_self\<close>)
    have "i = 9 \<Longrightarrow> \<not> 1 < (ucast x :: byte)"
      using small "1.prems"(2) by (simp add: word_less_nat_alt)
    then show ?thesis
      using False lt widened "1.prems"(1) by (subst (1 2) put_uvarint.simps) simp
  qed
qed

lemma Uvarint_rd [wire_simps]: "Reader_Uvarint (rd pre (put_uvarint v @ ys)) = (v, rd (pre @ put_uvarint v) ys)"
proof -
  have "unat v < 2 ^ (64 - 7 * 0)"
    using unsigned_less [of v, where 'a = nat] by simp
  then have "go_uvarint 0 0 0 (put_uvarint v @ ys) = (v, int (length (put_uvarint v)))"
    using go_uvarint_put [of 0 v 0 ys] by simp
  moreover have "length (put_uvarint v) \<noteq> 0"
    by (subst put_uvarint.simps) simp
  ultimately show ?thesis
    by (simp add: Reader_Uvarint_def skip_rd)
qed

interpretation uvarint_codec: wire_codec put_uvarint Reader_Uvarint "\<lambda>_. True"
  by unfold_locales (rule Uvarint_rd)


subsection \<open>Signed varints\<close>

lemma sint_sdrop_7: "sint (signed_drop_bit 7 (v :: u64)) = sint v div 128"
  by (simp add: sint_signed_drop_bit_eq drop_bit_eq_div)

lemma low7_signed: "(ucast ((ucast ((v :: u64) AND 0x7f) OR (0x80 :: byte)) AND 0x7f) :: u64) = v AND 0x7f"
  "(ucast ((ucast ((v :: u64) AND 0x7f) :: byte) AND 0x7f) :: u64) = v AND 0x7f"
  by (rule bit_word_eqI, auto simp: byte_bits)+

lemma mark_bit:
  "(ucast ((v :: u64) AND 0x7f) OR (0x80 :: byte)) AND 0x80 \<noteq> 0"
  "(ucast ((v :: u64) AND 0x7f) :: byte) AND 0x80 = 0"
proof -
  have "bit ((ucast (v AND 0x7f) OR (0x80 :: byte)) AND 0x80) 7"
    by (simp add: byte_bits)
  then show "(ucast (v AND 0x7f) OR (0x80 :: byte)) AND 0x80 \<noteq> 0"
    by (metis bit_0_eq bot_apply bot_bool_def)
  show "(ucast (v AND 0x7f) :: byte) AND 0x80 = 0"
    by (rule bit_word_eqI) (auto simp: byte_bits)
qed

lemma sign_bit: "(ucast ((v :: u64) AND 0x7f) :: byte) AND 0x40 = 0 \<longleftrightarrow> \<not> bit v 6"
proof -
  have bits: "bit ((ucast (v AND 0x7f) :: byte) AND 0x40) n \<longleftrightarrow> n = 6 \<and> bit v 6" for n
    by (auto simp: byte_bits)
  then show ?thesis
    by (metis bit_0_eq bit_word_eqI bot_apply bot_bool_def)
qed

lemma split7_signed:
  "push_bit s (v AND 0x7f) OR push_bit (s + 7) (signed_drop_bit 7 v) = push_bit s (v :: u64)"
proof (rule bit_word_eqI)
  fix n
  assume "n < LENGTH(64)"
  moreover have "s + 7 \<le> n \<Longrightarrow> 7 + (n - (s + 7)) = n - s"
    by simp
  ultimately show "bit (push_bit s (v AND 0x7f) OR push_bit (s + 7) (signed_drop_bit 7 v)) n = bit (push_bit s v) n"
    by (cases "s + 7 \<le> n") (auto simp: byte_bits bit_signed_drop_bit_iff)
qed

lemma svarint_step:
  "svarint_loop (rd pre (b # ys)) i v shift =
     (if i = 10 then (0, reader_fail (rd pre (b # ys)) ErrOverflow)
      else
        let v = (if shift < 64 then v OR push_bit shift (ucast (b AND 0x7f)) else v) in
        if b AND 0x80 = 0
        then (if shift + 7 < 64 \<and> b AND 0x40 \<noteq> 0 then v OR push_bit (shift + 7) (NOT 0) else v, rd (pre @ [b]) ys)
        else svarint_loop (rd (pre @ [b]) ys) (i + 1) v (shift + 7))"
proof -
  have byte_at: "rbuf (rd pre (b # ys)) ! roff (rd pre (b # ys)) = b"
    and next_rd: "(rd pre (b # ys))\<lparr>roff := roff (rd pre (b # ys)) + 1\<rparr> = rd (pre @ [b]) ys"
    by (simp_all add: rd_def)
  show ?thesis
    by (subst svarint_loop.simps) (simp only: byte_at next_rd rd_simps Let_def list.size, simp)
qed

lemma svarint_loop_put:
  assumes "i \<le> 9" and "- (2 ^ (63 - 7 * i)) \<le> sint v" and "sint v < 2 ^ (63 - 7 * i)"
  shows "svarint_loop (rd pre (put_svarint v @ ys)) i acc (7 * i)
    = (acc OR push_bit (7 * i) v, rd (pre @ put_svarint v) ys)"
  using assms
proof (induction v arbitrary: i acc pre rule: put_svarint.induct)
  case (1 v)
  let ?b = "ucast (v AND 0x7f) :: byte" and ?v' = "signed_drop_bit 7 v"
  have shift: "7 * i < 64" "7 * i + 7 = 7 * Suc i"
    using "1.prems"(1) by simp_all
  show ?case
  proof (cases "(?v' = 0 \<and> ?b AND 0x40 = 0) \<or> (?v' = -1 \<and> ?b AND 0x40 \<noteq> 0)")
    case True
    then have put: "put_svarint v = [?b]"
      by (subst put_svarint.simps) (simp add: Let_def)
    have "i = 9 \<Longrightarrow> push_bit 70 w = 0" for w :: u64
      by (rule bit_word_eqI) (simp add: bit_simps)
    then show ?thesis
      using True shift "1.prems"(1) split7_signed [of "7 * i" v]
      by (cases "i = 9")
         (auto simp: put svarint_step mark_bit low7_signed Let_def or.assoc simp del: push_bit_and)
  next
    case False
    then have put: "put_svarint v = (?b OR 0x80) # put_svarint ?v'"
      by (subst put_svarint.simps) (simp only: Let_def if_False)
    have i: "i \<le> 8"
    proof (rule ccontr)
      assume "\<not> i \<le> 8"
      with "1.prems" have "sint v = 0 \<or> sint v = -1" by auto
      then have "v = 0 \<or> v = -1"
        by (metis signed_0 signed_minus_1 signed_word_eqI)
      with False show False by auto
    qed
    have "63 - 7 * i = (63 - 7 * Suc i) + 7"
      using i by simp
    then have "(2 :: int) ^ (63 - 7 * i) = 2 ^ (63 - 7 * Suc i) * 2 ^ 7"
      by (simp only: power_add)
    then have "- (2 ^ (63 - 7 * Suc i)) \<le> sint ?v'" "sint ?v' < 2 ^ (63 - 7 * Suc i)"
      using "1.prems"(2,3) by (simp_all add: sint_sdrop_7)
    then have "svarint_loop (rd (pre @ [?b OR 0x80]) (put_svarint ?v' @ ys)) (Suc i)
        (acc OR push_bit (7 * i) (v AND 0x7f)) (7 * Suc i)
      = ((acc OR push_bit (7 * i) (v AND 0x7f)) OR push_bit (7 * Suc i) ?v',
         rd ((pre @ [?b OR 0x80]) @ put_svarint ?v') ys)"
      using i False by (intro "1.IH" [OF refl refl]) simp_all
    moreover have "(acc OR push_bit (7 * i) (v AND 0x7f)) OR push_bit (7 * Suc i) ?v' = acc OR push_bit (7 * i) v"
      using split7_signed [of "7 * i" v] shift by (simp add: or.assoc)
    ultimately show ?thesis
      using i shift by (simp only: put append_Cons svarint_step mark_bit low7_signed Let_def if_False if_True) simp
  qed
qed

lemma Svarint_rd [wire_simps]: "Reader_Svarint (rd pre (put_svarint v @ ys)) = (v, rd (pre @ put_svarint v) ys)"
proof -
  have "svarint_loop (rd pre (put_svarint v @ ys)) 0 0 (7 * 0) = (0 OR push_bit (7 * 0) v, rd (pre @ put_svarint v) ys)"
    by (rule svarint_loop_put) (use sint_range_size [of v] in \<open>simp_all add: word_size\<close>)
  then show ?thesis
    by (simp add: Reader_Svarint_def)
qed

interpretation svarint_codec: wire_codec put_svarint Reader_Svarint "\<lambda>_. True"
  by unfold_locales (rule Svarint_rd)


subsection \<open>Booleans, byte strings, counts, hugeints\<close>

text \<open>A Go slice or string has a length that fits in \<open>int\<close>.\<close>

definition go_len :: "'a list \<Rightarrow> bool" where
  "go_len xs \<longleftrightarrow> length xs < 2 ^ 63"

definition put_bool :: "bool \<Rightarrow> bytes" where
  "put_bool b = (if b then [1] else [0])"

definition put_bytes :: "bytes \<Rightarrow> bytes" where
  "put_bytes b = put_uvarint (word_of_nat (length b)) @ b"

definition put_string :: "string \<Rightarrow> bytes" where
  "put_string s = put_bytes (go_bytes s)"

definition put_hugeint :: "hugeint \<Rightarrow> bytes" where
  "put_hugeint h = put_svarint (Upper h) @ put_uvarint (Lower h)"

lemma writer_appends [writer_simps]:
  "Writer_Field w fid = w @ le_put 2 fid"
  "Writer_End w = w @ le_put 2 EndID"
  "Writer_Uvarint w v = w @ put_uvarint v"
  "Writer_Svarint w i = w @ put_svarint i"
  "Writer_Bool w b = w @ put_bool b"
  "Writer_BytesVal w bs = w @ put_bytes bs"
  "Writer_String w s = w @ put_string s"
  "Writer_Raw w bs = w @ bs"
  "Writer_Hugeint w h = w @ put_hugeint h"
  "FieldUvarint w fid v = w @ le_put 2 fid @ put_uvarint v"
  "FieldSvarint w fid i = w @ le_put 2 fid @ put_svarint i"
  "FieldBool w fid b = w @ le_put 2 fid @ put_bool b"
  "FieldString w fid s = w @ le_put 2 fid @ put_string s"
  "FieldBytes w fid bs = w @ le_put 2 fid @ put_bytes bs"
  "FieldHugeint w fid h = w @ le_put 2 fid @ put_hugeint h"
  by (simp_all add: writer_defs put_bool_def put_bytes_def put_string_def put_hugeint_def)

lemma unat_length [simp]: "n < 2 ^ 63 \<Longrightarrow> unat (word_of_nat n :: u64) = n"
  by (simp add: unat_of_nat take_bit_nat_eq_self)

lemma unat_go_len [simp]: "go_len xs \<Longrightarrow> unat (word_of_nat (length xs) :: u64) = length xs"
  by (simp add: go_len_def)

lemma Bool_rd [wire_simps]: "Reader_Bool (rd pre (put_bool b @ ys)) = (b, rd (pre @ put_bool b) ys)"
  by (simp add: Reader_Bool_def put_bool_def Take_rd [of 1 "[x]" for x, simplified])

lemma Present_rd [wire_simps]: "Present (rd pre (put_bool b @ ys)) = (b, rd (pre @ put_bool b) ys)"
  by (simp add: Present_def Bool_rd)

lemma Bytes_rd [wire_simps]:
  assumes "go_len b"
  shows "Reader_Bytes (rd pre (put_bytes b @ ys)) = (b, rd (pre @ put_bytes b) ys)"
proof -
  have "uint (word_of_nat (length b) :: u64) = int (length b)"
    using assms by (simp add: uint_nat)
  then show ?thesis
    using assms by (simp add: Reader_Bytes_def put_bytes_def Uvarint_rd Take_rd)
qed

lemma String_rd [wire_simps]:
  "go_len s \<Longrightarrow> Reader_String (rd pre (put_string s @ ys)) = (s, rd (pre @ put_string s) ys)"
  by (simp add: Reader_String_def put_string_def Bytes_rd go_len_def)

lemma ListCount_rd [wire_simps]:
  "n < 2 ^ 63 \<Longrightarrow> n \<le> length ys \<Longrightarrow>
   ListCount (rd pre (put_uvarint (word_of_nat n) @ ys)) = (n, rd (pre @ put_uvarint (word_of_nat n)) ys)"
  by (simp add: ListCount_def Uvarint_rd)

lemma Hugeint_rd [wire_simps]: "Reader_Hugeint (rd pre (put_hugeint h @ ys)) = (h, rd (pre @ put_hugeint h) ys)"
  by (simp add: Reader_Hugeint_def put_hugeint_def Svarint_rd Uvarint_rd)

lemma OptionalIdx_rd [wire_simps]: "OptionalIdx (rd pre (put_uvarint v @ ys)) = (v, rd (pre @ put_uvarint v) ys)"
  by (simp add: OptionalIdx_def Uvarint_rd)

interpretation bool_codec: wire_codec put_bool Reader_Bool "\<lambda>_. True"
  by unfold_locales (rule Bool_rd)

interpretation bytes_codec: wire_codec put_bytes Reader_Bytes go_len
  by unfold_locales (rule Bytes_rd)

interpretation string_codec: wire_codec put_string Reader_String go_len
  by unfold_locales (rule String_rd)

interpretation hugeint_codec: wire_codec put_hugeint Reader_Hugeint "\<lambda>_. True"
  by unfold_locales (rule Hugeint_rd)

lemma put_uvarint_nonempty [simp]: "put_uvarint v \<noteq> []"
  by (subst put_uvarint.simps) simp

lemma put_bytes_nonempty [simp]: "put_bytes b \<noteq> []"
  by (simp add: put_bytes_def)

lemma put_string_nonempty [simp]: "put_string s \<noteq> []"
  by (simp add: put_string_def)

lemma length_put_uvarint: "1 \<le> length (put_uvarint v)"
  by (simp add: Suc_leI)

lemma length_put_string: "1 \<le> length (put_string s)"
  by (simp add: Suc_leI)

lemma length_concat_ge: "(\<And>x. x \<in> set xs \<Longrightarrow> 1 \<le> length (f x)) \<Longrightarrow> length xs \<le> length (concat (map f xs))"
proof (induction xs)
  case Nil
  then show ?case by simp
next
  case (Cons x xs)
  then have "length xs \<le> length (concat (map f xs))" "1 \<le> length (f x)"
    by auto
  then show ?case by simp
qed

section \<open>Sequences of calls\<close>

text \<open>A decoder is a sequence of the reader's calls; \<open>call_reader\<close> is the effect of one of them.\<close>

datatype read_call =
    CallPeekID | CallTryField u16 | CallEnd | CallTake int | CallUvarint | CallSvarint | CallBool
  | CallBytes | CallString | CallListCount | CallPresent | CallHugeint | CallOptionalIdx

fun call_reader :: "read_call \<Rightarrow> reader \<Rightarrow> reader" where
  "call_reader CallPeekID r = snd (PeekID r)"
| "call_reader (CallTryField fid) r = snd (TryField r fid)"
| "call_reader CallEnd r = Reader_End r"
| "call_reader (CallTake n) r = snd (Take r n)"
| "call_reader CallUvarint r = snd (Reader_Uvarint r)"
| "call_reader CallSvarint r = snd (Reader_Svarint r)"
| "call_reader CallBool r = snd (Reader_Bool r)"
| "call_reader CallBytes r = snd (Reader_Bytes r)"
| "call_reader CallString r = snd (Reader_String r)"
| "call_reader CallListCount r = snd (ListCount r)"
| "call_reader CallPresent r = snd (Present r)"
| "call_reader CallHugeint r = snd (Reader_Hugeint r)"
| "call_reader CallOptionalIdx r = snd (OptionalIdx r)"

lemma call_reader_advances: "advances r (call_reader c r)"
  by (cases c) (simp_all add: PeekID_advances End_advances TryField_advances Take_advances
      uvarint_op.forward svarint_op.forward bool_op.forward bytes_op.forward string_op.forward
      count_op.forward present_op.forward hugeint_op.forward optional_op.forward)

inductive reader_reach :: "bytes \<Rightarrow> reader \<Rightarrow> bool" for buf where
  start: "reader_reach buf (NewReader buf)"
| step: "reader_reach buf r \<Longrightarrow> reader_reach buf (call_reader c r)"

lemma reader_reach_ok: "reader_reach buf r \<Longrightarrow> rbuf r = buf \<and> reader_ok r"
proof (induction rule: reader_reach.induct)
  case start
  then show ?case by (simp add: NewReader_def reader_ok_def)
next
  case (step r c)
  then show ?case
    using call_reader_advances [of r c] by (simp add: advances_def)
qed

text \<open>No varint takes more than ten bytes.\<close>

lemma go_uvarint_max10: "go_uvarint i x s bs = (v, n) \<Longrightarrow> i \<le> 10 \<Longrightarrow> n \<le> 10"
  by (induction i x s bs rule: go_uvarint.induct) (auto split: if_splits)

lemma Uvarint_max10: "roff (snd (Reader_Uvarint r)) \<le> roff r + 10"
  using go_uvarint_max10 [of 0 0 0 "Rest r"]
  by (auto simp: Reader_Uvarint_def reader_fail_def split: prod.splits)

lemma svarint_loop_max10: "i \<le> 10 \<Longrightarrow> roff (snd (svarint_loop r i v shift)) \<le> roff r + (10 - i)"
proof (induction r i v shift rule: svarint_loop.induct)
  case (1 r i v shift)
  show ?case
  proof (cases "Remaining r = 0 \<or> i = 10")
    case True
    then show ?thesis by (subst svarint_loop.simps) (auto simp: reader_fail_def)
  next
    case False
    then show ?thesis
      using "1.IH" [OF _ _ refl refl refl refl] "1.prems"
      by (subst svarint_loop.simps) (auto simp: Let_def)
  qed
qed

lemma Svarint_max10: "roff (snd (Reader_Svarint r)) \<le> roff r + 10"
  using svarint_loop_max10 [of 0 r 0 0] by (simp add: Reader_Svarint_def)

section \<open>Properties\<close>

text \<open>C6: after any sequence of reads from a buffer the reader still holds that buffer and its offset
  is inside it, so no read is out of range; and once a read has failed every later read changes
  nothing, so the first error is the one \<open>Err\<close> reports.\<close>

theorem reader_sequence_safe:
  assumes "reader_reach buf r"
  shows "rbuf r = buf \<and> roff r \<le> length buf \<and> (rerr r = None \<or> call_reader c r = r)"
  using reader_reach_ok [OF assms] call_reader_advances [of r c]
  by (auto simp: reader_ok_def advances_def)

theorem reader_sequence_safe_witness:
  "roff (call_reader CallUvarint (NewReader [5, 7])) \<le> length [5 :: byte, 7]"
proof -
  have "reader_reach [5, 7] (call_reader CallUvarint (NewReader [5, 7]))"
    by (intro reader_reach.intros)
  from reader_sequence_safe [OF this, of CallEnd] show ?thesis by simp
qed

lemma uvarint_roundtrip:
  "\<exists>r. Reader_Uvarint (NewReader (Writer_Uvarint [] v @ ys)) = (v, r) \<and> rerr r = None \<and> Rest r = ys"
  by (simp add: Writer_Uvarint_def NewReader_rd Uvarint_rd)

text \<open>C7: a varint, unsigned or signed (LEB128 with sign extension), reads back as the value written, for
  every 64-bit value, negative ones included, whatever follows it, and leaves the reader at what
  follows; a 128-bit value reads back from its two halves.\<close>

theorem svarint_roundtrip:
  "(\<exists>r. Reader_Uvarint (NewReader (Writer_Uvarint [] u @ ys)) = (u, r) \<and> rerr r = None \<and> Rest r = ys) \<and>
   (\<exists>r. Reader_Svarint (NewReader (Writer_Svarint [] v @ ys)) = (v, r) \<and> rerr r = None \<and> Rest r = ys) \<and>
   (\<exists>r. Reader_Hugeint (NewReader (Writer_Hugeint [] h @ ys)) = (h, r) \<and> rerr r = None \<and> Rest r = ys)"
proof -
  have "Writer_Hugeint [] h = put_hugeint h"
    using writer_appends by simp
  then show ?thesis
    using uvarint_roundtrip by (simp add: Writer_Svarint_def NewReader_rd Svarint_rd Hugeint_rd)
qed

text \<open>C8: a length prefix never promises more than the input holds: a list count is at most the
  number of bytes left, a byte string was really there, and a varint takes at most ten bytes.\<close>

theorem reader_lengths_bounded:
  "fst (ListCount r) \<le> Remaining (snd (ListCount r)) \<and>
   length (fst (Reader_Bytes r)) \<le> Remaining r \<and>
   roff (snd (Reader_Uvarint r)) \<le> roff r + 10 \<and> roff (snd (Reader_Svarint r)) \<le> roff r + 10"
proof -
  have count: "fst (ListCount r) \<le> Remaining (snd (ListCount r))"
    using ListCount_bound [of r] by (cases "ListCount r") simp
  obtain n r1 where 1: "Reader_Uvarint r = (n, r1)"
    by fastforce
  have "Remaining r1 \<le> Remaining r"
    using uvarint_op.op_advances [OF 1] by (auto simp: advances_def Remaining_def)
  then have "length (fst (Reader_Bytes r)) \<le> Remaining r"
    by (auto simp: Reader_Bytes_def 1 Take_def Rest_def Remaining_def)
  with count show ?thesis
    by (simp add: Uvarint_max10 Svarint_max10)
qed

end
