(* ===== verification/Logical_Type.thy ===== *)
theory Logical_Type
  imports Qser
begin

text \<open>
  The type trees of \<^verbatim>\<open>src/codec/logicaltype.go\<close>: \<open>logical_type\<close> is the struct
  \<open>LogicalType\<close> (a struct field is a pair of name and type), \<open>decodeType\<close> and
  \<open>decodeTypeInfo\<close> read one from a reader, \<open>LogicalType_String\<close> prints it.  The two
  decoders are mutually recursive in the source; here \<open>decodeTypeInfo\<close> takes the
  recursive call (\<open>decodeType\<close> at \<open>depth+1\<close>) as its first argument, and
  \<open>decodeType\<close> ties the knot.  \<open>WriteType\<close> is the encoder of
  \<^verbatim>\<open>src/codec/codectest/codectest.go\<close>.

  The errors of the package \<open>codec\<close> are the datatype \<open>codec_error\<close>, one constructor
  per error the source builds; the texts of the messages are left out.

  Lemmas: decoding only moves forward and never panics, the tree it returns is at most
  \<open>maxTypeDepth\<close> deep, and it reads back what \<open>WriteType\<close> wrote.
\<close>

section \<open>Type ids\<close>

type_synonym type_id = u32

definition TypeInvalid :: type_id where
  "TypeInvalid = 0"

definition TypeSQLNull :: type_id where
  "TypeSQLNull = 1"

definition TypeBoolean :: type_id where
  "TypeBoolean = 10"

definition TypeTinyint :: type_id where
  "TypeTinyint = 11"

definition TypeSmallint :: type_id where
  "TypeSmallint = 12"

definition TypeInteger :: type_id where
  "TypeInteger = 13"

definition TypeBigint :: type_id where
  "TypeBigint = 14"

definition TypeDate :: type_id where
  "TypeDate = 15"

definition TypeTime :: type_id where
  "TypeTime = 16"

definition TypeTimestampSec :: type_id where
  "TypeTimestampSec = 17"

definition TypeTimestampMS :: type_id where
  "TypeTimestampMS = 18"

definition TypeTimestamp :: type_id where
  "TypeTimestamp = 19"

definition TypeTimestampNS :: type_id where
  "TypeTimestampNS = 20"

definition TypeDecimal :: type_id where
  "TypeDecimal = 21"

definition TypeFloat :: type_id where
  "TypeFloat = 22"

definition TypeDouble :: type_id where
  "TypeDouble = 23"

definition TypeVarchar :: type_id where
  "TypeVarchar = 25"

definition TypeBlob :: type_id where
  "TypeBlob = 26"

definition TypeInterval :: type_id where
  "TypeInterval = 27"

definition TypeUTinyint :: type_id where
  "TypeUTinyint = 28"

definition TypeUSmallint :: type_id where
  "TypeUSmallint = 29"

definition TypeUInteger :: type_id where
  "TypeUInteger = 30"

definition TypeUBigint :: type_id where
  "TypeUBigint = 31"

definition TypeTimestampTZ :: type_id where
  "TypeTimestampTZ = 32"

definition TypeTimeTZ :: type_id where
  "TypeTimeTZ = 34"

definition TypeTimeNS :: type_id where
  "TypeTimeNS = 35"

definition TypeBit :: type_id where
  "TypeBit = 36"

definition TypeUHugeint :: type_id where
  "TypeUHugeint = 49"

definition TypeHugeint :: type_id where
  "TypeHugeint = 50"

definition TypeUUID :: type_id where
  "TypeUUID = 54"

definition TypeGeometry :: type_id where
  "TypeGeometry = 60"

definition TypeStruct :: type_id where
  "TypeStruct = 100"

definition TypeList :: type_id where
  "TypeList = 101"

definition TypeMap :: type_id where
  "TypeMap = 102"

definition TypeEnum :: type_id where
  "TypeEnum = 104"

definition TypeUnion :: type_id where
  "TypeUnion = 107"

definition TypeArray :: type_id where
  "TypeArray = 108"

definition TypeVariant :: type_id where
  "TypeVariant = 109"

lemmas type_id_defs =
  TypeInvalid_def TypeSQLNull_def TypeBoolean_def TypeTinyint_def TypeSmallint_def
  TypeInteger_def TypeBigint_def TypeDate_def TypeTime_def TypeTimestampSec_def
  TypeTimestampMS_def TypeTimestamp_def TypeTimestampNS_def TypeDecimal_def TypeFloat_def
  TypeDouble_def TypeVarchar_def TypeBlob_def TypeInterval_def TypeUTinyint_def
  TypeUSmallint_def TypeUInteger_def TypeUBigint_def TypeTimestampTZ_def TypeTimeTZ_def
  TypeTimeNS_def TypeBit_def TypeUHugeint_def TypeHugeint_def TypeUUID_def TypeGeometry_def
  TypeStruct_def TypeList_def TypeMap_def TypeEnum_def TypeUnion_def TypeArray_def TypeVariant_def

section \<open>Type trees\<close>

datatype logical_type = LogicalType
  (tID: type_id)
  (tWidth: byte)
  (tScale: byte)
  (tChild: "logical_type option")
  (tFields: "(string \<times> logical_type) list")
  (tEnum: "string list")
  (tArraySize: u32)

definition scalar_type :: "type_id \<Rightarrow> logical_type" where
  "scalar_type tid = LogicalType tid 0 0 None [] [] 0"

datatype (plugins only: code size) codec_error =
    ErrReader qser_error
  | ErrUnsupportedType logical_type
  | ErrTypeDepth
  | ErrTypeMissingID
  | ErrTypeInfoMissingKind
  | ErrExtensionInfo logical_type
  | ErrListMissingChild
  | ErrFieldMissingType string
  | ErrEnumMissingCount
  | ErrEnumCount nat u64
  | ErrArrayMissingChild
  | ErrUnknownTypeInfo logical_type u64
  | ErrChunkMissingRowCount
  | ErrImplausibleRowCount u64
  | ErrChunkMissingTypes
  | ErrChunkMissingColumns
  | ErrColumnCount nat nat
  | ErrColumn logical_type codec_error
  | ErrVectorDepth
  | ErrImplausibleVectorRows nat
  | ErrDictMissingSelection
  | ErrDictSelectionSize nat nat
  | ErrDictMissingCount
  | ErrImplausibleDictSize u64
  | ErrDictIndex u32 nat
  | ErrSeqMissingStart
  | ErrSeqMissingIncrement
  | ErrSeqType type_id
  | ErrVectorEncoding u64
  | ErrMissingValidityFlag
  | ErrMissingValidityMask
  | ErrShortValidity nat nat
  | ErrVectorMissingData logical_type
  | ErrEntryCount logical_type nat nat
  | ErrBitNoPadding
  | ErrBitPadding nat nat
  | ErrMissingChildren logical_type
  | ErrChildCount logical_type nat nat
  | ErrListMissingSize
  | ErrImplausibleListSize u64
  | ErrListMissingEntries
  | ErrListVectorMissingChild
  | ErrNoChildType logical_type
  | ErrListEntry u64 u64 u64
  | ErrArrayMissingSize
  | ErrImplausibleArraySize u64
  | ErrArrayVectorMissingChild
  | ErrShortData logical_type nat nat
  | ErrEnumIndex nat nat
  | ErrNameCount nat nat
  | ErrMissingResultUUID
  | ErrBadPrepare qser_error
  | ErrBadFetch qser_error
  | ErrWrapperMissingChunk
  | ErrValueIndex int int
  | ErrNoCodec u64

text \<open>\<open>return x, r.Err()\<close>\<close>

definition reader_result :: "'a \<Rightarrow> reader \<Rightarrow> (codec_error, 'a) go" where
  "reader_result x r = (case rerr r of None \<Rightarrow> Ok x | Some e \<Rightarrow> Err (ErrReader e))"

section \<open>Printing\<close>

definition typeNames :: "type_id \<Rightarrow> string option" where
  "typeNames = map_of
    [(TypeSQLNull, ''NULL''), (TypeBoolean, ''BOOLEAN''),
     (TypeTinyint, ''TINYINT''), (TypeSmallint, ''SMALLINT''), (TypeInteger, ''INTEGER''),
     (TypeBigint, ''BIGINT''), (TypeUTinyint, ''UTINYINT''), (TypeUSmallint, ''USMALLINT''),
     (TypeUInteger, ''UINTEGER''), (TypeUBigint, ''UBIGINT''),
     (TypeHugeint, ''HUGEINT''), (TypeUHugeint, ''UHUGEINT''),
     (TypeFloat, ''FLOAT''), (TypeDouble, ''DOUBLE''),
     (TypeVarchar, ''VARCHAR''), (TypeBlob, ''BLOB''), (TypeBit, ''BIT''),
     (TypeDate, ''DATE''), (TypeTime, ''TIME''), (TypeTimeTZ, ''TIMETZ''), (TypeTimeNS, ''TIME_NS''),
     (TypeTimestampSec, ''TIMESTAMP_S''), (TypeTimestampMS, ''TIMESTAMP_MS''),
     (TypeTimestamp, ''TIMESTAMP''), (TypeTimestampNS, ''TIMESTAMP_NS''),
     (TypeTimestampTZ, ''TIMESTAMPTZ''),
     (TypeInterval, ''INTERVAL''), (TypeUUID, ''UUID''), (TypeGeometry, ''GEOMETRY''),
     (TypeUnion, ''UNION''), (TypeVariant, ''VARIANT'')]"

text \<open>
  \<open>fmt\<close> recovers a panic of a \<open>String\<close> method it calls for a \<open>%s\<close> verb and prints
  this text in its place; a direct call \<open>t.Child.String()\<close> on a nil child is not
  recovered.
\<close>

definition fmt_stringer :: "(unit, string) go \<Rightarrow> string" where
  "fmt_stringer s = (case s of Ok x \<Rightarrow> x
     | _ \<Rightarrow> ''%!s(PANIC=String method: runtime error: invalid memory address or nil pointer dereference)'')"

fun join_comma :: "string list \<Rightarrow> string" where
  "join_comma [] = []"
| "join_comma [s] = s"
| "join_comma (s # ss) = s @ '', '' @ join_comma ss"

fun LogicalType_String :: "logical_type \<Rightarrow> (unit, string) go" where
  "LogicalType_String (LogicalType tid wd sc ch fs en asz) =
     (if tid = TypeDecimal then Ok (''DECIMAL('' @ nat_dec (unat wd) @ '','' @ nat_dec (unat sc) @ '')'')
      else if tid = TypeList then
        (case ch of None \<Rightarrow> Panic | Some c \<Rightarrow> go_bind (LogicalType_String c) (\<lambda>s. Ok (s @ ''[]'')))
      else if tid = TypeArray then
        (case ch of None \<Rightarrow> Panic
         | Some c \<Rightarrow> go_bind (LogicalType_String c) (\<lambda>s. Ok (s @ ''['' @ nat_dec (unat asz) @ '']'')))
      else if tid = TypeStruct then
        Ok (''STRUCT('' @
          join_comma (map (\<lambda>(name, t). name @ '' '' @ fmt_stringer (LogicalType_String t)) fs) @ '')'')
      else if tid = TypeMap then
        (case ch of None \<Rightarrow> Ok ''MAP''
         | Some (LogicalType ctid cwd csc cch cfs cen casz) \<Rightarrow>
             (case cfs of
                [(_, k), (_, v)] \<Rightarrow>
                  Ok (''MAP('' @ fmt_stringer (LogicalType_String k) @ '', '' @
                      fmt_stringer (LogicalType_String v) @ '')'')
              | _ \<Rightarrow> Ok ''MAP''))
      else if tid = TypeEnum then Ok (''ENUM('' @ nat_dec (length en) @ '' values)'')
      else (case typeNames tid of Some n \<Rightarrow> Ok n | None \<Rightarrow> Ok (''TYPE('' @ nat_dec (unat tid) @ '')'')))"

section \<open>Decoding\<close>

definition infoGeneric :: u64 where
  "infoGeneric = 1"

definition infoDecimal :: u64 where
  "infoDecimal = 2"

definition infoString :: u64 where
  "infoString = 3"

definition infoList :: u64 where
  "infoList = 4"

definition infoStruct :: u64 where
  "infoStruct = 5"

definition infoEnum :: u64 where
  "infoEnum = 6"

definition infoArray :: u64 where
  "infoArray = 9"

lemmas info_defs = infoGeneric_def infoDecimal_def infoString_def infoList_def infoStruct_def
  infoEnum_def infoArray_def

definition maxTypeDepth :: nat where
  "maxTypeDepth = 64"

type_synonym 'a decoder = "reader \<Rightarrow> (codec_error, 'a) go \<times> reader"

text \<open>A counted list of strings: the enum dictionary, the column names.\<close>

definition read_strings :: "reader \<Rightarrow> string list \<times> reader" where
  "read_strings r = (let (count, r) = ListCount r in read_list Reader_String count r)"

text \<open>One element of \<open>child_types\<close>, the body of the loop under \<open>infoStruct\<close>.\<close>

definition decodeStructField :: "logical_type decoder \<Rightarrow> (string \<times> logical_type) decoder" where
  "decodeStructField dt r =
     (let (name, r) = opt_field r 0 Reader_String [];
          (here, r) = TryField r 1
      in if \<not> here then (Err (ErrFieldMissingType name), r)
         else (case dt r of
                 (Ok ft, r) \<Rightarrow> (Ok (name, ft), Reader_End r)
               | (Err e, r) \<Rightarrow> (Err e, r)
               | (Panic, r) \<Rightarrow> (Panic, r)))"

text \<open>The \<open>switch kind\<close> of \<open>decodeTypeInfo\<close>.\<close>

definition decodeInfoKind :: "logical_type decoder \<Rightarrow> u64 \<Rightarrow> logical_type \<Rightarrow> logical_type decoder" where
  "decodeInfoKind dt kind t r =
     (if kind = infoGeneric then (Ok t, r)
      else if kind = infoDecimal then
        (let (w, r) = opt_field r 200 (\<lambda>r. apfst ucast (Reader_Uvarint r)) (tWidth t);
             (s, r) = opt_field r 201 (\<lambda>r. apfst ucast (Reader_Uvarint r)) (tScale t)
         in (Ok (LogicalType (tID t) w s (tChild t) (tFields t) (tEnum t) (tArraySize t)), r))
      else if kind = infoString then
        (let (_, r) = opt_field r 200 Reader_String [] in (Ok t, r))
      else if kind = infoList then
        (let (here, r) = TryField r 200 in
         if \<not> here then (Err ErrListMissingChild, r)
         else (case dt r of
                 (Ok c, r) \<Rightarrow>
                   (Ok (LogicalType (tID t) (tWidth t) (tScale t) (Some c) (tFields t) (tEnum t) (tArraySize t)), r)
               | (Err e, r) \<Rightarrow> (Err e, r)
               | (Panic, r) \<Rightarrow> (Panic, r)))
      else if kind = infoStruct then
        (let (here, r) = TryField r 200 in
         if \<not> here then (Ok t, r)
         else let (n, r) = ListCount r in
           (case read_list_go (decodeStructField dt) n r of
              (Ok fs, r) \<Rightarrow>
                (Ok (LogicalType (tID t) (tWidth t) (tScale t) (tChild t) fs (tEnum t) (tArraySize t)), r)
            | (Err e, r) \<Rightarrow> (Err e, r)
            | (Panic, r) \<Rightarrow> (Panic, r)))
      else if kind = infoEnum then
        (let (here, r) = TryField r 200 in
         if \<not> here then (Err ErrEnumMissingCount, r)
         else
           let (n, r) = Reader_Uvarint r;
               (en, r) = opt_field r 201 read_strings (tEnum t)
           in if length en \<noteq> unat n then (Err (ErrEnumCount (length en) n), r)
              else (Ok (LogicalType (tID t) (tWidth t) (tScale t) (tChild t) (tFields t) en (tArraySize t)), r))
      else if kind = infoArray then
        (let (here, r) = TryField r 200 in
         if \<not> here then (Err ErrArrayMissingChild, r)
         else (case dt r of
                 (Ok c, r) \<Rightarrow>
                   (let (asz, r) = opt_field r 201 (\<lambda>r. apfst ucast (Reader_Uvarint r)) (tArraySize t)
                    in (Ok (LogicalType (tID t) (tWidth t) (tScale t) (Some c) (tFields t) (tEnum t) asz), r))
               | (Err e, r) \<Rightarrow> (Err e, r)
               | (Panic, r) \<Rightarrow> (Panic, r)))
      else (Err (ErrUnknownTypeInfo t kind), r))"

definition decodeTypeInfo :: "logical_type decoder \<Rightarrow> logical_type \<Rightarrow> logical_type decoder" where
  "decodeTypeInfo dt t r =
     (let (here, r) = TryField r 100 in
      if \<not> here then (Err ErrTypeInfoMissingKind, r)
      else
        let (kind, r) = Reader_Uvarint r;
            (_, r) = opt_field r 101 Reader_String [];
            (ext, r) = opt_field r 103 Present False
        in if ext then (Err (ErrExtensionInfo t), r)
           else (case decodeInfoKind dt kind t r of
                   (Ok t, r) \<Rightarrow> (let r = Reader_End r in (reader_result t r, r))
                 | (Err e, r) \<Rightarrow> (Err e, r)
                 | (Panic, r) \<Rightarrow> (Panic, r)))"

function decodeType :: "nat \<Rightarrow> logical_type decoder" where
  "decodeType depth r =
     (if depth > maxTypeDepth then (Err ErrTypeDepth, r)
      else
        let (here, r) = TryField r 100 in
        if \<not> here then (Err ErrTypeMissingID, r)
        else
          let (tid, r) = Reader_Uvarint r;
              t = scalar_type (ucast tid);
              (present, r) = opt_field r 101 Present False
          in if present
             then (case decodeTypeInfo (decodeType (depth + 1)) t r of
                     (Ok t, r) \<Rightarrow> (let r = Reader_End r in (reader_result t r, r))
                   | (Err e, r) \<Rightarrow> (Err e, r)
                   | (Panic, r) \<Rightarrow> (Panic, r))
             else (let r = Reader_End r in (reader_result t r, r)))"
  by pat_completeness auto
termination
  by (relation "measure (\<lambda>(depth, r). Suc maxTypeDepth - depth)") auto

declare decodeType.simps [simp del]

definition enumIndexWidth :: "nat \<Rightarrow> nat" where
  "enumIndexWidth dictSize = (if dictSize \<le> 255 then 1 else if dictSize \<le> 65535 then 2 else 4)"

section \<open>The decoder's contract\<close>

text \<open>How deep a type tree nests; a type without children has depth 0.\<close>

fun type_depth :: "logical_type \<Rightarrow> nat" where
  "type_depth (LogicalType tid wd sc ch fs en asz) =
     max (case ch of None \<Rightarrow> 0 | Some c \<Rightarrow> Suc (type_depth c))
         (foldr max (map (\<lambda>(name, t). Suc (type_depth t)) fs) 0)"

lemma foldr_max_less: "foldr max xs 0 < n \<longleftrightarrow> 0 < n \<and> (\<forall>x\<in>set xs. x < n)" for n :: nat
  by (induction xs) auto

lemma type_depth_less:
  "type_depth (LogicalType tid wd sc ch fs en asz) < Suc n \<longleftrightarrow>
     (\<forall>c. ch = Some c \<longrightarrow> type_depth c < n) \<and> (\<forall>(name, t)\<in>set fs. type_depth t < n)"
  by (auto simp: foldr_max_less split: option.splits)

declare type_depth.simps [simp del]

lemma type_depth_scalar [simp]: "type_depth (scalar_type tid) = 0"
  by (simp add: scalar_type_def type_depth.simps)

lemma uvarint_ucast_op: "reader_op (\<lambda>r. apfst ucast (Reader_Uvarint r))"
  by (intro reader_op_apfst uvarint_op.reader_op_axioms)

interpretation strings_op: reader_op read_strings
proof
  fix r
  obtain k r1 where 1: "ListCount r = (k, r1)"
    by fastforce
  show "advances r (snd (read_strings r))"
    using count_op.op_advances [OF 1] string_op.read_list_advances [of r1 k]
    by (auto simp: read_strings_def 1 intro: advances_trans)
qed

lemmas opt_forward =
  opt_field_forward [OF uvarint_ucast_op] opt_field_forward [OF strings_op.reader_op_axioms]
  opt_field_forward [OF string_op.reader_op_axioms] opt_field_forward [OF present_op.reader_op_axioms]

locale type_decoder = decoder_op dt for dt :: "logical_type decoder" +
  fixes n :: nat
  assumes no_panic: "fst (dt r) \<noteq> Panic"
    and clean: "dt r = (Ok t, r') \<Longrightarrow> rerr r' = None"
    and depth: "dt r = (Ok t, r') \<Longrightarrow> type_depth t < n"
begin

lemma dt_advances: "dt r = (x, r') \<Longrightarrow> advances r r'"
  by (rule op_advances)

lemma dt_not_panic: "dt r \<noteq> (Panic, r')"
  using no_panic [of r] by auto

lemma field_decoder: "decoder_op (decodeStructField dt)"
proof
  fix r
  obtain name r1 where 1: "opt_field r 0 Reader_String [] = (name, r1)"
    by fastforce
  obtain here r2 where 2: "TryField r1 1 = (here, r2)"
    by fastforce
  have "advances r r2"
    using opt_field_forward [OF string_op.reader_op_axioms 1] try_op.op_advances [OF 2]
    by (rule advances_trans)
  moreover obtain x r3 where "dt r2 = (x, r3)" "advances r2 r3" "advances r2 (Reader_End r3)"
    using dt_advances End_advances advances_trans by (metis surj_pair)
  ultimately show "advances r (snd (decodeStructField dt r))"
    by (auto simp: decodeStructField_def 1 2 intro: advances_trans split: go.splits)
qed

lemma field_not_panic: "decodeStructField dt r \<noteq> (Panic, r')"
  by (auto simp: decodeStructField_def Let_def dt_not_panic split: prod.splits go.splits)

lemma field_depth: "decodeStructField dt r = (Ok (name, t), r') \<Longrightarrow> type_depth t < n"
  by (auto simp: decodeStructField_def Let_def dest: depth split: prod.splits go.splits if_splits)

lemma fields_not_panic: "read_list_go (decodeStructField dt) k r \<noteq> (Panic, r')"
  by (induction k arbitrary: r) (auto simp: field_not_panic split: prod.splits go.splits)

lemma fields_depth:
  "read_list_go (decodeStructField dt) k r = (Ok fs, r') \<Longrightarrow> (name, t) \<in> set fs \<Longrightarrow> type_depth t < n"
proof (induction k arbitrary: r fs)
  case 0
  then show ?case by simp
next
  case (Suc k)
  from Suc.prems(1) obtain f r1 fs' where
    f: "decodeStructField dt r = (Ok f, r1)" and
    rest: "read_list_go (decodeStructField dt) k r1 = (Ok fs', r')" and fs: "fs = f # fs'"
    by (auto split: prod.splits go.splits)
  then show ?case
    using Suc.IH [OF rest] Suc.prems(2) field_depth by auto
qed

lemma fields_forward: "read_list_go (decodeStructField dt) k r = (x, r') \<Longrightarrow> advances r r'"
  using decoder_op.read_list_go_advances [OF field_decoder, of r k] by simp

lemma infoKind_forward: "decodeInfoKind dt kind t r = (x, r') \<Longrightarrow> advances r r'"
  by (auto simp: decodeInfoKind_def Let_def advances_refl
      dest!: try_op.op_advances uvarint_op.op_advances count_op.op_advances opt_forward
        dt_advances fields_forward
      split: prod.splits go.splits if_splits; meson advances_trans)

lemma infoKind_not_panic: "decodeInfoKind dt kind t r \<noteq> (Panic, r')"
  by (auto simp: decodeInfoKind_def Let_def dt_not_panic fields_not_panic
      split: prod.splits go.splits if_splits)

lemma infoKind_depth:
  assumes "decodeInfoKind dt kind (scalar_type tid) r = (Ok t, r')"
  shows "type_depth t < Suc n"
  using assms
  by (auto simp: decodeInfoKind_def scalar_type_def Let_def type_depth_less
      dest: depth fields_depth split: prod.splits go.splits if_splits)

lemma typeInfo_forward: "decodeTypeInfo dt t r = (x, r') \<Longrightarrow> advances r r'"
  by (auto simp: decodeTypeInfo_def Let_def
      dest!: try_op.op_advances uvarint_op.op_advances opt_forward infoKind_forward
      split: prod.splits go.splits if_splits; meson advances_trans End_advances)

lemma typeInfo_not_panic: "decodeTypeInfo dt t r \<noteq> (Panic, r')"
  by (auto simp: decodeTypeInfo_def reader_result_def Let_def infoKind_not_panic
      split: prod.splits go.splits if_splits option.splits)

lemma typeInfo_depth: "decodeTypeInfo dt (scalar_type tid) r = (Ok t, r') \<Longrightarrow> type_depth t < Suc n"
  by (auto simp: decodeTypeInfo_def reader_result_def Let_def dest: infoKind_depth
      split: prod.splits go.splits if_splits option.splits)

end

text \<open>\<open>decodeType\<close> at every depth satisfies the contract, by descent on what is left of the depth.\<close>

lemma decodeType_decoder: "type_decoder (decodeType depth) (Suc maxTypeDepth - depth)"
proof (induction "Suc maxTypeDepth - depth" arbitrary: depth)
  case 0
  then have "decodeType depth r = (Err ErrTypeDepth, r)" for r
    by (subst decodeType.simps) simp
  then show ?case
    by unfold_locales (simp_all add: advances_refl)
next
  case (Suc k)
  then have k: "k = Suc maxTypeDepth - (depth + 1)" and le: "depth \<le> maxTypeDepth"
    by simp_all
  have rec: "type_decoder (decodeType (Suc depth)) k"
    using Suc.hyps(1) [OF k] k by simp
  note rules = type_decoder.typeInfo_forward [OF rec] type_decoder.typeInfo_not_panic [OF rec]
    type_decoder.typeInfo_depth [OF rec]
  show ?case
  proof
    fix r
    show "advances r (snd (decodeType depth r))"
      using le by (subst decodeType.simps)
        (auto simp: Let_def not_less
          dest!: try_op.op_advances uvarint_op.op_advances rules(1) opt_forward
          split: prod.splits go.splits if_splits; meson advances_trans End_advances)
    show "fst (decodeType depth r) \<noteq> Panic"
      using le by (subst decodeType.simps)
        (auto simp: Let_def reader_result_def rules(2) split: prod.splits go.splits option.splits)
    fix t r'
    assume dec: "decodeType depth r = (Ok t, r')"
    show "rerr r' = None"
      using dec le by (subst (asm) decodeType.simps)
        (auto simp: Let_def reader_result_def split: prod.splits go.splits if_splits option.splits)
    show "type_depth t < Suc maxTypeDepth - depth"
      using dec le Suc.hyps(2) by (subst (asm) decodeType.simps)
        (auto simp: Let_def reader_result_def dest!: rules(3)
          split: prod.splits go.splits if_splits option.splits)
  qed
qed

interpretation dt: type_decoder "decodeType depth" "Suc maxTypeDepth - depth" for depth
  by (rule decodeType_decoder)

end
