(* ===== verification/Write_Type.thy ===== *)
theory Write_Type
  imports Logical_Type
begin

text \<open>
  \<open>WriteType\<close> of \<^verbatim>\<open>src/codec/codectest/codectest.go\<close>, the encoder of type trees that the
  tests and the fake server use, and the proof that \<open>decodeType\<close> is its inverse.  The
  encoder dereferences \<open>t.Child\<close> without a check, so it returns \<open>None\<close> where the source
  panics on a nil child.
\<close>

function WriteType :: "writer \<Rightarrow> logical_type \<Rightarrow> writer option"
  and WriteFields :: "writer \<Rightarrow> (string \<times> logical_type) list \<Rightarrow> writer option" where
  "WriteType w (LogicalType tid wd sc ch fs en asz) =
     (let w = FieldUvarint w 100 (ucast tid) in
      if tid = TypeDecimal then
        (let w = Writer_Field w 101;
             w = Writer_Bool w True;
             w = FieldUvarint w 100 infoDecimal;
             w = (if wd \<noteq> 0 then FieldUvarint w 200 (ucast wd) else w);
             w = (if sc \<noteq> 0 then FieldUvarint w 201 (ucast sc) else w);
             w = Writer_End w
         in Some (Writer_End w))
      else if tid = TypeList \<or> tid = TypeMap then
        (let w = Writer_Field w 101;
             w = Writer_Bool w True;
             w = FieldUvarint w 100 infoList;
             w = Writer_Field w 200
         in case ch of None \<Rightarrow> None
            | Some c \<Rightarrow> (case WriteType w c of None \<Rightarrow> None | Some w \<Rightarrow> Some (Writer_End (Writer_End w))))
      else if tid = TypeStruct \<or> tid = TypeUnion \<or> tid = TypeVariant then
        (let w = Writer_Field w 101;
             w = Writer_Bool w True;
             w = FieldUvarint w 100 infoStruct;
             w = Writer_Field w 200;
             w = Writer_Uvarint w (word_of_nat (length fs))
         in case WriteFields w fs of None \<Rightarrow> None | Some w \<Rightarrow> Some (Writer_End (Writer_End w)))
      else if tid = TypeEnum then
        (let w = Writer_Field w 101;
             w = Writer_Bool w True;
             w = FieldUvarint w 100 infoEnum;
             w = FieldUvarint w 200 (word_of_nat (length en));
             w = Writer_Field w 201;
             w = Writer_Uvarint w (word_of_nat (length en));
             w = foldl Writer_String w en;
             w = Writer_End w
         in Some (Writer_End w))
      else if tid = TypeArray then
        (let w = Writer_Field w 101;
             w = Writer_Bool w True;
             w = FieldUvarint w 100 infoArray;
             w = Writer_Field w 200
         in case ch of None \<Rightarrow> None
            | Some c \<Rightarrow>
                (case WriteType w c of None \<Rightarrow> None
                 | Some w \<Rightarrow>
                     (let w = (if asz \<noteq> 0 then FieldUvarint w 201 (ucast asz) else w);
                          w = Writer_End w
                      in Some (Writer_End w))))
      else Some (Writer_End w))"
| "WriteFields w [] = Some w"
| "WriteFields w ((name, t) # fs) =
     (let w = FieldString w 0 name;
          w = Writer_Field w 1
      in case WriteType w t of None \<Rightarrow> None | Some w \<Rightarrow> WriteFields (Writer_End w) fs)"
  by pat_completeness auto
termination
  by (relation "measure (case_sum (\<lambda>(w, t). 2 * size t) (\<lambda>(w, fs). Suc (2 * size_list (size_prod (\<lambda>x. 0) size) fs)))")
     auto


section \<open>The types the encoder is meant for\<close>

text \<open>
  Each type carries the parameters its id calls for and no others, and every string and
  list is short enough to exist in Go.
\<close>

fun type_wf :: "logical_type \<Rightarrow> bool" where
  "type_wf (LogicalType tid wd sc ch fs en asz) =
     (if tid = TypeDecimal then ch = None \<and> fs = [] \<and> en = [] \<and> asz = 0
      else if tid = TypeList \<or> tid = TypeMap then
        wd = 0 \<and> sc = 0 \<and> fs = [] \<and> en = [] \<and> asz = 0 \<and> (case ch of None \<Rightarrow> False | Some c \<Rightarrow> type_wf c)
      else if tid = TypeStruct \<or> tid = TypeUnion \<or> tid = TypeVariant then
        wd = 0 \<and> sc = 0 \<and> ch = None \<and> en = [] \<and> asz = 0 \<and> go_len fs \<and>
        (\<forall>(name, t)\<in>set fs. go_len name \<and> type_wf t)
      else if tid = TypeEnum then
        wd = 0 \<and> sc = 0 \<and> ch = None \<and> fs = [] \<and> asz = 0 \<and> go_len en \<and> list_all go_len en
      else if tid = TypeArray then
        wd = 0 \<and> sc = 0 \<and> fs = [] \<and> en = [] \<and> (case ch of None \<Rightarrow> False | Some c \<Rightarrow> type_wf c)
      else wd = 0 \<and> sc = 0 \<and> ch = None \<and> fs = [] \<and> en = [] \<and> asz = 0)"

section \<open>Reading back\<close>

lemma read_list_go_rd:
  assumes "\<And>x pre ys. x \<in> set xs \<Longrightarrow> f (rd pre (enc x @ ys)) = (Ok x, rd (pre @ enc x) ys)"
  shows "read_list_go f (length xs) (rd pre (concat (map enc xs) @ ys))
    = (Ok xs, rd (pre @ concat (map enc xs)) ys)"
  using assms
proof (induction xs arbitrary: pre)
  case Nil
  then show ?case by simp
next
  case (Cons x xs)
  have "f (rd pre (enc x @ concat (map enc xs) @ ys)) = (Ok x, rd (pre @ enc x) (concat (map enc xs) @ ys))"
    by (rule Cons.prems) simp
  moreover have "read_list_go f (length xs) (rd (pre @ enc x) (concat (map enc xs) @ ys))
      = (Ok xs, rd ((pre @ enc x) @ concat (map enc xs)) ys)"
    by (rule Cons.IH) (simp add: Cons.prems)
  ultimately show ?case by simp
qed

lemma foldl_Writer_String: "foldl Writer_String w ss = w @ concat (map put_string ss)"
  by (induction ss arbitrary: w) (simp_all add: writer_appends)

lemma read_strings_rd [wire_simps]:
  assumes "go_len ss" and "list_all go_len ss"
  shows "read_strings (rd pre (put_uvarint (word_of_nat (length ss)) @ concat (map put_string ss) @ ys))
    = (ss, rd (pre @ put_uvarint (word_of_nat (length ss)) @ concat (map put_string ss)) ys)"
proof -
  have "length ss \<le> length (concat (map put_string ss) @ ys)"
    using length_concat_ge [of ss put_string] length_put_string by simp
  then show ?thesis
    using assms by (simp add: read_strings_def ListCount_rd string_codec.dec_enc_list go_len_def)
qed

text \<open>What it means that \<open>b\<close> encodes \<open>t\<close>: the writer appends it, the decoder returns \<open>t\<close>.\<close>

definition encodes_type :: "bytes \<Rightarrow> logical_type \<Rightarrow> bool" where
  "encodes_type b t \<longleftrightarrow>
     (\<forall>w. WriteType w t = Some (w @ b)) \<and> b \<noteq> [] \<and>
     (\<forall>depth pre ys. depth + type_depth t \<le> maxTypeDepth \<longrightarrow>
        decodeType depth (rd pre (b @ ys)) = (Ok t, rd (pre @ b) ys))"

lemma encodes_typeI:
  assumes "\<And>w. WriteType w t = Some (w @ b)" and "b \<noteq> []"
    and "\<And>depth pre ys. depth + type_depth t \<le> maxTypeDepth \<Longrightarrow>
      decodeType depth (rd pre (b @ ys)) = (Ok t, rd (pre @ b) ys)"
  shows "encodes_type b t"
  using assms by (simp add: encodes_type_def)

lemma reader_result_rd [simp]: "reader_result x (rd pre ys) = Ok x"
  by (simp add: reader_result_def)

definition type_head :: "type_id \<Rightarrow> bytes" where
  "type_head tid = le_put 2 (100 :: u16) @ put_uvarint (ucast tid)"

definition info_head :: "type_id \<Rightarrow> u64 \<Rightarrow> bytes" where
  "info_head tid kind =
     type_head tid @ le_put 2 (101 :: u16) @ put_bool True @ le_put 2 (100 :: u16) @ put_uvarint kind"

lemma type_head_nonempty [simp]: "type_head tid \<noteq> []"
  by (simp add: type_head_def)

lemma info_head_nonempty [simp]: "info_head tid kind \<noteq> []"
  by (simp add: info_head_def)

lemma decodeType_plain_rd:
  assumes "depth \<le> maxTypeDepth"
  shows "decodeType depth (rd pre (type_head tid @ le_put 2 EndID @ ys))
    = (Ok (scalar_type tid), rd (pre @ type_head tid @ le_put 2 EndID) ys)"
proof -
  have "EndID \<noteq> 101"
    by (simp add: EndID_def)
  then show ?thesis
    using assms by (subst decodeType.simps) (simp add: type_head_def wire_simps)
qed

text \<open>The next field id is neither the alias nor the extension info.\<close>

definition past_options :: "bytes \<Rightarrow> bool" where
  "past_options bs \<longleftrightarrow> (\<exists>f rest. bs = le_put 2 (f :: u16) @ rest \<and> f \<noteq> 101 \<and> f \<noteq> 103)"

lemma past_optionsI: "f \<noteq> 101 \<Longrightarrow> f \<noteq> 103 \<Longrightarrow> past_options (le_put 2 (f :: u16) @ rest)"
  by (auto simp: past_options_def)

lemma past_options_End: "past_options (le_put 2 EndID)"
  using past_optionsI [of EndID "[]"] by (simp add: EndID_def)

lemma decodeType_info_rd:
  assumes "depth \<le> maxTypeDepth"
    and options: "past_options (body @ le_put 2 EndID)"
    and kind: "\<And>pre ys. decodeInfoKind (decodeType (Suc depth)) kind (scalar_type tid)
        (rd pre (body @ le_put 2 EndID @ ys)) = (Ok t, rd (pre @ body) (le_put 2 EndID @ ys))"
  shows "decodeType depth (rd pre (info_head tid kind @ body @ le_put 2 EndID @ le_put 2 EndID @ ys))
    = (Ok t, rd (pre @ info_head tid kind @ body @ le_put 2 EndID @ le_put 2 EndID) ys)"
proof -
  from options obtain f rest where first: "body @ le_put 2 EndID = le_put 2 (f :: u16) @ rest" "f \<noteq> 101" "f \<noteq> 103"
    by (auto simp: past_options_def)
  have split: "body @ le_put 2 EndID @ zs = le_put 2 f @ rest @ zs" for zs
    using first(1) by (metis append_assoc)
  have "decodeTypeInfo (decodeType (Suc depth)) (scalar_type tid)
      (rd pre' (le_put 2 (100 :: u16) @ put_uvarint kind @ body @ le_put 2 EndID @ zs))
    = (Ok t, rd (pre' @ le_put 2 (100 :: u16) @ put_uvarint kind @ body @ le_put 2 EndID) zs)" for pre' zs
    using kind [of "pre' @ le_put 2 (100 :: u16) @ put_uvarint kind" zs] first(2,3)
    by (simp add: decodeTypeInfo_def wire_simps split)
  then show ?thesis
    using assms(1) by (subst decodeType.simps) (simp add: info_head_def type_head_def wire_simps)
qed

lemma type_depth_child: "type_depth (LogicalType tid wd sc (Some c) [] en asz) = Suc (type_depth c)"
  by (simp add: type_depth.simps)

lemma type_depth_field: "(name, t) \<in> set fs \<Longrightarrow> Suc (type_depth t) \<le> type_depth (LogicalType tid wd sc ch fs en asz)"
proof -
  assume "(name, t) \<in> set fs"
  moreover have "type_depth (LogicalType tid wd sc ch fs en asz)
      < Suc (type_depth (LogicalType tid wd sc ch fs en asz))"
    by simp
  ultimately show ?thesis
    by (fastforce simp only: type_depth_less Suc_le_eq)
qed

lemma encodes_scalar:
  assumes "type_wf t" and "tID t \<notin> {TypeDecimal, TypeList, TypeMap, TypeStruct, TypeUnion, TypeVariant, TypeEnum, TypeArray}"
  shows "encodes_type (type_head (tID t) @ le_put 2 EndID) t"
proof -
  from assms have t: "t = scalar_type (tID t)"
    by (cases t) (auto simp: scalar_type_def)
  have "WriteType w (scalar_type (tID t)) = Some (w @ type_head (tID t) @ le_put 2 EndID)" for w
    using assms(2) by (simp add: scalar_type_def writer_appends type_head_def)
  then have "encodes_type (type_head (tID t) @ le_put 2 EndID) (scalar_type (tID t))"
    by (intro encodes_typeI) (simp_all add: decodeType_plain_rd)
  with t show ?thesis by simp
qed

lemma encodes_decimal:
  assumes "type_wf t" and "tID t = TypeDecimal"
  shows "\<exists>b. encodes_type b t"
proof -
  obtain wd sc where t: "t = LogicalType TypeDecimal wd sc None [] [] 0"
    using assms by (cases t) auto
  define body where "body = (if wd \<noteq> 0 then le_put 2 (200 :: u16) @ put_uvarint (ucast wd) else [])
    @ (if sc \<noteq> 0 then le_put 2 (201 :: u16) @ put_uvarint (ucast sc) else [])"
  let ?b = "info_head TypeDecimal infoDecimal @ body @ le_put 2 EndID @ le_put 2 EndID"
  have first: "past_options (body @ le_put 2 EndID)"
    by (cases "wd = 0"; cases "sc = 0") (simp_all add: body_def past_optionsI past_options_End)
  have ids: "EndID \<noteq> 200" "EndID \<noteq> 201" "(201 :: u16) \<noteq> 200" "infoDecimal \<noteq> infoGeneric"
    by (simp_all add: EndID_def info_defs)
  have "decodeInfoKind dt infoDecimal (scalar_type TypeDecimal) (rd pre (body @ le_put 2 EndID @ ys))
      = (Ok t, rd (pre @ body) (le_put 2 EndID @ ys))" for dt pre ys
    using ids by (cases "wd = 0"; cases "sc = 0")
      (simp_all add: decodeInfoKind_def body_def wire_simps t scalar_type_def)
  then have "decodeType depth (rd pre (?b @ ys)) = (Ok t, rd (pre @ ?b) ys)"
    if "depth + type_depth t \<le> maxTypeDepth" for depth pre ys
    using that first decodeType_info_rd [of depth body infoDecimal TypeDecimal t pre ys] by simp
  moreover have "WriteType w t = Some (w @ ?b)" for w
    by (simp add: t writer_appends body_def info_head_def type_head_def)
  ultimately have "encodes_type ?b t"
    by (intro encodes_typeI) simp_all
  then show ?thesis ..
qed

lemma encodes_list:
  assumes "encodes_type cb c" and "tid = TypeList \<or> tid = TypeMap"
    and t: "t = LogicalType tid 0 0 (Some c) [] [] 0"
  shows "\<exists>b. encodes_type b t"
proof -
  let ?body = "le_put 2 (200 :: u16) @ cb"
  let ?b = "info_head tid infoList @ ?body @ le_put 2 EndID @ le_put 2 EndID"
  have kind: "decodeInfoKind (decodeType (Suc depth)) infoList (scalar_type tid)
        (rd pre (?body @ le_put 2 EndID @ ys)) = (Ok t, rd (pre @ ?body) (le_put 2 EndID @ ys))"
    if "depth + type_depth t \<le> maxTypeDepth" for depth pre ys
    using that assms(1)
    by (simp add: decodeInfoKind_def info_defs wire_simps t scalar_type_def encodes_type_def type_depth_child)
  have "decodeType depth (rd pre (?b @ ys)) = (Ok t, rd (pre @ ?b) ys)"
    if "depth + type_depth t \<le> maxTypeDepth" for depth pre ys
    using that decodeType_info_rd [of depth ?body infoList tid t pre ys] kind by (simp add: past_optionsI)
  moreover have "WriteType w t = Some (w @ ?b)" for w
    using assms(1,2)
    by (auto simp: t writer_appends info_head_def type_head_def encodes_type_def type_id_defs)
  ultimately have "encodes_type ?b t"
    by (intro encodes_typeI) simp_all
  then show ?thesis ..
qed

lemma encodes_array:
  assumes "encodes_type cb c" and t: "t = LogicalType TypeArray 0 0 (Some c) [] [] asz"
  shows "\<exists>b. encodes_type b t"
proof -
  let ?body = "le_put 2 (200 :: u16) @ cb @ (if asz \<noteq> 0 then le_put 2 (201 :: u16) @ put_uvarint (ucast asz) else [])"
  let ?b = "info_head TypeArray infoArray @ ?body @ le_put 2 EndID @ le_put 2 EndID"
  have "EndID \<noteq> 201"
    by (simp add: EndID_def)
  then have kind: "decodeInfoKind (decodeType (Suc depth)) infoArray (scalar_type TypeArray)
        (rd pre (?body @ le_put 2 EndID @ ys)) = (Ok t, rd (pre @ ?body) (le_put 2 EndID @ ys))"
    if "depth + type_depth t \<le> maxTypeDepth" for depth pre ys
    using that assms(1)
    by (simp add: decodeInfoKind_def info_defs wire_simps t scalar_type_def encodes_type_def type_depth_child)
  have "decodeType depth (rd pre (?b @ ys)) = (Ok t, rd (pre @ ?b) ys)"
    if "depth + type_depth t \<le> maxTypeDepth" for depth pre ys
    using that decodeType_info_rd [of depth ?body infoArray TypeArray t pre ys] kind by (simp add: past_optionsI)
  moreover have "WriteType w t = Some (w @ ?b)" for w
    using assms(1)
    by (auto simp: t writer_appends info_head_def type_head_def encodes_type_def type_id_defs)
  ultimately have "encodes_type ?b t"
    by (intro encodes_typeI) simp_all
  then show ?thesis ..
qed

lemma encodes_enum:
  assumes "type_wf t" and "tID t = TypeEnum"
  shows "\<exists>b. encodes_type b t"
proof -
  obtain en where t: "t = LogicalType TypeEnum 0 0 None [] en 0" and en: "go_len en" "list_all go_len en"
    using assms by (cases t) (auto simp: type_id_defs)
  let ?n = "put_uvarint (word_of_nat (length en))"
  let ?body = "le_put 2 (200 :: u16) @ ?n @ le_put 2 (201 :: u16) @ ?n @ concat (map put_string en)"
  let ?b = "info_head TypeEnum infoEnum @ ?body @ le_put 2 EndID @ le_put 2 EndID"
  have kind: "decodeInfoKind dt infoEnum (scalar_type TypeEnum)
        (rd pre (?body @ le_put 2 EndID @ ys)) = (Ok t, rd (pre @ ?body) (le_put 2 EndID @ ys))" for dt pre ys
    using en by (simp add: decodeInfoKind_def info_defs wire_simps t scalar_type_def)
  have "decodeType depth (rd pre (?b @ ys)) = (Ok t, rd (pre @ ?b) ys)"
    if "depth + type_depth t \<le> maxTypeDepth" for depth pre ys
    using that decodeType_info_rd [of depth ?body infoEnum TypeEnum t pre ys] kind by (simp add: past_optionsI)
  moreover have "WriteType w t = Some (w @ ?b)" for w
    by (simp add: t writer_appends info_head_def type_head_def foldl_Writer_String type_id_defs)
  ultimately have "encodes_type ?b t"
    by (intro encodes_typeI) simp_all
  then show ?thesis ..
qed

lemma encodes_struct:
  assumes fs: "\<And>name u. (name, u) \<in> set fs \<Longrightarrow> go_len name \<and> encodes_type (cb u) u" and len: "go_len fs"
    and tid: "tid = TypeStruct \<or> tid = TypeUnion \<or> tid = TypeVariant"
    and t: "t = LogicalType tid 0 0 None fs [] 0"
  shows "\<exists>b. encodes_type b t"
proof -
  define fe where "fe = (\<lambda>(name, u). le_put 2 (0 :: u16) @ put_string name @ le_put 2 (1 :: u16) @ cb u @ le_put 2 EndID)"
  let ?body = "le_put 2 (200 :: u16) @ put_uvarint (word_of_nat (length fs)) @ concat (map fe fs)"
  let ?b = "info_head tid infoStruct @ ?body @ le_put 2 EndID @ le_put 2 EndID"
  have field: "decodeStructField (decodeType (Suc depth)) (rd pre (fe x @ ys)) = (Ok x, rd (pre @ fe x) ys)"
    if "depth + type_depth t \<le> maxTypeDepth" "x \<in> set fs" for depth x pre ys
  proof -
    obtain name u where x: "x = (name, u)"
      by fastforce
    have "Suc depth + type_depth u \<le> maxTypeDepth"
      using that type_depth_field [of name u fs] by (simp add: x t) (metis add_Suc_right le_trans nat_add_left_cancel_le)
    then show ?thesis
      using fs that(2) by (auto simp: x fe_def decodeStructField_def wire_simps encodes_type_def)
  qed
  have "length fs \<le> length (concat (map fe fs))"
    using length_concat_ge [of fs fe] by (simp add: fe_def split_beta)
  then have kind: "decodeInfoKind (decodeType (Suc depth)) infoStruct (scalar_type tid)
        (rd pre (?body @ le_put 2 EndID @ ys)) = (Ok t, rd (pre @ ?body) (le_put 2 EndID @ ys))"
    if "depth + type_depth t \<le> maxTypeDepth" for depth pre ys
    using that len field
    by (simp add: decodeInfoKind_def info_defs wire_simps t scalar_type_def read_list_go_rd go_len_def)
  have "decodeType depth (rd pre (?b @ ys)) = (Ok t, rd (pre @ ?b) ys)"
    if "depth + type_depth t \<le> maxTypeDepth" for depth pre ys
    using that decodeType_info_rd [of depth ?body infoStruct tid t pre ys] kind by (simp add: past_optionsI)
  moreover have "WriteFields w gs = Some (w @ concat (map fe gs))" if "set gs \<subseteq> set fs" for w gs
    using that fs by (induction gs arbitrary: w) (auto simp: fe_def writer_appends encodes_type_def)
  then have "WriteType w t = Some (w @ ?b)" for w
    using tid by (auto simp: t writer_appends info_head_def type_head_def type_id_defs)
  ultimately have "encodes_type ?b t"
    by (intro encodes_typeI) simp_all
  then show ?thesis ..
qed

theorem type_encodable: "type_wf t \<Longrightarrow> \<exists>b. encodes_type b t"
proof (induction t)
  case (LogicalType tid wd sc ch fs en asz)
  let ?t = "LogicalType tid wd sc ch fs en asz"
  consider
      (decimal) "tid = TypeDecimal"
    | (list) "tid = TypeList \<or> tid = TypeMap"
    | (struct) "tid = TypeStruct \<or> tid = TypeUnion \<or> tid = TypeVariant"
    | (enum) "tid = TypeEnum"
    | (array) "tid = TypeArray"
    | (scalar) "tID ?t \<notin> {TypeDecimal, TypeList, TypeMap, TypeStruct, TypeUnion, TypeVariant, TypeEnum, TypeArray}"
    by auto
  then show ?case
  proof cases
    case decimal
    then show ?thesis using LogicalType.prems by (intro encodes_decimal) simp_all
  next
    case list
    then have not_dec: "tid \<noteq> TypeDecimal"
      by (auto simp: type_id_defs)
    with list LogicalType.prems obtain c where c: "ch = Some c" "type_wf c"
      and t: "?t = LogicalType tid 0 0 (Some c) [] [] 0"
      by (auto split: option.splits)
    then obtain cb where "encodes_type cb c"
      using LogicalType.IH(1) by auto
    then show ?thesis
      using list t by (rule encodes_list)
  next
    case struct
    then have "tid \<noteq> TypeDecimal" "tid \<noteq> TypeList" "tid \<noteq> TypeMap"
      by (auto simp: type_id_defs)
    with struct LogicalType.prems have
      fs: "\<And>name u. (name, u) \<in> set fs \<Longrightarrow> go_len name \<and> type_wf u" and len: "go_len fs"
      and t: "?t = LogicalType tid 0 0 None fs [] 0"
      by auto
    have "\<And>name u. (name, u) \<in> set fs \<Longrightarrow> go_len name \<and> encodes_type (SOME b. encodes_type b u) u"
      using fs LogicalType.IH(2) by (metis snds.intros snd_conv someI_ex)
    then show ?thesis
      using len struct t by (rule encodes_struct)
  next
    case enum
    then show ?thesis using LogicalType.prems by (intro encodes_enum) simp_all
  next
    case array
    then have "tid \<noteq> TypeDecimal" "tid \<noteq> TypeList" "tid \<noteq> TypeMap" "tid \<noteq> TypeStruct"
      "tid \<noteq> TypeUnion" "tid \<noteq> TypeVariant" "tid \<noteq> TypeEnum"
      by (auto simp: type_id_defs)
    with array LogicalType.prems obtain c where c: "ch = Some c" "type_wf c"
      and t: "?t = LogicalType TypeArray 0 0 (Some c) [] [] asz"
      by (auto split: option.splits)
    then obtain cb where "encodes_type cb c"
      using LogicalType.IH(1) by auto
    then show ?thesis
      using t by (rule encodes_array)
  next
    case scalar
    then show ?thesis using LogicalType.prems encodes_scalar by blast
  qed
qed

section \<open>Properties\<close>

text \<open>C5: whatever the bytes, decoding a type tree does not panic, and a tree it returns nests at most
  \<open>maxTypeDepth\<close> deep: hostile input cannot make the decoder recurse further.\<close>

theorem decodeType_bounded:
  "case fst (decodeType 0 r) of Ok t \<Rightarrow> type_depth t \<le> maxTypeDepth | Err e \<Rightarrow> True | Panic \<Rightarrow> False"
proof (cases "decodeType 0 r")
  case (Pair res r')
  then show ?thesis
    using dt.no_panic [of 0 r] dt.depth [of 0 r _ r'] by (auto split: go.splits simp: less_Suc_eq_le)
qed

text \<open>C4: \<open>decodeType\<close> reads back every type tree that \<open>WriteType\<close> can write (nested types, structs,
  enums, decimals, arrays), whatever follows it in the stream, and stops exactly behind it.\<close>

theorem decodeType_WriteType:
  assumes "type_wf t" and "type_depth t \<le> maxTypeDepth"
  shows "\<exists>b r. WriteType w t = Some (w @ b) \<and>
    decodeType 0 (NewReader (b @ ys)) = (Ok t, r) \<and> rerr r = None \<and> Rest r = ys"
proof -
  obtain b where b: "encodes_type b t"
    using type_encodable [OF assms(1)] by blast
  then have "decodeType 0 (NewReader (b @ ys)) = (Ok t, rd b ys)"
    using assms(2) by (simp add: encodes_type_def NewReader_rd)
  with b show ?thesis
    by (auto simp: encodes_type_def)
qed

theorem decodeType_WriteType_witness:
  "\<exists>b r. WriteType [] (LogicalType TypeStruct 0 0 None
        [(''a'', LogicalType TypeList 0 0 (Some (LogicalType TypeDecimal 18 3 None [] [] 0)) [] [] 0)] [] 0) = Some b \<and>
    decodeType 0 (NewReader (b @ [7])) = (Ok (LogicalType TypeStruct 0 0 None
        [(''a'', LogicalType TypeList 0 0 (Some (LogicalType TypeDecimal 18 3 None [] [] 0)) [] [] 0)] [] 0), r) \<and>
    Rest r = [7]"
proof -
  let ?t = "LogicalType TypeStruct 0 0 None
    [(''a'', LogicalType TypeList 0 0 (Some (LogicalType TypeDecimal 18 3 None [] [] 0)) [] [] 0)] [] 0"
  have "type_wf ?t" "type_depth ?t \<le> maxTypeDepth"
    by (simp_all add: type_id_defs go_len_def type_depth.simps maxTypeDepth_def)
  from decodeType_WriteType [OF this, of "[]" "[7]"] show ?thesis by auto
qed

text \<open>LIST and ARRAY types without a child type, at the top or below other lists.\<close>

fun childless :: "logical_type \<Rightarrow> bool" where
  "childless (LogicalType tid wd sc ch fs en asz) \<longleftrightarrow>
     (tid = TypeList \<or> tid = TypeArray) \<and> (case ch of None \<Rightarrow> True | Some c \<Rightarrow> childless c)"

lemma String_panics_iff: "LogicalType_String t = Panic \<longleftrightarrow> childless t"
proof (induction t)
  case (LogicalType tid wd sc ch fs en asz)
  have "TypeDecimal \<noteq> TypeList" "TypeDecimal \<noteq> TypeArray" by (simp_all add: type_id_defs)
  then show ?case
    using LogicalType.IH(1) by (cases ch) (auto simp: go_bind_eq_Panic split: option.split list.split logical_type.split)
qed



text \<open>C10: printing a type panics exactly if it is a LIST or ARRAY without a child type, or a LIST or ARRAY of
  such a type, and so on: the nil child is dereferenced.  The decoder lets such types in: at every
  depth it may reach, and whatever follows, a LIST or ARRAY id with no type info decodes without an
  error to the childless type.\<close>

theorem decoded_list_String_panics:
  assumes "tid = TypeList \<or> tid = TypeArray" and "depth \<le> maxTypeDepth"
  shows "(\<exists>r. decodeType depth (NewReader (type_head tid @ le_put 2 EndID @ ys)) = (Ok (scalar_type tid), r) \<and> rerr r = None \<and> Rest r = ys)
    \<and> LogicalType_String (scalar_type tid) = Panic
    \<and> (\<forall>t. LogicalType_String t = Panic \<longleftrightarrow> childless t)"
proof (intro conjI allI)
  have "decodeType depth (NewReader (type_head tid @ le_put 2 EndID @ ys)) = (Ok (scalar_type tid), rd (type_head tid @ le_put 2 EndID) ys)"
    unfolding NewReader_rd using decodeType_plain_rd [OF assms(2), of "[]" tid ys] by simp
  then show "\<exists>r. decodeType depth (NewReader (type_head tid @ le_put 2 EndID @ ys)) = (Ok (scalar_type tid), r) \<and> rerr r = None \<and> Rest r = ys"
    by simp
  show "LogicalType_String (scalar_type tid) = Panic"
    unfolding String_panics_iff using assms(1) by (simp add: scalar_type_def)
  show "LogicalType_String t = Panic \<longleftrightarrow> childless t" for t by (rule String_panics_iff)
qed

theorem decoded_list_String_panics_witness:
  "\<exists>r. decodeType 0 (NewReader [100, 0, 101, 255, 255, 7]) = (Ok (scalar_type TypeList), r) \<and> Rest r = [7]
    \<and> LogicalType_String (LogicalType TypeArray 0 0 (Some (scalar_type TypeList)) [] [] 3) = Panic"
proof -
  have b: "type_head TypeList @ le_put 2 EndID @ [7] = [100, 0, 101, 255, 255, 7]" by code_simp
  have "childless (LogicalType TypeArray 0 0 (Some (scalar_type TypeList)) [] [] 3)" by (simp add: scalar_type_def)
  then show ?thesis using decoded_list_String_panics [of TypeList 0 "[7]"] unfolding b by (auto simp del: LogicalType_String.simps)
qed

end
