(* ===== verification/Values.thy ===== *)
theory Values
  imports Logical_Type Complex_Main "HOL-Library.Signed_Division"
begin

text \<open>
  The value types of \<^verbatim>\<open>src/codec/values.go\<close> and their renderings.  \<open>value\<close> is Go's
  \<open>any\<close> restricted to what the decoder stores in it: one constructor per dynamic type,
  \<open>VNil\<close> for the nil interface.  Signed integers are words read with \<open>sint\<close>, floats are
  their bit patterns, a \<open>time.Time\<close> in UTC is its Unix second (an \<open>int64\<close>) and the
  nanoseconds within that second, \<open>*big.Int\<close> is \<open>int\<close>.

  Lemmas: a decimal's 128-bit halves represent its unscaled integer exactly, and the splits of
  timestamps and dates are exact; what the printed form of a decimal denotes is in \<open>Decimal_Text\<close>.
\<close>

section \<open>Decimals\<close>

record decimal =
  dWidth :: byte
  dScale :: byte
  dhi :: u64
  dlo :: u64

definition newDecimal :: "byte \<Rightarrow> byte \<Rightarrow> u64 \<Rightarrow> u64 \<Rightarrow> decimal" where
  "newDecimal width scale hi lo = \<lparr>dWidth = width, dScale = scale, dhi = hi, dlo = lo\<rparr>"

text \<open>\<open>(*big.Int).Uint64\<close>: the low 64 bits of the absolute value.\<close>

definition big_Uint64 :: "int \<Rightarrow> u64" where
  "big_Uint64 b = word_of_int \<bar>b\<bar>"

definition NewDecimal :: "byte \<Rightarrow> byte \<Rightarrow> int \<Rightarrow> decimal" where
  "NewDecimal width scale unscaled =
     (let b = (if unscaled < 0 then unscaled + 2 ^ 128 else unscaled);
          lo = big_Uint64 b;
          hi = big_Uint64 (b div 2 ^ 64)
      in newDecimal width scale hi lo)"

definition int128Big :: "u64 \<Rightarrow> u64 \<Rightarrow> int" where
  "int128Big hi lo = uint lo + sint hi * 2 ^ 64"

definition uint128Big :: "u64 \<Rightarrow> u64 \<Rightarrow> int" where
  "uint128Big hi lo = uint lo + uint hi * 2 ^ 64"

definition Decimal_BigInt :: "decimal \<Rightarrow> int" where
  "Decimal_BigInt d = int128Big (dhi d) (dlo d)"

definition Decimal_Rat :: "decimal \<Rightarrow> rat" where
  "Decimal_Rat d = of_int (Decimal_BigInt d) / 10 ^ unat (dScale d)"

text \<open>Left padding with zeros to a width, as \<open>%0*s\<close> and \<open>%0*d\<close> do.\<close>

definition pad0 :: "nat \<Rightarrow> string \<Rightarrow> string" where
  "pad0 w s = replicate (w - length s) CHR ''0'' @ s"

definition Decimal_String :: "decimal \<Rightarrow> string" where
  "Decimal_String d =
     (let v = Decimal_BigInt d;
          neg = (v < 0);
          s = nat_dec (nat \<bar>v\<bar>);
          scale = unat (dScale d);
          s = (if scale \<ge> length s then pad0 (scale + 1) s else s);
          s = (if scale > 0 then (let cut = length s - scale in take cut s @ ''.'' @ drop cut s) else s)
      in if neg then ''-'' @ s else s)"

section \<open>Clock values\<close>

text \<open>\<open>%0wd\<close> on a signed integer: the zeros go between the sign and the digits.\<close>

definition fmt_0d :: "nat \<Rightarrow> int \<Rightarrow> string" where
  "fmt_0d w i = (if i < 0 then ''-'' @ pad0 (w - 1) (nat_dec (nat (- i))) else pad0 w (nat_dec (nat i)))"

definition fracString :: "int \<Rightarrow> nat \<Rightarrow> string" where
  "fracString fr digits =
     (if fr = 0 then []
      else rev (dropWhile (\<lambda>c. c = CHR ''0'') (rev (''.'' @ fmt_0d digits fr))))"

text \<open>The clock part shared by the renderings: a count of \<open>unit\<close>s per second.\<close>

definition clock_string :: "int \<Rightarrow> nat \<Rightarrow> int \<Rightarrow> string" where
  "clock_string unit digits us =
     (let h = us sdiv (3600 * unit); us = us smod (3600 * unit);
          m = us sdiv (60 * unit); us = us smod (60 * unit);
          s = us sdiv unit; us = us smod unit
      in fmt_0d 2 h @ '':'' @ fmt_0d 2 m @ '':'' @ fmt_0d 2 s @ fracString us digits)"

definition Time_String :: "u64 \<Rightarrow> string" where
  "Time_String t = clock_string 1000000 6 (sint t)"

definition TimeNS_String :: "u64 \<Rightarrow> string" where
  "TimeNS_String t = clock_string 1000000000 9 (sint t)"

definition Time_Duration :: "u64 \<Rightarrow> u64" where
  "Time_Duration t = t * 1000"

definition TimeNS_Duration :: "u64 \<Rightarrow> u64" where
  "TimeNS_Duration t = t"

record time_tz =
  tzMicros :: u64
  tzOffset :: u32

definition TimeTZ_String :: "time_tz \<Rightarrow> string" where
  "TimeTZ_String t =
     (let s = Time_String (tzMicros t);
          neg = (sint (tzOffset t) < 0);
          off = sint (if neg then - tzOffset t else tzOffset t);
          s = s @ (if neg then ''-'' else ''+'') @ fmt_0d 2 (off sdiv 3600);
          mm = (off sdiv 60) smod 60;
          s = (if mm \<noteq> 0 then s @ '':'' @ fmt_0d 2 mm else s);
          ss = off smod 60
      in if ss \<noteq> 0 then s @ '':'' @ fmt_0d 2 ss else s)"

record interval =
  ivMonths :: u32
  ivDays :: u32
  ivMicros :: u64

definition interval_part :: "string \<Rightarrow> int \<Rightarrow> string \<Rightarrow> string" where
  "interval_part s v unit =
     (if v = 0 then s
      else (if s \<noteq> [] then s @ '' '' else s) @ int_dec v @ '' '' @ unit @ (if v \<noteq> 1 \<and> v \<noteq> -1 then ''s'' else []))"

definition Interval_String :: "interval \<Rightarrow> string" where
  "Interval_String iv =
     (let s = interval_part [] (sint (ivMonths iv) sdiv 12) ''year'';
          s = interval_part s (sint (ivMonths iv) smod 12) ''month'';
          s = interval_part s (sint (ivDays iv)) ''day''
      in if ivMicros iv = 0 then (if s = [] then ''00:00:00'' else s)
         else
           let s = (if s \<noteq> [] then s @ '' '' else s);
               neg = (sint (ivMicros iv) < 0);
               s = (if neg then s @ ''-'' else s);
               us = sint (if neg then - ivMicros iv else ivMicros iv)
           in s @ clock_string 1000000 6 us)"

section \<open>UUIDs\<close>

definition hexdig :: string where
  "hexdig = ''0123456789abcdef''"

text \<open>A UUID is a 16-byte array; \<open>i\<close> is the index of the next byte.\<close>

fun uuid_hex :: "nat \<Rightarrow> bytes \<Rightarrow> string" where
  "uuid_hex i [] = []"
| "uuid_hex i (b # bs) =
     (if i \<in> {4, 6, 8, 10} then ''-'' else []) @
     [hexdig ! unat (drop_bit 4 b), hexdig ! unat (b AND 0xf)] @ uuid_hex (i + 1) bs"

definition UUID_String :: "bytes \<Rightarrow> string" where
  "UUID_String u = uuid_hex 0 u"

section \<open>Times\<close>

record go_time =
  unix_sec :: u64
  unix_nsec :: int

text \<open>\<open>time.Unix\<close>, with Go's truncated division and the normalisation of the nanoseconds.\<close>

definition time_Unix :: "u64 \<Rightarrow> int \<Rightarrow> go_time" where
  "time_Unix sec nsec =
     (if nsec < 0 \<or> nsec \<ge> 1000000000 then
        (let n = nsec sdiv 1000000000;
             sec = sec + word_of_int n;
             nsec = nsec - n * 1000000000
         in if nsec < 0 then \<lparr>unix_sec = sec - 1, unix_nsec = nsec + 1000000000\<rparr>
            else \<lparr>unix_sec = sec, unix_nsec = nsec\<rparr>)
      else \<lparr>unix_sec = sec, unix_nsec = nsec\<rparr>)"

definition dateValue :: "u32 \<Rightarrow> go_time" where
  "dateValue days = time_Unix (word_of_int (sint days) * 86400) 0"

text \<open>
  \<open>time.UnixMilli\<close> and \<open>time.UnixMicro\<close> split the count the same way as the nanosecond
  case does: whole seconds and the rest scaled to nanoseconds.
\<close>

definition time_split :: "int \<Rightarrow> u64 \<Rightarrow> go_time" where
  "time_split per v =
     time_Unix (word_of_int (sint v sdiv per)) ((sint v smod per) * (1000000000 div per))"

definition timestampValue :: "type_id \<Rightarrow> u64 \<Rightarrow> go_time" where
  "timestampValue tid v =
     (if tid = TypeTimestampSec then time_Unix v 0
      else if tid = TypeTimestampMS then time_split 1000 v
      else if tid = TypeTimestampNS then time_split 1000000000 v
      else time_split 1000000 v)"

section \<open>Values\<close>

datatype val =
    VNil
  | VBool bool
  | VInt8 byte | VInt16 u16 | VInt32 u32 | VInt64 u64
  | VUint8 byte | VUint16 u16 | VUint32 u32 | VUint64 u64
  | VFloat32 u32 | VFloat64 u64
  | VString string
  | VBytes bytes
  | VBigInt int
  | VDecimal decimal
  | VTime u64 | VTimeNS u64 | VTimeTZ time_tz
  | VInterval interval
  | VUUID bytes
  | VGoTime go_time
  | VList "val list"
  | VStruct "(string \<times> val) list"
  | VMap "(val \<times> val) list"

definition Struct_Field :: "(string \<times> val) list \<Rightarrow> string \<Rightarrow> val option" where
  "Struct_Field s name = map_option snd (find (\<lambda>e. fst e = name) s)"

section \<open>128-bit halves\<close>

lemma sint_range64: "- (2 ^ 63) \<le> sint (w :: u64)" "sint w < 2 ^ 63"
  using sint_range_size [of w] by (simp_all add: word_size)

lemma uint_range64: "0 \<le> uint (w :: u64)" "uint w < 2 ^ 64"
  using unsigned_less [of w, where 'a = int] by simp_all

lemma sint_of_int64: "- (2 ^ 63) \<le> v \<Longrightarrow> v < 2 ^ 63 \<Longrightarrow> sint (word_of_int v :: u64) = v"
  by (simp add: sint_sbintrunc' signed_take_bit_int_eq_self)

lemma sint_or_wrap: "uint (w :: u64) = (if sint w < 0 then sint w + 2 ^ 64 else sint w)"
proof -
  have "uint w = sint w mod 2 ^ 64"
    using uint_sint [of w] by (simp add: take_bit_eq_mod)
  moreover have "sint w mod 2 ^ 64 = (sint w + 2 ^ 64) mod 2 ^ 64"
    by simp
  ultimately show ?thesis
    using sint_range64 [of w] by (cases "sint w < 0") (simp_all del: mod_add_self2)
qed

lemma int128_twos_complement:
  "(if int128Big hi lo < 0 then int128Big hi lo + 2 ^ 128 else int128Big hi lo) = uint128Big hi lo"
proof -
  have "sint hi < 0 \<Longrightarrow> sint hi * 2 ^ 64 \<le> (- 1) * 2 ^ 64"
    by (rule mult_right_mono) simp_all
  moreover have "\<not> sint hi < 0 \<Longrightarrow> 0 \<le> sint hi * 2 ^ 64"
    by simp
  ultimately have "int128Big hi lo < 0 \<longleftrightarrow> sint hi < 0"
    using uint_range64 [of lo] unfolding int128Big_def by linarith
  then show ?thesis
    using sint_or_wrap [of hi] by (auto simp: int128Big_def uint128Big_def)
qed

lemma big_Uint64_halves: "big_Uint64 (uint128Big hi lo div 2 ^ 64) = hi" "big_Uint64 (uint128Big hi lo) = lo"
proof -
  have "uint128Big hi lo div 2 ^ 64 = uint hi" "0 \<le> uint128Big hi lo" "uint128Big hi lo mod 2 ^ 64 = uint lo"
    using uint_range64 [of lo] uint_range64 [of hi] by (simp_all add: uint128Big_def)
  then show "big_Uint64 (uint128Big hi lo div 2 ^ 64) = hi" "big_Uint64 (uint128Big hi lo) = lo"
    by (simp_all add: big_Uint64_def word_uint_eq_iff uint_word_of_int)
qed

lemma int128_halves:
  assumes "- (2 ^ 127) \<le> v" "v < 2 ^ 127"
  obtains hi lo where "v = int128Big hi lo"
proof
  have "v div 2 ^ 64 < 2 ^ 63" "- (2 ^ 63) \<le> v div 2 ^ 64"
    using assms by simp_all
  then have "sint (word_of_int (v div 2 ^ 64) :: u64) = v div 2 ^ 64"
    by (simp add: sint_sbintrunc' signed_take_bit_int_eq_self)
  moreover have "uint (word_of_int (v mod 2 ^ 64) :: u64) = v mod 2 ^ 64"
    by (simp add: uint_word_of_int)
  ultimately show "v = int128Big (word_of_int (v div 2 ^ 64)) (word_of_int (v mod 2 ^ 64))"
    using mult_div_mod_eq [of "2 ^ 64" v] by (simp add: int128Big_def)
qed

lemma uint128_halves:
  assumes "0 \<le> v" "v < 2 ^ 128"
  obtains hi lo where "v = uint128Big hi lo"
proof
  have "v div 2 ^ 64 < 2 ^ 64" "0 \<le> v div 2 ^ 64"
    using assms by simp_all
  then have "uint (word_of_int (v div 2 ^ 64) :: u64) = v div 2 ^ 64"
    by (simp add: uint_word_of_int)
  moreover have "uint (word_of_int (v mod 2 ^ 64) :: u64) = v mod 2 ^ 64"
    by (simp add: uint_word_of_int)
  ultimately show "v = uint128Big (word_of_int (v div 2 ^ 64)) (word_of_int (v mod 2 ^ 64))"
    using mult_div_mod_eq [of "2 ^ 64" v] by (simp add: uint128Big_def)
qed

text \<open>\<open>NewDecimal\<close> and \<open>BigInt\<close> are inverse on the 128-bit integers.\<close>

lemma NewDecimal_BigInt: "NewDecimal (dWidth d) (dScale d) (Decimal_BigInt d) = d"
  unfolding NewDecimal_def Decimal_BigInt_def int128_twos_complement
  by (simp only: Let_def big_Uint64_halves newDecimal_def) simp

lemma Decimal_BigInt_New:
  assumes "- (2 ^ 127) \<le> v" "v < 2 ^ 127"
  shows "Decimal_BigInt (NewDecimal w sc v) = v"
proof -
  obtain hi lo where v: "v = int128Big hi lo"
    using int128_halves [OF assms] .
  have "NewDecimal w sc v = newDecimal w sc hi lo"
    unfolding NewDecimal_def v int128_twos_complement by (simp only: Let_def big_Uint64_halves)
  then show ?thesis
    by (simp add: Decimal_BigInt_def newDecimal_def v)
qed

text \<open>What is left of a 128-bit integer that fits in fewer bits.\<close>

lemma int128_mod:
  assumes "n \<le> 64"
  shows "int128Big hi lo mod 2 ^ n = uint lo mod 2 ^ n"
proof -
  have "(2 :: int) ^ 64 = 2 ^ (64 - n) * 2 ^ n"
    using assms by (simp only: power_add [symmetric] le_add_diff_inverse2)
  then have "int128Big hi lo = uint lo + (sint hi * 2 ^ (64 - n)) * 2 ^ n"
    by (simp only: int128Big_def mult.assoc)
  then show ?thesis
    by simp
qed

lemma int128_low: "lo = word_of_int (int128Big hi lo)"
  using int128_mod [of 64 hi lo] uint_range64 [of lo] by (simp only: word_uint_eq_iff uint_word_of_int) simp

lemma int128_narrow:
  assumes "- (2 ^ 63) \<le> int128Big hi lo" "int128Big hi lo < 2 ^ 63"
  shows "signed_drop_bit 63 lo = hi"
proof -
  let ?v = "int128Big hi lo"
  have lo: "sint lo = ?v"
    using sint_of_int64 [OF assms] int128_low [of lo hi] by metis
  have "sint hi * 2 ^ 64 = ?v - uint lo"
    by (simp add: int128Big_def)
  then have "sint hi = (if ?v < 0 then - 1 else 0)"
    using sint_or_wrap [of lo] lo by (auto split: if_splits)
  moreover have "?v div 2 ^ 63 = (if ?v < 0 then - 1 else 0)"
    using assms by (auto simp: div_pos_neg_trivial)
  ultimately have "sint (signed_drop_bit 63 lo) = sint hi"
    by (simp add: sint_signed_drop_bit_eq drop_bit_eq_div lo)
  then show ?thesis
    by (rule signed_word_eqI)
qed

lemma scast_narrow:
  assumes "LENGTH('a) \<le> 64" and "- (2 ^ (LENGTH('a) - 1)) \<le> int128Big hi lo" "int128Big hi lo < 2 ^ (LENGTH('a) - 1)"
  shows "scast (ucast lo :: 'a::len word) = lo"
proof -
  have "(ucast lo :: 'a word) = word_of_int (int128Big hi lo)"
    using int128_mod [OF assms(1), of hi lo]
    by (simp only: word_uint_eq_iff uint_word_of_int) (simp add: unsigned_ucast_eq take_bit_eq_mod)
  then have "sint (ucast lo :: 'a word) = int128Big hi lo"
    using assms(2,3) by (simp add: sint_sbintrunc' signed_take_bit_int_eq_self)
  then have "(scast (ucast lo :: 'a word) :: u64) = word_of_int (int128Big hi lo)"
    by (simp only: scast_eq)
  then show ?thesis
    using int128_low [of lo hi] by simp
qed

section \<open>Unix times\<close>

lemma sdiv_split:
  fixes s q per :: int
  assumes "0 < per" "0 \<le> q" "q < per"
  shows "(s * per + q) sdiv per = (if s * per + q < 0 \<and> q \<noteq> 0 then s + 1 else s)"
proof (cases "s * per + q < 0")
  case False
  then have "(s * per + q) sdiv per = (s * per + q) div per"
    using assms by (cases "s * per + q = 0") (simp_all only: signed_divide_int_def sgn_if not_less, simp_all)
  then show ?thesis
    using assms False by simp
next
  case True
  have "(s * per + q) sdiv per = - ((- s * per - q) div per)"
    using assms True by (simp add: signed_divide_int_def sgn_if)
  also have "- s * per - q = (if q = 0 then - s * per else (- s - 1) * per + (per - q))"
    by (simp add: algebra_simps)
  also have "\<dots> div per = (if q = 0 then - s else - s - 1)"
    using assms nonzero_mult_div_cancel_right [of per "- s"] by simp
  finally show ?thesis
    using True by simp
qed

lemma smod_split:
  fixes s q per :: int
  assumes "0 < per" "0 \<le> q" "q < per"
  shows "(s * per + q) smod per = (if s * per + q < 0 \<and> q \<noteq> 0 then q - per else q)"
  using minus_sdiv_mult_eq_smod [of "s * per + q" per] sdiv_split [OF assms, of s]
  by (auto simp: algebra_simps split: if_splits)

lemma time_split_count:
  fixes s :: u64 and n per :: int
  assumes per: "0 < per" "per * unit = 1000000000" and unit: "0 < unit"
    and q: "0 \<le> q" "q < per"
    and range: "- (2 ^ 63) \<le> sint s * per + q" "sint s * per + q < 2 ^ 63"
  shows "time_split per (s * word_of_int per + word_of_int q) = \<lparr>unix_sec = s, unix_nsec = q * unit\<rparr>"
proof -
  have "s * word_of_int per + word_of_int q = (word_of_int (sint s * per + q) :: u64)"
    by simp
  then have v: "sint (s * word_of_int per + word_of_int q) = sint s * per + q"
    using sint_of_int64 [OF range] by simp
  have u: "1000000000 div per = unit"
    using per by (metis less_irrefl nonzero_mult_div_cancel_left)
  have bound: "0 \<le> q * unit" "q * unit < 1000000000"
    using q unit per mult_strict_right_mono [of q per unit] by simp_all
  show ?thesis
  proof (cases "sint s * per + q < 0 \<and> q \<noteq> 0")
    case True
    have "(q - per) * unit = q * unit - 1000000000" "0 < q * unit"
      using per(2) True q unit by (simp_all add: algebra_simps)
    then show ?thesis
      using True bound unfolding time_split_def v u sdiv_split [OF per(1) q] smod_split [OF per(1) q]
      by (simp add: time_Unix_def Let_def signed_divide_int_def sgn_if)
  next
    case False
    then show ?thesis
      using bound unfolding time_split_def v u sdiv_split [OF per(1) q] smod_split [OF per(1) q]
      by (auto simp: time_Unix_def)
  qed
qed

lemma dateValue_days:
  assumes "sint (s :: u64) = d * 86400" "- (2 ^ 31) \<le> d" "d < 2 ^ 31"
  shows "dateValue (word_of_int (sint s sdiv 86400)) = \<lparr>unix_sec = s, unix_nsec = 0\<rparr>"
proof -
  have "sint s sdiv 86400 = d"
    using sdiv_split [of 86400 0 d] assms(1) by simp
  moreover have "sint (word_of_int d :: u32) = d"
    using assms(2,3) by (simp add: sint_sbintrunc' signed_take_bit_int_eq_self)
  moreover have "word_of_int d * 86400 = s"
  proof -
    have "word_of_int d * 86400 = (word_of_int (sint s) :: u64)"
      using assms(1) by (simp only: of_int_mult of_int_numeral)
    then show ?thesis by simp
  qed
  ultimately show ?thesis
    by (simp add: dateValue_def time_Unix_def)
qed

section \<open>Integers\<close>

text \<open>The integer a value stands for, if it is one.\<close>

definition int_of_val :: "val \<Rightarrow> int option" where
  "int_of_val v =
     (case v of
        VInt8 x \<Rightarrow> Some (sint x) | VInt16 x \<Rightarrow> Some (sint x) | VInt32 x \<Rightarrow> Some (sint x) | VInt64 x \<Rightarrow> Some (sint x)
      | VUint8 x \<Rightarrow> Some (uint x) | VUint16 x \<Rightarrow> Some (uint x) | VUint32 x \<Rightarrow> Some (uint x) | VUint64 x \<Rightarrow> Some (uint x)
      | VBigInt x \<Rightarrow> Some x
      | _ \<Rightarrow> None)"

end
