(* ===== verification/Chunk.thy ===== *)
theory Chunk
  imports Values
begin

text \<open>
  The vector and chunk decoder of \<^verbatim>\<open>src/codec/chunk.go\<close>.  \<open>decodeVector\<close> and
  \<open>decodeFlatVector\<close> are mutually recursive in the source; here \<open>decodeFlatVector\<close> and the
  definitions for its \<open>switch\<close> arms take the recursive call (\<open>decodeVector\<close> at \<open>depth+1\<close>)
  as an argument \<open>dv\<close>, and \<open>decodeVector\<close> ties the knot by descent on the depth.  Row counts
  are \<open>nat\<close>: the source keeps them at most \<open>maxVectorRows\<close>, so no product of them overflows
  an \<open>int\<close>.  An index or slice expression that could be out of range is \<open>go_index\<close> or
  \<open>go_slice\<close> and panics in the model when it would in Go.
\<close>

section \<open>Schema, columns, chunks\<close>

record schema_column =
  scName :: string
  scType :: logical_type

type_synonym schema = "schema_column list"

record column =
  colType :: logical_type
  colVals :: "val list"
  colErr :: "codec_error option"

record chunk =
  chRows :: nat
  chCols :: "column list"

definition RowCount :: "chunk \<Rightarrow> nat" where
  "RowCount c = chRows c"

definition ColumnCount :: "chunk \<Rightarrow> nat" where
  "ColumnCount c = length (chCols c)"

definition Chunk_Column :: "chunk \<Rightarrow> nat \<Rightarrow> (codec_error, column) go" where
  "Chunk_Column c i = go_index (chCols c) i"

definition Chunk_Value :: "chunk \<Rightarrow> int \<Rightarrow> int \<Rightarrow> (codec_error, val) go" where
  "Chunk_Value c col row =
     (if col < 0 \<or> col \<ge> int (length (chCols c)) \<or> row < 0 \<or> row \<ge> int (chRows c)
      then Err (ErrValueIndex col row)
      else go_bind (go_index (chCols c) (nat col)) (\<lambda>cl.
        case colErr cl of
          Some e \<Rightarrow> Err e
        | None \<Rightarrow> go_index (colVals cl) (nat row)))"

definition Column_Value :: "column \<Rightarrow> nat \<Rightarrow> (codec_error, val) go" where
  "Column_Value cl row = go_index (colVals cl) row"

section \<open>Limits and encodings\<close>

definition vecFlat :: u64 where
  "vecFlat = 0"

definition vecConstant :: u64 where
  "vecConstant = 2"

definition vecDictionary :: u64 where
  "vecDictionary = 3"

definition vecSequence :: u64 where
  "vecSequence = 4"

definition maxChunkRows :: nat where
  "maxChunkRows = 2 ^ 16"

definition maxVectorRows :: nat where
  "maxVectorRows = 2 ^ 24"

text \<open>For evaluation: compare with the limits in binary.\<close>

lemma maxVectorRows_code [code_unfold]: "maxVectorRows < n \<longleftrightarrow> 16777216 < int n"
proof -
  have "maxVectorRows < n \<longleftrightarrow> int maxVectorRows < int n"
    by (rule of_nat_less_iff [symmetric])
  then show ?thesis
    by (simp add: maxVectorRows_def)
qed

lemma maxChunkRows_code [code_unfold]: "maxChunkRows < n \<longleftrightarrow> 65536 < int n"
proof -
  have "maxChunkRows < n \<longleftrightarrow> int maxChunkRows < int n"
    by (rule of_nat_less_iff [symmetric])
  then show ?thesis
    by (simp add: maxChunkRows_def)
qed

lemmas vec_defs = vecFlat_def vecConstant_def vecDictionary_def vecSequence_def

section \<open>Cells\<close>

definition isUnsupported :: "codec_error \<Rightarrow> bool" where
  "isUnsupported e = (case e of ErrUnsupportedType t \<Rightarrow> True | _ \<Rightarrow> False)"

definition unsupportedButParsed :: "reader \<Rightarrow> logical_type \<Rightarrow> codec_error" where
  "unsupportedButParsed r t = (case rerr r of Some e \<Rightarrow> ErrReader e | None \<Rightarrow> ErrUnsupportedType t)"

text \<open>\<open>None\<close> is the nil mask.\<close>

definition valid :: "bytes option \<Rightarrow> nat \<Rightarrow> (codec_error, bool) go" where
  "valid validity row =
     (case validity of None \<Rightarrow> Ok True
      | Some bits \<Rightarrow> go_bind (go_index bits (row div 8)) (\<lambda>b. Ok (bit b (row mod 8))))"

definition physicalWidth :: "logical_type \<Rightarrow> nat" where
  "physicalWidth t =
     (let tid = tID t in
      if tid \<in> {TypeBoolean, TypeTinyint, TypeUTinyint} then 1
      else if tid \<in> {TypeSmallint, TypeUSmallint} then 2
      else if tid \<in> {TypeInteger, TypeUInteger, TypeFloat, TypeDate} then 4
      else if tid \<in> {TypeBigint, TypeUBigint, TypeDouble, TypeTime, TypeTimeTZ, TypeTimeNS,
        TypeTimestampSec, TypeTimestampMS, TypeTimestamp, TypeTimestampNS, TypeTimestampTZ} then 8
      else if tid \<in> {TypeInterval, TypeHugeint, TypeUHugeint, TypeUUID} then 16
      else if tid = TypeDecimal then
        (if tWidth t \<le> 4 then 2 else if tWidth t \<le> 9 then 4 else if tWidth t \<le> 18 then 8 else 16)
      else if tid = TypeEnum then enumIndexWidth (length (tEnum t))
      else 0)"

definition supportedScalar :: "logical_type \<Rightarrow> bool" where
  "supportedScalar t \<longleftrightarrow> tID t \<in>
     {TypeBoolean, TypeTinyint, TypeUTinyint, TypeSmallint, TypeUSmallint,
      TypeInteger, TypeUInteger, TypeBigint, TypeUBigint,
      TypeFloat, TypeDouble, TypeDecimal, TypeDate, TypeTime,
      TypeTimestampSec, TypeTimestampMS, TypeTimestamp, TypeTimestampNS, TypeTimestampTZ,
      TypeEnum, TypeHugeint, TypeUHugeint, TypeUUID, TypeInterval, TypeTimeTZ, TypeTimeNS}"

text \<open>\<open>binary.LittleEndian.UintN\<close> panics on a slice that is too short.\<close>

definition le_read :: "nat \<Rightarrow> bytes \<Rightarrow> (codec_error, 'a::len word) go" where
  "le_read n cell = (if n \<le> length cell then Ok (le_get (take n cell)) else Panic)"

definition timeTZMaxOffset :: u32 where
  "timeTZMaxOffset = 16 * 60 * 60 - 1"

text \<open>Sign extension to \<open>int64\<close>, and the arithmetic shift that repeats the sign.\<close>

definition decodeDecimalCell :: "logical_type \<Rightarrow> bytes \<Rightarrow> (codec_error, decimal) go" where
  "decodeDecimalCell t cell =
     (let dec = (\<lambda>v :: u64. Ok (newDecimal (tWidth t) (tScale t) (signed_drop_bit 63 v) v)) in
      if length cell = 2 then go_bind (le_read 2 cell) (\<lambda>w :: u16. dec (scast w))
      else if length cell = 4 then go_bind (le_read 4 cell) (\<lambda>w :: u32. dec (scast w))
      else if length cell = 8 then go_bind (le_read 8 cell) dec
      else go_bind (le_read 8 cell) (\<lambda>lo. go_bind (le_read 8 (drop 8 cell)) (\<lambda>hi.
        Ok (newDecimal (tWidth t) (tScale t) hi lo))))"

definition decodeEnumCell :: "logical_type \<Rightarrow> bytes \<Rightarrow> (codec_error, val) go" where
  "decodeEnumCell t cell =
     go_bind
       (if length cell = 1 then go_bind (go_index cell 0) (\<lambda>b. Ok (unat b))
        else if length cell = 2 then go_bind (le_read 2 cell) (\<lambda>w :: u16. Ok (unat w))
        else go_bind (le_read 4 cell) (\<lambda>w :: u32. Ok (unat w)))
       (\<lambda>idx. if idx \<ge> length (tEnum t) then Err (ErrEnumIndex idx (length (tEnum t)))
              else go_bind (go_index (tEnum t) idx) (\<lambda>s. Ok (VString s)))"

definition decodeCell :: "logical_type \<Rightarrow> bytes \<Rightarrow> (codec_error, val) go" where
  "decodeCell t cell =
     (let tid = tID t in
      if tid = TypeBoolean then go_bind (go_index cell 0) (\<lambda>b. Ok (VBool (b \<noteq> 0)))
      else if tid = TypeTinyint then go_bind (go_index cell 0) (\<lambda>b. Ok (VInt8 b))
      else if tid = TypeUTinyint then go_bind (go_index cell 0) (\<lambda>b. Ok (VUint8 b))
      else if tid = TypeSmallint then go_bind (le_read 2 cell) (\<lambda>w. Ok (VInt16 w))
      else if tid = TypeUSmallint then go_bind (le_read 2 cell) (\<lambda>w. Ok (VUint16 w))
      else if tid = TypeInteger then go_bind (le_read 4 cell) (\<lambda>w. Ok (VInt32 w))
      else if tid = TypeUInteger then go_bind (le_read 4 cell) (\<lambda>w. Ok (VUint32 w))
      else if tid = TypeBigint then go_bind (le_read 8 cell) (\<lambda>w. Ok (VInt64 w))
      else if tid = TypeUBigint then go_bind (le_read 8 cell) (\<lambda>w. Ok (VUint64 w))
      else if tid = TypeFloat then go_bind (le_read 4 cell) (\<lambda>w. Ok (VFloat32 w))
      else if tid = TypeDouble then go_bind (le_read 8 cell) (\<lambda>w. Ok (VFloat64 w))
      else if tid = TypeDate then go_bind (le_read 4 cell) (\<lambda>w. Ok (VGoTime (dateValue w)))
      else if tid = TypeTime then go_bind (le_read 8 cell) (\<lambda>w. Ok (VTime w))
      else if tid \<in> {TypeTimestampSec, TypeTimestampMS, TypeTimestamp, TypeTimestampNS, TypeTimestampTZ}
        then go_bind (le_read 8 cell) (\<lambda>w. Ok (VGoTime (timestampValue tid w)))
      else if tid = TypeDecimal then go_bind (decodeDecimalCell t cell) (\<lambda>d. Ok (VDecimal d))
      else if tid = TypeHugeint then
        go_bind (le_read 8 (drop 8 cell)) (\<lambda>hi. go_bind (le_read 8 cell) (\<lambda>lo. Ok (VBigInt (int128Big hi lo))))
      else if tid = TypeUHugeint then
        go_bind (le_read 8 (drop 8 cell)) (\<lambda>hi. go_bind (le_read 8 cell) (\<lambda>lo. Ok (VBigInt (uint128Big hi lo))))
      else if tid = TypeUUID then
        go_bind (le_read 8 (drop 8 cell)) (\<lambda>hi :: u64. go_bind (le_read 8 cell) (\<lambda>lo :: u64.
          Ok (VUUID (rev (le_put 8 (hi XOR push_bit 63 1)) @ rev (le_put 8 lo)))))
      else if tid = TypeInterval then
        go_bind (le_read 4 cell) (\<lambda>mo. go_bind (le_read 4 (drop 4 cell)) (\<lambda>dy. go_bind (le_read 8 (drop 8 cell)) (\<lambda>us.
          Ok (VInterval \<lparr>ivMonths = mo, ivDays = dy, ivMicros = us\<rparr>))))
      else if tid = TypeTimeTZ then
        go_bind (le_read 8 cell) (\<lambda>bits :: u64.
          Ok (VTimeTZ \<lparr>tzMicros = drop_bit 24 bits, tzOffset = timeTZMaxOffset - ucast (bits AND 0xFFFFFF)\<rparr>))
      else if tid = TypeTimeNS then go_bind (le_read 8 cell) (\<lambda>w. Ok (VTimeNS w))
      else if tid = TypeEnum then decodeEnumCell t cell
      else Err (ErrUnsupportedType t))"

definition sequenceValue :: "type_id \<Rightarrow> u64 \<Rightarrow> (codec_error, val) go" where
  "sequenceValue tid v =
     (if tid = TypeTinyint then Ok (VInt8 (ucast v))
      else if tid = TypeSmallint then Ok (VInt16 (ucast v))
      else if tid = TypeInteger then Ok (VInt32 (ucast v))
      else if tid = TypeBigint then Ok (VInt64 v)
      else if tid = TypeUTinyint then Ok (VUint8 (ucast v))
      else if tid = TypeUSmallint then Ok (VUint16 (ucast v))
      else if tid = TypeUInteger then Ok (VUint32 (ucast v))
      else if tid = TypeUBigint then Ok (VUint64 v)
      else Err (ErrSeqType tid))"

definition byte_bits_from :: "nat \<Rightarrow> byte \<Rightarrow> string" where
  "byte_bits_from start by' = map (\<lambda>k. if bit by' (7 - k) then CHR ''1'' else CHR ''0'') [start..<8]"

definition bitString :: "bytes \<Rightarrow> (codec_error, string) go" where
  "bitString b =
     (case b of
        [] \<Rightarrow> Err ErrBitNoPadding
      | p # data \<Rightarrow>
          let padding = unat p in
          if padding > 7 \<or> (data = [] \<and> padding \<noteq> 0) then Err (ErrBitPadding padding (length data))
          else (case data of
                  [] \<Rightarrow> Ok []
                | d # ds \<Rightarrow> Ok (byte_bits_from padding d @ concat (map (byte_bits_from 0) ds))))"

section \<open>Flat vectors\<close>

type_synonym vector_decoder = "logical_type \<Rightarrow> nat \<Rightarrow> val list decoder"

text \<open>One variable-width cell, already read.\<close>

definition string_cell :: "logical_type \<Rightarrow> bytes \<Rightarrow> (codec_error, val) go" where
  "string_cell t b =
     (if tID t = TypeVarchar then Ok (VString (go_string b))
      else if tID t = TypeBit then go_bind (bitString b) (\<lambda>s. Ok (VString s))
      else Ok (VBytes b))"

text \<open>The loop over the entries of a variable-width vector: rows \<open>i\<close> and up, \<open>n\<close> to go.\<close>

fun decodeStrings :: "logical_type \<Rightarrow> bool \<Rightarrow> bytes option \<Rightarrow> nat \<Rightarrow> nat \<Rightarrow> val list decoder" where
  "decodeStrings t unsupported validity i 0 r = (Ok [], r)"
| "decodeStrings t unsupported validity i (Suc n) r =
     (let (b, r) = Reader_Bytes r in
      case go_bind (valid validity i) (\<lambda>v. if \<not> v \<or> unsupported then Ok VNil else string_cell t b) of
        Ok v \<Rightarrow>
          (case decodeStrings t unsupported validity (i + 1) n r of
             (Ok vs, r) \<Rightarrow> (Ok (v # vs), r)
           | (Err e, r) \<Rightarrow> (Err e, r)
           | (Panic, r) \<Rightarrow> (Panic, r))
      | Err e \<Rightarrow> (Err e, r)
      | Panic \<Rightarrow> (Panic, r))"

definition decodeFlatStrings :: "logical_type \<Rightarrow> nat \<Rightarrow> bool \<Rightarrow> bytes option \<Rightarrow> val list decoder" where
  "decodeFlatStrings t count unsupported validity r =
     (let unsupported = (if tID t = TypeGeometry then True else unsupported);
          (here, r) = TryField r 102
      in if \<not> here then (Err (ErrVectorMissingData t), r)
         else
           let (n, r) = ListCount r in
           if n \<noteq> count then (Err (ErrEntryCount t n count), r)
           else (case decodeStrings t unsupported validity 0 count r of
                   (Ok vals, r) \<Rightarrow>
                     (if unsupported then Err (unsupportedButParsed r t) else reader_result vals r, r)
                 | (Err e, r) \<Rightarrow> (Err e, r)
                 | (Panic, r) \<Rightarrow> (Panic, r)))"

text \<open>
  The loop over the children of a struct vector; it returns the decoded children, an empty
  list in place of one that is unsupported, and whether there was such a child.
\<close>

fun decodeChildren ::
  "vector_decoder \<Rightarrow> nat \<Rightarrow> (string \<times> logical_type) list \<Rightarrow> (val list list \<times> bool) decoder" where
  "decodeChildren dv count [] r = (Ok ([], False), r)"
| "decodeChildren dv count ((name, t) # fs) r =
     (case dv t count r of
        (Panic, r) \<Rightarrow> (Panic, r)
      | (res, r) \<Rightarrow>
          (case (case res of Ok vals \<Rightarrow> Ok (vals, False)
                 | Err e \<Rightarrow> if isUnsupported e then Ok ([], True) else Err e
                 | Panic \<Rightarrow> Panic) of
             Ok (vals, u) \<Rightarrow>
               (let r = Reader_End r in
                case decodeChildren dv count fs r of
                  (Ok (children, us), r) \<Rightarrow> (Ok (vals # children, u \<or> us), r)
                | (Err e, r) \<Rightarrow> (Err e, r)
                | (Panic, r) \<Rightarrow> (Panic, r))
           | Err e \<Rightarrow> (Err e, r)
           | Panic \<Rightarrow> (Panic, r)))"

definition struct_row ::
  "(string \<times> logical_type) list \<Rightarrow> val list list \<Rightarrow> bytes option \<Rightarrow> nat \<Rightarrow> (codec_error, val) go" where
  "struct_row fds children validity row =
     go_bind (valid validity row) (\<lambda>v.
       if \<not> v then Ok VNil
       else go_bind
         (go_map (\<lambda>((name, t), child). go_bind (go_index child row) (\<lambda>x. Ok (name, x))) (zip fds children))
         (\<lambda>s. Ok (VStruct s)))"

definition decodeFlatStruct ::
  "vector_decoder \<Rightarrow> logical_type \<Rightarrow> nat \<Rightarrow> bool \<Rightarrow> bytes option \<Rightarrow> val list decoder" where
  "decodeFlatStruct dv t count unsupported validity r =
     (let (here, r) = TryField r 103 in
      if \<not> here then (Err (ErrMissingChildren t), r)
      else
        let (n, r) = ListCount r in
        if n \<noteq> length (tFields t) then (Err (ErrChildCount t n (length (tFields t))), r)
        else (case decodeChildren dv count (tFields t) r of
                (Ok (children, us), r) \<Rightarrow>
                  (if unsupported \<or> us \<or> tID t \<noteq> TypeStruct then (Err (unsupportedButParsed r t), r)
                   else (case go_map (struct_row (tFields t) children validity) [0..<count] of
                           Ok vals \<Rightarrow> (reader_result vals r, r)
                         | Err e \<Rightarrow> (Err e, r)
                         | Panic \<Rightarrow> (Panic, r)))
              | (Err e, r) \<Rightarrow> (Err e, r)
              | (Panic, r) \<Rightarrow> (Panic, r)))"

text \<open>One \<open>{offset, length}\<close> entry of a list vector.\<close>

definition read_list_entry :: "reader \<Rightarrow> (u64 \<times> u64) \<times> reader" where
  "read_list_entry r =
     (let (off, r) = opt_field r 100 Reader_Uvarint 0;
          (len, r) = opt_field r 101 Reader_Uvarint 0
      in ((off, len), Reader_End r))"

text \<open>A MAP row's element: a two-field struct is a pair, anything else the zero entry.\<close>

definition map_entry :: "val \<Rightarrow> val \<times> val" where
  "map_entry v = (case v of VStruct [(_, k), (_, x)] \<Rightarrow> (k, x) | _ \<Rightarrow> (VNil, VNil))"

definition list_row ::
  "logical_type \<Rightarrow> u64 \<Rightarrow> val list \<Rightarrow> bytes option \<Rightarrow> nat \<times> (u64 \<times> u64) \<Rightarrow> (codec_error, val) go" where
  "list_row t listSize childVals validity entry =
     (case entry of (i, off, len) \<Rightarrow>
       go_bind (valid validity i) (\<lambda>v.
         if \<not> v then Ok VNil
         else if len > listSize \<or> off > listSize - len then Err (ErrListEntry off (off + len) listSize)
         else if tID t = TypeMap then
           go_bind (go_map (\<lambda>j. go_index childVals (unat (off + word_of_nat j))) [0..<unat len])
             (\<lambda>xs. Ok (VMap (map map_entry xs)))
         else go_bind (go_slice childVals (unat off) (unat (off + len))) (\<lambda>xs. Ok (VList xs))))"

text \<open>
  What follows the child vector of a LIST, MAP or ARRAY: the child's \<open>End\<close>, the unsupported
  checks, then the rows.
\<close>

definition finish_nested ::
  "logical_type \<Rightarrow> bool \<Rightarrow> (val list \<Rightarrow> (codec_error, val list) go) \<Rightarrow>
   (codec_error, val list) go \<times> reader \<Rightarrow> (codec_error, val list) go \<times> reader" where
  "finish_nested t unsupported rows child =
     (case child of
        (Panic, r) \<Rightarrow> (Panic, r)
      | (Err e, r) \<Rightarrow>
          (if \<not> isUnsupported e then (Err e, r)
           else let r = Reader_End r in
             if unsupported then (Err (unsupportedButParsed r t), r)
             else (case rerr r of Some re \<Rightarrow> (Err (ErrReader re), r) | None \<Rightarrow> (Err e, r)))
      | (Ok childVals, r) \<Rightarrow>
          (let r = Reader_End r in
           if unsupported then (Err (unsupportedButParsed r t), r)
           else (case rows childVals of
                   Ok vals \<Rightarrow> (reader_result vals r, r)
                 | Err e \<Rightarrow> (Err e, r)
                 | Panic \<Rightarrow> (Panic, r))))"

definition decodeFlatList ::
  "vector_decoder \<Rightarrow> logical_type \<Rightarrow> nat \<Rightarrow> bool \<Rightarrow> bytes option \<Rightarrow> val list decoder" where
  "decodeFlatList dv t count unsupported validity r =
     (let (here, r) = TryField r 104 in
      if \<not> here then (Err ErrListMissingSize, r)
      else
        let (listSize, r) = Reader_Uvarint r in
        if unat listSize > maxVectorRows then (Err (ErrImplausibleListSize listSize), r)
        else
          let (here, r) = TryField r 105 in
          if \<not> here then (Err ErrListMissingEntries, r)
          else
            let (n, r) = ListCount r in
            if n \<noteq> count then (Err (ErrEntryCount t n count), r)
            else
              let (entries, r) = read_list read_list_entry n r;
                  (here, r) = TryField r 106
              in if \<not> here then (Err ErrListVectorMissingChild, r)
                 else (case tChild t of
                         None \<Rightarrow> (Err (ErrNoChildType t), r)
                       | Some c \<Rightarrow>
                           finish_nested t unsupported
                             (\<lambda>childVals. go_map (list_row t listSize childVals validity) (zip [0..<count] entries))
                             (dv c (unat listSize) r)))"

definition array_row :: "nat \<Rightarrow> val list \<Rightarrow> bytes option \<Rightarrow> nat \<Rightarrow> (codec_error, val) go" where
  "array_row sz childVals validity i =
     go_bind (valid validity i) (\<lambda>v.
       if \<not> v then Ok VNil
       else go_bind (go_slice childVals (i * sz) (length childVals)) (\<lambda>rest.
         Ok (VList (take sz rest @ replicate (sz - length rest) VNil))))"

definition decodeFlatArray ::
  "vector_decoder \<Rightarrow> logical_type \<Rightarrow> nat \<Rightarrow> bool \<Rightarrow> bytes option \<Rightarrow> val list decoder" where
  "decodeFlatArray dv t count unsupported validity r =
     (let (here, r) = TryField r 103 in
      if \<not> here then (Err ErrArrayMissingSize, r)
      else
        let (sz, r) = Reader_Uvarint r in
        if unat sz > maxVectorRows \<or> unat sz * count > maxVectorRows
        then (Err (ErrImplausibleArraySize sz), r)
        else
          let (here, r) = TryField r 104 in
          if \<not> here then (Err ErrArrayVectorMissingChild, r)
          else (case tChild t of
                  None \<Rightarrow> (Err (ErrNoChildType t), r)
                | Some c \<Rightarrow>
                    finish_nested t unsupported
                      (\<lambda>childVals. go_map (array_row (unat sz) childVals validity) [0..<count])
                      (dv c (unat sz * count) r)))"

definition scalar_row :: "logical_type \<Rightarrow> nat \<Rightarrow> bytes \<Rightarrow> bytes option \<Rightarrow> nat \<Rightarrow> (codec_error, val) go" where
  "scalar_row t w data validity i =
     go_bind (valid validity i) (\<lambda>v.
       if \<not> v then Ok VNil
       else go_bind (go_slice data (i * w) ((i + 1) * w)) (decodeCell t))"

definition decodeFlatScalar :: "logical_type \<Rightarrow> nat \<Rightarrow> bool \<Rightarrow> bytes option \<Rightarrow> val list decoder" where
  "decodeFlatScalar t count unsupported validity r =
     (let w = physicalWidth t in
      if w = 0 then
        (let (_, r) = opt_field r 102 Reader_Bytes [] in (Err (unsupportedButParsed r t), r))
      else
        let (here, r) = TryField r 102 in
        if \<not> here then (Err (ErrVectorMissingData t), r)
        else
          let (data, r) = Reader_Bytes r in
          if length data < count * w then (Err (ErrShortData t (length data) count), r)
          else if unsupported \<or> \<not> supportedScalar t then (Err (unsupportedButParsed r t), r)
          else (case go_map (scalar_row t w data validity) [0..<count] of
                  Ok vals \<Rightarrow> (reader_result vals r, r)
                | Err e \<Rightarrow> (Err e, r)
                | Panic \<Rightarrow> (Panic, r)))"

text \<open>The validity mask, read when the flag says there are NULLs.\<close>

definition decodeValidity :: "nat \<Rightarrow> bytes option decoder" where
  "decodeValidity count r =
     (let (hasNulls, r) = Reader_Bool r in
      if \<not> hasNulls then (Ok None, r)
      else
        let (here, r) = TryField r 101 in
        if \<not> here then (Err ErrMissingValidityMask, r)
        else
          let (bits, r) = Reader_Bytes r in
          if length bits < (count + 7) div 8 then (Err (ErrShortValidity (length bits) count), r)
          else (Ok (Some bits), r))"

definition decodeFlatVector :: "vector_decoder \<Rightarrow> logical_type \<Rightarrow> nat \<Rightarrow> val list decoder" where
  "decodeFlatVector dv t count r =
     (let (unsupported, r) = opt_field r 99 (\<lambda>r. let (_, r) = Reader_Uvarint r in (True, r)) False;
          (here, r) = TryField r 100
      in if \<not> here then (Err ErrMissingValidityFlag, r)
         else
           (case decodeValidity count r of
              (Ok validity, r) \<Rightarrow>
                (let tid = tID t in
                 if tid \<in> {TypeVarchar, TypeBlob, TypeBit, TypeGeometry}
                   then decodeFlatStrings t count unsupported validity r
                 else if tid \<in> {TypeStruct, TypeUnion, TypeVariant}
                   then decodeFlatStruct dv t count unsupported validity r
                 else if tid \<in> {TypeList, TypeMap}
                   then decodeFlatList dv t count unsupported validity r
                 else if tid = TypeArray
                   then decodeFlatArray dv t count unsupported validity r
                 else decodeFlatScalar t count unsupported validity r)
            | (Err e, r) \<Rightarrow> (Err e, r)
            | (Panic, r) \<Rightarrow> (Panic, r)))"

section \<open>Encoded vectors\<close>

definition decodeConstant :: "vector_decoder \<Rightarrow> logical_type \<Rightarrow> nat \<Rightarrow> val list decoder" where
  "decodeConstant dv t count r =
     (case dv t 1 r of
        (Ok (v # _), r) \<Rightarrow> (Ok (replicate count v), r)
      | (Ok [], r) \<Rightarrow> (Ok [], r)
      | (Err e, r) \<Rightarrow> (Err e, r)
      | (Panic, r) \<Rightarrow> (Panic, r))"

definition dict_row :: "bytes \<Rightarrow> val list \<Rightarrow> nat \<Rightarrow> (codec_error, val) go" where
  "dict_row sel dict i =
     go_bind (go_slice sel (i * 4) (length sel)) (\<lambda>rest.
       go_bind (le_read 4 rest) (\<lambda>idx :: u32.
         if idx \<ge> word_of_nat (length dict) then Err (ErrDictIndex idx (length dict))
         else go_index dict (unat idx)))"

definition decodeDictionary :: "vector_decoder \<Rightarrow> logical_type \<Rightarrow> nat \<Rightarrow> val list decoder" where
  "decodeDictionary dv t count r =
     (let (here, r) = TryField r 91 in
      if \<not> here then (Err ErrDictMissingSelection, r)
      else
        let (sel, r) = Reader_Bytes r in
        if length sel \<noteq> count * 4 then (Err (ErrDictSelectionSize (length sel) count), r)
        else
          let (here, r) = TryField r 92 in
          if \<not> here then (Err ErrDictMissingCount, r)
          else
            let (dictCount, r) = Reader_Uvarint r in
            if unat dictCount > maxChunkRows then (Err (ErrImplausibleDictSize dictCount), r)
            else (case dv t (unat dictCount) r of
                    (Ok dict, r) \<Rightarrow>
                      (case go_map (dict_row sel dict) [0..<count] of
                         Ok vals \<Rightarrow> (Ok vals, r)
                       | Err e \<Rightarrow> (Err e, r)
                       | Panic \<Rightarrow> (Panic, r))
                  | (Err e, r) \<Rightarrow> (Err e, r)
                  | (Panic, r) \<Rightarrow> (Panic, r)))"

definition decodeSequence :: "logical_type \<Rightarrow> nat \<Rightarrow> val list decoder" where
  "decodeSequence t count r =
     (let (here, r) = TryField r 91 in
      if \<not> here then (Err ErrSeqMissingStart, r)
      else
        let (start, r) = Reader_Svarint r;
            (here, r) = TryField r 92
        in if \<not> here then (Err ErrSeqMissingIncrement, r)
           else
             let (inc, r) = Reader_Svarint r in
             (case go_map (\<lambda>i. sequenceValue (tID t) (start + word_of_nat i * inc)) [0..<count] of
                Ok vals \<Rightarrow> (Ok vals, r)
              | Err e \<Rightarrow> (Err e, r)
              | Panic \<Rightarrow> (Panic, r)))"

function decodeVector :: "nat \<Rightarrow> vector_decoder" where
  "decodeVector depth t count r =
     (if depth > maxTypeDepth then (Err ErrVectorDepth, r)
      else if count > maxVectorRows then (Err (ErrImplausibleVectorRows count), r)
      else
        let (vtype, r) = opt_field r 90 Reader_Uvarint vecFlat in
        if vtype = vecFlat then decodeFlatVector (decodeVector (depth + 1)) t count r
        else if vtype = vecConstant then decodeConstant (decodeVector (depth + 1)) t count r
        else if vtype = vecDictionary then decodeDictionary (decodeVector (depth + 1)) t count r
        else if vtype = vecSequence then decodeSequence t count r
        else (Err (ErrVectorEncoding vtype), r))"
  by pat_completeness auto
termination
  by (relation "measure (\<lambda>(depth, t, count, r). Suc maxTypeDepth - depth)") auto

declare decodeVector.simps [simp del]

section \<open>Chunks\<close>

text \<open>One column of the chunk's column loop.\<close>

definition decodeColumn :: "nat \<Rightarrow> logical_type \<Rightarrow> column decoder" where
  "decodeColumn rows t r =
     (case decodeVector 0 t rows r of
        (Panic, r) \<Rightarrow> (Panic, r)
      | (res, r) \<Rightarrow>
          (case (case res of
                   Ok vals \<Rightarrow> Ok \<lparr>colType = t, colVals = vals, colErr = None\<rparr>
                 | Err e \<Rightarrow>
                     if isUnsupported e then Ok \<lparr>colType = t, colVals = [], colErr = Some e\<rparr>
                     else Err (ErrColumn t e)
                 | Panic \<Rightarrow> Panic) of
             Ok col \<Rightarrow>
               (let r = Reader_End r in
                case rerr r of Some e \<Rightarrow> (Err (ErrColumn t (ErrReader e)), r) | None \<Rightarrow> (Ok col, r))
           | Err e \<Rightarrow> (Err e, r)
           | Panic \<Rightarrow> (Panic, r)))"

fun decodeColumns :: "nat \<Rightarrow> logical_type list \<Rightarrow> column list decoder" where
  "decodeColumns rows [] r = (Ok [], r)"
| "decodeColumns rows (t # ts) r =
     (case decodeColumn rows t r of
        (Ok c, r) \<Rightarrow>
          (case decodeColumns rows ts r of
             (Ok cs, r) \<Rightarrow> (Ok (c # cs), r)
           | (Err e, r) \<Rightarrow> (Err e, r)
           | (Panic, r) \<Rightarrow> (Panic, r))
      | (Err e, r) \<Rightarrow> (Err e, r)
      | (Panic, r) \<Rightarrow> (Panic, r))"

definition decodeChunkContents :: "chunk decoder" where
  "decodeChunkContents r =
     (let (here, r) = TryField r 100 in
      if \<not> here then (Err ErrChunkMissingRowCount, r)
      else
        let (rows, r) = Reader_Uvarint r in
        if unat rows > maxChunkRows then (Err (ErrImplausibleRowCount rows), r)
        else
          let (here, r) = TryField r 101 in
          if \<not> here then (Err ErrChunkMissingTypes, r)
          else
            let (ntypes, r) = ListCount r in
            (case read_list_go (decodeType 0) ntypes r of
               (Ok types, r) \<Rightarrow>
                 (let (here, r) = TryField r 102 in
                  if \<not> here then (Err ErrChunkMissingColumns, r)
                  else
                    let (ncols, r) = ListCount r in
                    if ncols \<noteq> length types then (Err (ErrColumnCount ncols (length types)), r)
                    else (case decodeColumns (unat rows) types r of
                            (Ok cols, r) \<Rightarrow>
                              (let r = Reader_End r in
                               (reader_result \<lparr>chRows = unat rows, chCols = cols\<rparr> r, r))
                          | (Err e, r) \<Rightarrow> (Err e, r)
                          | (Panic, r) \<Rightarrow> (Panic, r)))
             | (Err e, r) \<Rightarrow> (Err e, r)
             | (Panic, r) \<Rightarrow> (Panic, r)))"

end
