(* ===== verification/Chunk_Contract.thy ===== *)
theory Chunk_Contract
  imports Chunk
begin

text \<open>
  What the vector decoder promises, whatever the input bytes: a decoded vector has exactly
  as many values as rows were asked for, each value has the dynamic type its logical type
  calls for, no index or slice is out of range, the reader only moves forward, and a column
  that is merely unsupported leaves the reader without an error, so that the columns after it
  still decode.  The promise is the locale \<open>vector_contract\<close>; the arms of
  \<open>decodeFlatVector\<close> and the encoded vectors are clients that keep it, and the
  interpretation shows it of \<open>decodeVector\<close> at every depth.
\<close>

section \<open>Typed values\<close>

definition scalar_typed :: "type_id \<Rightarrow> byte \<Rightarrow> byte \<Rightarrow> string list \<Rightarrow> val \<Rightarrow> bool" where
  "scalar_typed tid wd sc en v =
     (case v of
        VNil \<Rightarrow> True
      | VBool _ \<Rightarrow> tid = TypeBoolean
      | VInt8 _ \<Rightarrow> tid = TypeTinyint
      | VInt16 _ \<Rightarrow> tid = TypeSmallint
      | VInt32 _ \<Rightarrow> tid = TypeInteger
      | VInt64 _ \<Rightarrow> tid = TypeBigint
      | VUint8 _ \<Rightarrow> tid = TypeUTinyint
      | VUint16 _ \<Rightarrow> tid = TypeUSmallint
      | VUint32 _ \<Rightarrow> tid = TypeUInteger
      | VUint64 _ \<Rightarrow> tid = TypeUBigint
      | VFloat32 _ \<Rightarrow> tid = TypeFloat
      | VFloat64 _ \<Rightarrow> tid = TypeDouble
      | VString s \<Rightarrow> tid = TypeVarchar \<or> tid = TypeBit \<or> (tid = TypeEnum \<and> s \<in> set en)
      | VBytes _ \<Rightarrow> tid = TypeBlob
      | VBigInt i \<Rightarrow>
          (tid = TypeHugeint \<and> - (2 ^ 127) \<le> i \<and> i < 2 ^ 127) \<or> (tid = TypeUHugeint \<and> 0 \<le> i \<and> i < 2 ^ 128)
      | VDecimal d \<Rightarrow> tid = TypeDecimal \<and> dWidth d = wd \<and> dScale d = sc
      | VTime _ \<Rightarrow> tid = TypeTime
      | VTimeNS _ \<Rightarrow> tid = TypeTimeNS
      | VTimeTZ _ \<Rightarrow> tid = TypeTimeTZ
      | VInterval _ \<Rightarrow> tid = TypeInterval
      | VUUID u \<Rightarrow> tid = TypeUUID \<and> length u = 16
      | VGoTime ts \<Rightarrow>
          tid \<in> {TypeDate, TypeTimestampSec, TypeTimestampMS, TypeTimestamp, TypeTimestampNS, TypeTimestampTZ} \<and>
          0 \<le> unix_nsec ts \<and> unix_nsec ts < 1000000000
      | _ \<Rightarrow> False)"

text \<open>
  A MAP value's entries follow its child type when that is a two-field struct; an entry whose
  child row is NULL, or whose child type is anything else, is the zero entry.
\<close>

function val_typed :: "logical_type \<Rightarrow> val \<Rightarrow> bool" where
  "val_typed (LogicalType tid wd sc ch fs en asz) v =
     (case v of
        VList vs \<Rightarrow>
          (tid = TypeList \<or> tid = TypeArray) \<and>
          (case ch of None \<Rightarrow> False | Some c \<Rightarrow> list_all (val_typed c) vs)
      | VStruct es \<Rightarrow>
          tid = TypeStruct \<and> map fst es = map fst fs \<and>
          list_all (\<lambda>((_, t), (_, x)). val_typed t x) (zip fs es)
      | VMap kvs \<Rightarrow>
          tid = TypeMap \<and>
          (case ch of None \<Rightarrow> False
           | Some (LogicalType ctid cwd csc cch cfs cen casz) \<Rightarrow>
               list_all (\<lambda>(k, x). (k = VNil \<and> x = VNil) \<or>
                 (case cfs of [(_, kt), (_, vt)] \<Rightarrow> ctid = TypeStruct \<and> val_typed kt k \<and> val_typed vt x
                  | _ \<Rightarrow> False)) kvs)
      | _ \<Rightarrow> scalar_typed tid wd sc en v)"
  by pat_completeness auto
termination
proof (relation "measure (size \<circ> fst)", goal_cases)
  case (3 tid wd sc ch fs en asz v es p a b name t aa x)
  then have "(name, t) \<in> set fs"
    by (auto dest: set_zip_leftD)
  then have "size t < size_list (size_prod (\<lambda>x. 0) size) fs"
    by (induction fs) auto
  then show ?case by simp
qed auto

lemma val_typed_VNil [simp]: "val_typed t VNil"
  by (cases t) (simp add: scalar_typed_def)


declare val_typed.simps [simp del]

section \<open>The promise of one call\<close>

definition vec_post ::
  "logical_type \<Rightarrow> nat \<Rightarrow> reader \<Rightarrow> (codec_error, val list) go \<times> reader \<Rightarrow> bool" where
  "vec_post t count r res \<longleftrightarrow>
     advances r (snd res) \<and>
     (case fst res of
        Ok vals \<Rightarrow> length vals = count \<and> (\<forall>v\<in>set vals. val_typed t v)
      | Err e \<Rightarrow> isUnsupported e \<longrightarrow> rerr (snd res) = None
      | Panic \<Rightarrow> False)"

lemma isUnsupported_simps [simp]:
  "isUnsupported (ErrUnsupportedType t)"
  "\<not> isUnsupported (ErrReader e)" "\<not> isUnsupported ErrVectorDepth"
  "\<not> isUnsupported (ErrImplausibleVectorRows n)" "\<not> isUnsupported ErrDictMissingSelection"
  "\<not> isUnsupported (ErrDictSelectionSize n m)" "\<not> isUnsupported ErrDictMissingCount"
  "\<not> isUnsupported (ErrImplausibleDictSize w)" "\<not> isUnsupported (ErrDictIndex i n)"
  "\<not> isUnsupported ErrSeqMissingStart" "\<not> isUnsupported ErrSeqMissingIncrement"
  "\<not> isUnsupported (ErrSeqType tid)" "\<not> isUnsupported (ErrVectorEncoding w)"
  "\<not> isUnsupported ErrMissingValidityFlag" "\<not> isUnsupported ErrMissingValidityMask"
  "\<not> isUnsupported (ErrShortValidity n m)" "\<not> isUnsupported (ErrVectorMissingData t)"
  "\<not> isUnsupported (ErrEntryCount t n m)" "\<not> isUnsupported ErrBitNoPadding"
  "\<not> isUnsupported (ErrBitPadding n m)" "\<not> isUnsupported (ErrMissingChildren t)"
  "\<not> isUnsupported (ErrChildCount t n m)" "\<not> isUnsupported ErrListMissingSize"
  "\<not> isUnsupported (ErrImplausibleListSize w)" "\<not> isUnsupported ErrListMissingEntries"
  "\<not> isUnsupported ErrListVectorMissingChild" "\<not> isUnsupported (ErrNoChildType t)"
  "\<not> isUnsupported (ErrListEntry a b c)" "\<not> isUnsupported ErrArrayMissingSize"
  "\<not> isUnsupported (ErrImplausibleArraySize w)" "\<not> isUnsupported ErrArrayVectorMissingChild"
  "\<not> isUnsupported (ErrShortData t n m)" "\<not> isUnsupported (ErrEnumIndex n m)"
  by (simp_all add: isUnsupported_def)

lemma vec_post_Err [simp]:
  "vec_post t count r (Err e, r') \<longleftrightarrow> advances r r' \<and> (isUnsupported e \<longrightarrow> rerr r' = None)"
  by (simp add: vec_post_def)

lemma vec_post_Ok [simp]:
  "vec_post t count r (Ok vals, r') \<longleftrightarrow>
     advances r r' \<and> length vals = count \<and> (\<forall>v\<in>set vals. val_typed t v)"
  by (simp add: vec_post_def)

lemma vec_post_Panic [simp]: "\<not> vec_post t count r (Panic, r')"
  by (simp add: vec_post_def)

lemma unsupportedButParsed_clean: "isUnsupported (unsupportedButParsed r t) \<longleftrightarrow> rerr r = None"
  by (auto simp: unsupportedButParsed_def split: option.splits)

lemma vec_post_reader_result:
  "vec_post t count r (reader_result vals r', r') \<longleftrightarrow>
     advances r r' \<and> (rerr r' = None \<longrightarrow> length vals = count \<and> (\<forall>v\<in>set vals. val_typed t v))"
  by (auto simp: reader_result_def split: option.splits)

lemma vec_post_trans: "advances r r1 \<Longrightarrow> vec_post t count r1 res \<Longrightarrow> vec_post t count r res"
  by (auto simp: vec_post_def intro: advances_trans)

text \<open>The promise of one row: it does not panic, a value is typed, an error is a hard one.\<close>

definition row_post :: "logical_type \<Rightarrow> (codec_error, val) go \<Rightarrow> bool" where
  "row_post t res \<longleftrightarrow>
     (case res of Ok v \<Rightarrow> val_typed t v | Err e \<Rightarrow> \<not> isUnsupported e | Panic \<Rightarrow> False)"

lemma row_post_simps [simp]:
  "row_post t (Ok v) \<longleftrightarrow> val_typed t v"
  "row_post t (Err e) \<longleftrightarrow> \<not> isUnsupported e"
  "\<not> row_post t Panic"
  by (simp_all add: row_post_def)

lemma go_map_rows:
  assumes "\<And>x. x \<in> set xs \<Longrightarrow> row_post t (f x)"
  shows "go_map f xs \<noteq> Panic"
    and "go_map f xs = Err e \<Longrightarrow> \<not> isUnsupported e"
    and "go_map f xs = Ok vs \<Longrightarrow> v \<in> set vs \<Longrightarrow> val_typed t v"
proof -
  show "go_map f xs \<noteq> Panic"
    using assms by (intro go_map_not_panic) fastforce
  show "\<not> isUnsupported e" if "go_map f xs = Err e"
    using that assms
  proof (induction xs)
    case Nil
    then show ?case by simp
  next
    case (Cons x xs)
    have "row_post t (f x)"
      by (rule Cons.prems) simp
    then show ?case
      using Cons.IH Cons.prems by (cases "f x"; cases "go_map f xs") auto
  qed
  show "val_typed t v" if "go_map f xs = Ok vs" "v \<in> set vs"
    using go_map_in_set [OF that] assms by fastforce
qed

lemma rows_post:
  assumes "\<And>x. x \<in> set xs \<Longrightarrow> row_post t (f x)" and "length xs = count" and "advances r r'"
  shows "vec_post t count r (case go_map f xs of Ok vals \<Rightarrow> (reader_result vals r', r')
      | Err e \<Rightarrow> (Err e, r') | Panic \<Rightarrow> (Panic, r'))"
    and "vec_post t count r (case go_map f xs of Ok vals \<Rightarrow> (Ok vals, r')
      | Err e \<Rightarrow> (Err e, r') | Panic \<Rightarrow> (Panic, r'))"
  using go_map_rows [of xs t f] assms
  by (auto simp: vec_post_reader_result go_map_length split: go.splits)

section \<open>Validity masks\<close>

definition mask_covers :: "bytes option \<Rightarrow> nat \<Rightarrow> bool" where
  "mask_covers validity count \<longleftrightarrow> (\<forall>bits. validity = Some bits \<longrightarrow> (count + 7) div 8 \<le> length bits)"

lemma valid_covered: "mask_covers validity count \<Longrightarrow> i < count \<Longrightarrow> \<exists>b. valid validity i = Ok b"
proof -
  assume "mask_covers validity count" "i < count"
  moreover have "i div 8 < (count + 7) div 8"
    using \<open>i < count\<close> by simp
  ultimately show ?thesis
    by (auto simp: valid_def mask_covers_def split: option.splits)
qed

lemma decodeValidity_covers: "decodeValidity count r = (Ok validity, r') \<Longrightarrow> mask_covers validity count"
  by (auto simp: decodeValidity_def mask_covers_def Let_def split: prod.splits if_splits)

lemma decodeValidity_forward: "decodeValidity count r = (x, r') \<Longrightarrow> advances r r'"
  by (auto simp: decodeValidity_def Let_def dest!: op_advances split: prod.splits if_splits;
      meson advances_trans)

lemma decodeValidity_errors:
  "decodeValidity count r \<noteq> (Panic, r')"
  "decodeValidity count r = (Err e, r') \<Longrightarrow> \<not> isUnsupported e"
  by (auto simp: decodeValidity_def Let_def split: prod.splits if_splits)

lemma row_post_valid:
  assumes "mask_covers validity count" "i < count" "row_post t x"
  shows "row_post t (go_bind (valid validity i) (\<lambda>v. if \<not> v then Ok VNil else x))"
  using valid_covered [OF assms(1,2)] assms(3) by auto

section \<open>Scalar cells\<close>

lemma le_read_Ok [simp]: "n \<le> length cell \<Longrightarrow> le_read n cell = Ok (le_get (take n cell))"
  by (simp add: le_read_def)

lemma time_Unix_nsec: "0 \<le> unix_nsec (time_Unix s n)" "unix_nsec (time_Unix s n) < 1000000000"
proof -
  have "n - n sdiv 1000000000 * 1000000000 = n smod 1000000000"
    by (rule minus_sdiv_mult_eq_smod)
  moreover have "n smod 1000000000 < 1000000000" "- 1000000000 < n smod 1000000000"
    using smod_int_range [of 1000000000 n] by auto
  ultimately show "0 \<le> unix_nsec (time_Unix s n)" "unix_nsec (time_Unix s n) < 1000000000"
    by (auto simp: time_Unix_def Let_def)
qed

lemma timestampValue_nsec:
  "0 \<le> unix_nsec (timestampValue tid v)" "unix_nsec (timestampValue tid v) < 1000000000"
  by (simp_all add: timestampValue_def time_split_def time_Unix_nsec)

lemma dateValue_nsec: "0 \<le> unix_nsec (dateValue d)" "unix_nsec (dateValue d) < 1000000000"
  by (simp_all add: dateValue_def time_Unix_nsec)

lemma int128Big_range: "- (2 ^ 127) \<le> int128Big hi lo" "int128Big hi lo < 2 ^ 127"
proof -
  have halves: "0 \<le> uint lo" "uint lo < 2 ^ 64" "- (2 ^ 63) \<le> sint hi" "sint hi < 2 ^ 63"
    using unsigned_less [of lo, where 'a = int] sint_range_size [of hi] by (simp_all add: word_size)
  show "- (2 ^ 127) \<le> int128Big hi lo"
    unfolding int128Big_def by (rule add_increasing [OF halves(1)]) (use halves(3) in simp)
  show "int128Big hi lo < 2 ^ 127"
    using halves by (simp add: int128Big_def)
qed

lemma uint128Big_range: "0 \<le> uint128Big hi lo" "uint128Big hi lo < 2 ^ 128"
proof -
  have "0 \<le> uint lo" "uint lo < 2 ^ 64" "0 \<le> uint hi" "uint hi < 2 ^ 64"
    using unsigned_less [of lo, where 'a = int] unsigned_less [of hi, where 'a = int] by simp_all
  then show "0 \<le> uint128Big hi lo" "uint128Big hi lo < 2 ^ 128"
    by (simp_all add: uint128Big_def)
qed

lemma decodeDecimalCell_post:
  assumes "length cell \<in> {2, 4, 8, 16}"
  obtains d where "decodeDecimalCell t cell = Ok d" "dWidth d = tWidth t" "dScale d = tScale t"
  using assms by (auto simp: decodeDecimalCell_def newDecimal_def Let_def)

lemma decodeEnumCell_post:
  assumes "length cell \<in> {1, 2, 4}"
  shows "row_post (LogicalType TypeEnum wd sc ch fs en asz)
    (decodeEnumCell (LogicalType TypeEnum wd sc ch fs en asz) cell)"
  using assms by (auto simp: decodeEnumCell_def val_typed.simps scalar_typed_def)

lemma decodeCell_post:
  assumes "length cell = physicalWidth t" and "supportedScalar t"
  shows "row_post t (decodeCell t cell)"
proof -
  obtain tid wd sc ch fs en asz where t: "t = LogicalType tid wd sc ch fs en asz"
    by (cases t)
  note range = timestampValue_nsec dateValue_nsec int128Big_range uint128Big_range
  consider (decimal) "tid = TypeDecimal" | (enum) "tid = TypeEnum"
    | (other) "tid \<noteq> TypeDecimal" "tid \<noteq> TypeEnum" by auto
  then show ?thesis
  proof cases
    case decimal
    then obtain d where "decodeDecimalCell t cell = Ok d" "dWidth d = wd" "dScale d = sc"
      using assms(1) decodeDecimalCell_post [of cell t]
      by (auto simp: t physicalWidth_def type_id_defs split: if_splits)
    then show ?thesis
      using decimal by (simp add: decodeCell_def t val_typed.simps scalar_typed_def type_id_defs)
  next
    case enum
    then show ?thesis
      using assms(1) decodeEnumCell_post [of cell]
      by (auto simp: t decodeCell_def physicalWidth_def enumIndexWidth_def type_id_defs split: if_splits)
  next
    case other
    then show ?thesis
      using assms range
      by (auto simp: t supportedScalar_def physicalWidth_def decodeCell_def val_typed.simps
          scalar_typed_def type_id_defs)
  qed
qed


lemma scalar_row_post:
  assumes "mask_covers validity count" "i < count" "count * physicalWidth t \<le> length data" "supportedScalar t"
  shows "row_post t (scalar_row t (physicalWidth t) data validity i)"
proof -
  let ?w = "physicalWidth t"
  have "(i + 1) * ?w \<le> count * ?w"
    using assms(2) by (intro mult_right_mono) simp_all
  then have "(i + 1) * ?w \<le> length data"
    using assms(3) by simp
  then have "row_post t (go_bind (go_slice data (i * ?w) ((i + 1) * ?w)) (decodeCell t))"
    using assms(4) by (simp add: go_slice_def decodeCell_post)
  then show ?thesis
    using assms(1,2) by (simp add: scalar_row_def row_post_valid)
qed

lemma flatScalar_post:
  assumes "mask_covers validity count"
  shows "vec_post t count r (decodeFlatScalar t count unsupported validity r)"
proof (cases "physicalWidth t = 0")
  case True
  obtain x r1 where 1: "opt_field r 102 Reader_Bytes [] = (x, r1)"
    by fastforce
  then show ?thesis
    using True opt_field_forward [OF bytes_op.reader_op_axioms 1]
    by (simp add: decodeFlatScalar_def unsupportedButParsed_clean)
next
  case False
  obtain here r1 where 1: "TryField r 102 = (here, r1)"
    by fastforce
  obtain data r2 where 2: "Reader_Bytes r1 = (data, r2)"
    by fastforce
  have fwd: "advances r r1" "advances r r2"
    using try_op.op_advances [OF 1] bytes_op.op_advances [OF 2] advances_trans by blast+
  show ?thesis
  proof (cases "here \<and> count * physicalWidth t \<le> length data \<and> \<not> unsupported \<and> supportedScalar t")
    case True
    then have "row_post t (scalar_row t (physicalWidth t) data validity i)" if "i \<in> set [0..<count]" for i
      using that assms by (intro scalar_row_post) auto
    then have "vec_post t count r (case go_map (scalar_row t (physicalWidth t) data validity) [0..<count] of
        Ok vals \<Rightarrow> (reader_result vals r2, r2) | Err e \<Rightarrow> (Err e, r2) | Panic \<Rightarrow> (Panic, r2))"
      by (rule rows_post(1)) (simp_all add: fwd)
    then show ?thesis
      using True False by (simp add: decodeFlatScalar_def 1 2 Let_def)
  next
    case blocked: False
    then show ?thesis
      using False fwd by (auto simp: decodeFlatScalar_def 1 2 Let_def unsupportedButParsed_clean)
  qed
qed

section \<open>Variable-width vectors\<close>

lemma bitString_errors: "bitString b \<noteq> Panic" "bitString b = Err e \<Longrightarrow> \<not> isUnsupported e"
  by (auto simp: bitString_def Let_def split: list.splits if_splits)

lemma string_cell_post:
  assumes "tID t \<in> {TypeVarchar, TypeBlob, TypeBit}"
  shows "row_post t (string_cell t b)"
proof (cases "bitString b")
  case (Ok s)
  then show ?thesis
    using assms by (cases t) (auto simp: string_cell_def val_typed.simps scalar_typed_def)
next
  case (Err e)
  then show ?thesis
    using assms bitString_errors(2) [OF Err]
    by (cases t) (auto simp: string_cell_def val_typed.simps scalar_typed_def)
next
  case Panic
  then show ?thesis using bitString_errors(1) by simp
qed

lemma decodeStrings_post:
  assumes "mask_covers validity count" "i + n \<le> count"
    and "unsupported \<or> tID t \<in> {TypeVarchar, TypeBlob, TypeBit}"
  shows "vec_post t n r (decodeStrings t unsupported validity i n r)"
  using assms(2)
proof (induction n arbitrary: i r)
  case 0
  then show ?case by (simp add: advances_refl)
next
  case (Suc n)
  obtain b r1 where 1: "Reader_Bytes r = (b, r1)"
    by fastforce
  let ?cell = "go_bind (valid validity i) (\<lambda>v. if \<not> v \<or> unsupported then Ok VNil else string_cell t b)"
  have fwd: "advances r r1"
    using bytes_op.op_advances [OF 1] .
  have "row_post t ?cell"
    using valid_covered [OF assms(1), of i] Suc.prems assms(3) string_cell_post [of t b] by auto
  moreover have "vec_post t n r (decodeStrings t unsupported validity (i + 1) n r1)"
    using fwd Suc.IH [of "i + 1" r1] Suc.prems by (intro vec_post_trans [of r r1]) simp_all
  ultimately show ?case
    using fwd by (cases ?cell; cases "decodeStrings t unsupported validity (i + 1) n r1")
      (auto simp: 1 split: go.splits)
qed

lemma flatStrings_post:
  assumes "mask_covers validity count" and "tID t \<in> {TypeVarchar, TypeBlob, TypeBit, TypeGeometry}"
  shows "vec_post t count r (decodeFlatStrings t count unsupported validity r)"
proof -
  obtain here r1 where 1: "TryField r 102 = (here, r1)"
    by fastforce
  obtain n r2 where 2: "ListCount r1 = (n, r2)"
    by fastforce
  let ?u = "if tID t = TypeGeometry then True else unsupported"
  have fwd: "advances r r1" "advances r r2"
    using try_op.op_advances [OF 1] count_op.op_advances [OF 2] advances_trans by blast+
  have "vec_post t count r (decodeStrings t ?u validity 0 count r2)"
    using assms by (intro vec_post_trans [OF fwd(2)] decodeStrings_post [OF assms(1)]) auto
  then show ?thesis
    using fwd by (cases "decodeStrings t ?u validity 0 count r2")
      (auto simp: decodeFlatStrings_def 1 2 Let_def vec_post_reader_result unsupportedButParsed_clean
        split: go.splits)
qed


section \<open>Nested vectors\<close>

lemma end_forward: "advances r r1 \<Longrightarrow> advances r (Reader_End r1)"
  using advances_trans End_advances by blast

lemma finish_nested_post:
  assumes child: "vec_post c n r child"
    and rows: "\<And>vals. length vals = n \<Longrightarrow> \<forall>v\<in>set vals. val_typed c v \<Longrightarrow>
      \<exists>f (xs :: 'x list). rows vals = go_map f xs \<and> length xs = count \<and> (\<forall>x\<in>set xs. row_post t (f x))"
  shows "vec_post t count r (finish_nested t unsupported rows child)"
proof -
  obtain res r1 where c: "child = (res, r1)"
    by fastforce
  have fwd: "advances r r1" "advances r (Reader_End r1)"
    using child end_forward by (simp_all add: c vec_post_def)
  show ?thesis
  proof (cases res)
    case (Ok vals)
    with child have "length vals = n" "\<forall>v\<in>set vals. val_typed c v"
      by (simp_all add: c)
    then obtain f and xs :: "'x list" where f: "rows vals = go_map f xs" "length xs = count" "\<And>x. x \<in> set xs \<Longrightarrow> row_post t (f x)"
      using rows [of vals] by blast
    have "vec_post t count r (case rows vals of Ok vals \<Rightarrow> (reader_result vals (Reader_End r1), Reader_End r1)
        | Err e \<Rightarrow> (Err e, Reader_End r1) | Panic \<Rightarrow> (Panic, Reader_End r1))"
      unfolding f(1) by (rule rows_post(1)) (simp_all add: f fwd)
    then show ?thesis
      using fwd by (simp add: finish_nested_def c Ok Let_def unsupportedButParsed_clean)
  next
    case (Err e)
    then show ?thesis
      using child fwd
      by (auto simp: finish_nested_def c Let_def unsupportedButParsed_clean split: option.splits)
  next
    case Panic
    then show ?thesis using child by (simp add: c)
  qed
qed

lemma list_window:
  fixes off len listSize :: u64
  assumes "\<not> (len > listSize \<or> off > listSize - len)"
  shows "unat off + unat len \<le> unat listSize" and "unat (off + len) = unat off + unat len"
    and "j < unat len \<Longrightarrow> unat (off + word_of_nat j) = unat off + j"
proof -
  have len: "len \<le> listSize" and "off \<le> listSize - len"
    using assms by (simp_all add: not_less)
  then have "unat off \<le> unat listSize - unat len" "unat len \<le> unat listSize"
    using unat_sub [OF len] by (simp_all add: word_le_nat_alt)
  then show le: "unat off + unat len \<le> unat listSize"
    by simp
  have size: "unat listSize < 2 ^ 64"
    using unsigned_less [of listSize, where 'a = nat] by simp
  with le have sum: "unat off + unat len < 2 ^ 64"
    by simp
  then show "unat (off + len) = unat off + unat len"
    by (subst unat_add_lem [THEN iffD1]) simp_all
  assume "j < unat len"
  with sum have "unat (word_of_nat j :: u64) = j" "unat off + j < 2 ^ 64"
    by (simp_all add: unat_of_nat take_bit_nat_eq_self)
  then show "unat (off + word_of_nat j) = unat off + j"
    by (subst unat_add_lem [THEN iffD1]) simp_all
qed

lemma map_entry_typed:
  assumes "val_typed c x" and "tID t = TypeMap" "tChild t = Some c"
  shows "val_typed t (VMap [map_entry x])"
proof -
  obtain ctid cwd csc cch cfs cen casz where c: "c = LogicalType ctid cwd csc cch cfs cen casz"
    by (cases c)
  have entry: "map_entry x = (VNil, VNil) \<or> (\<exists>a k b v. x = VStruct [(a, k), (b, v)])"
    by (simp add: map_entry_def split: val.splits list.splits)
  show ?thesis
  proof (cases "map_entry x = (VNil, VNil)")
    case True
    then show ?thesis using assms(2,3) by (cases t) (simp add: val_typed.simps c)
  next
    case False
    then obtain a k b v where x: "x = VStruct [(a, k), (b, v)]"
      using entry by blast
    then obtain kt vt where "cfs = [(a, kt), (b, vt)]" "ctid = TypeStruct" "val_typed kt k" "val_typed vt v"
      using assms(1) by (auto simp: c val_typed.simps Cons_eq_map_conv)
    then show ?thesis
      using assms(2,3) by (cases t) (simp add: val_typed.simps c x map_entry_def)
  qed
qed

lemma VMap_typed_iff: "val_typed t (VMap kvs) \<longleftrightarrow> (val_typed t (VMap []) \<and> (\<forall>kv\<in>set kvs. val_typed t (VMap [kv])))"
proof -
  obtain tid wd sc ch fs en asz where t: "t = LogicalType tid wd sc ch fs en asz"
    by (cases t)
  show ?thesis
    by (cases ch) (auto simp: t val_typed.simps list_all_iff split: logical_type.splits)
qed

lemma VMap_Nil_typed: "val_typed t (VMap []) \<longleftrightarrow> tID t = TypeMap \<and> tChild t \<noteq> None"
  by (cases t) (auto simp: val_typed.simps split: option.splits logical_type.splits)

lemma VList_typed_iff:
  "val_typed t (VList vs) \<longleftrightarrow>
     (tID t = TypeList \<or> tID t = TypeArray) \<and> (\<exists>c. tChild t = Some c \<and> (\<forall>v\<in>set vs. val_typed c v))"
  by (cases t) (auto simp: val_typed.simps list_all_iff split: option.splits)

lemma list_row_post:
  assumes "mask_covers validity count" "i < count" and c: "tChild t = Some c" "tID t \<in> {TypeList, TypeMap}"
    and child: "length childVals = unat listSize" "\<forall>v\<in>set childVals. val_typed c v"
  shows "row_post t (list_row t listSize childVals validity (i, off, len))"
proof (cases "len > listSize \<or> off > listSize - len")
  case True
  then show ?thesis
    using valid_covered [OF assms(1,2)] by (auto simp: list_row_def)
next
  case False
  note window = list_window [OF False]
  have "row_post t (if tID t = TypeMap then
      go_bind (go_map (\<lambda>j. go_index childVals (unat (off + word_of_nat j))) [0..<unat len])
        (\<lambda>xs. Ok (VMap (map map_entry xs)))
    else go_bind (go_slice childVals (unat off) (unat (off + len))) (\<lambda>xs. Ok (VList xs)))"
  proof (cases "tID t = TypeMap")
    case True
    have "go_map (\<lambda>j. go_index childVals (unat (off + word_of_nat j))) [0..<unat len]
        = (Ok (map (\<lambda>j. childVals ! (unat off + j)) [0..<unat len]) :: (codec_error, val list) go)"
      using window child(1) by (intro go_map_Ok) simp
    moreover have "val_typed t (VMap (map map_entry (map (\<lambda>j. childVals ! (unat off + j)) [0..<unat len])))"
      using True c window(1) child map_entry_typed [of c _ t] VMap_Nil_typed [of t]
      by (subst VMap_typed_iff) auto
    ultimately show ?thesis
      using True by simp
  next
    case False
    then show ?thesis
      using c window child
      by (auto simp: go_slice_def VList_typed_iff dest: in_set_takeD in_set_dropD)
  qed
  then show ?thesis
    using assms(1,2) False by (simp add: list_row_def row_post_valid)
qed

lemma array_row_post:
  assumes "mask_covers validity count" "i < count" and c: "tChild t = Some c" "tID t = TypeArray"
    and child: "length childVals = sz * count" "\<forall>v\<in>set childVals. val_typed c v"
  shows "row_post t (array_row sz childVals validity i)"
proof -
  have "i * sz \<le> length childVals"
    using assms(2) child(1) by simp
  then have "row_post t (go_bind (go_slice childVals (i * sz) (length childVals)) (\<lambda>rest.
      Ok (VList (take sz rest @ replicate (sz - length rest) VNil))))"
    using c child(2) by (auto simp: go_slice_def VList_typed_iff dest: in_set_takeD in_set_dropD)
  then show ?thesis
    using assms(1,2) by (simp add: array_row_def row_post_valid)
qed

lemma VStruct_typed:
  assumes "tID t = TypeStruct" and "length es = length (tFields t)"
    and "\<And>i. i < length es \<Longrightarrow> fst (es ! i) = fst (tFields t ! i) \<and> val_typed (snd (tFields t ! i)) (snd (es ! i))"
  shows "val_typed t (VStruct es)"
proof -
  obtain tid wd sc ch fs en asz where t: "t = LogicalType tid wd sc ch fs en asz"
    by (cases t)
  have "map fst es = map fst fs"
    using assms(2,3) by (intro nth_equalityI) (auto simp: t)
  moreover have "list_all (\<lambda>((_, t), (_, x)). val_typed t x) (zip fs es)"
    using assms(2,3) by (auto simp: t list_all_length split: prod.splits) (metis snd_conv)
  ultimately show ?thesis
    using assms(1) by (simp add: t val_typed.simps)
qed

definition children_typed :: "nat \<Rightarrow> (string \<times> logical_type) list \<Rightarrow> val list list \<Rightarrow> bool" where
  "children_typed count fds children \<longleftrightarrow>
     list_all2 (\<lambda>(_, t) vals. length vals = count \<and> (\<forall>v\<in>set vals. val_typed t v)) fds children"

lemma struct_row_post:
  assumes "mask_covers validity count" "row < count"
    and t: "tID t = TypeStruct" and children: "children_typed count (tFields t) children"
  shows "row_post t (struct_row (tFields t) children validity row)"
proof -
  let ?cell = "\<lambda>((name, t), child). go_bind (go_index child row) (\<lambda>x. Ok (name, x))"
  let ?pick = "\<lambda>((name, t :: logical_type), child). (name :: string, child ! row)"
  have child: "length (snd x) = count" if "x \<in> set (zip (tFields t) children)" for x
    using that children by (auto simp: children_typed_def list_all2_iff)
  have cells: "go_map ?cell (zip (tFields t) children) = (Ok (map ?pick (zip (tFields t) children)) :: (codec_error, _) go)"
    using child assms(2) by (intro go_map_Ok) (auto split: prod.splits)
  have "val_typed t (VStruct (map ?pick (zip (tFields t) children)))"
    using t children assms(2)
    by (intro VStruct_typed) (auto simp: children_typed_def list_all2_conv_all_nth split: prod.splits)
  then have "row_post t (go_bind (go_map ?cell (zip (tFields t) children)) (\<lambda>s. Ok (VStruct s)))"
    by (simp add: cells)
  then show ?thesis
    unfolding struct_row_def by (rule row_post_valid [OF assms(1,2)])
qed

lemma read_list_length: "read_list f n r = (xs, r') \<Longrightarrow> length xs = n"
  by (induction n arbitrary: r xs) (auto split: prod.splits)

interpretation entry_op: reader_op read_list_entry
proof
  fix r
  obtain a r1 where 1: "opt_field r 100 Reader_Uvarint 0 = (a, r1)" by fastforce
  obtain b r2 where 2: "opt_field r1 101 Reader_Uvarint 0 = (b, r2)" by fastforce
  show "advances r (snd (read_list_entry r))"
    using opt_field_forward [OF uvarint_op.reader_op_axioms 1] opt_field_forward [OF uvarint_op.reader_op_axioms 2]
    by (simp add: read_list_entry_def 1 2) (meson advances_trans End_advances)
qed

section \<open>The contract of a vector decoder\<close>

locale vector_contract =
  fixes dv :: vector_decoder
  assumes post: "vec_post t count r (dv t count r)"
begin

lemma children_post:
  assumes "decodeChildren dv count fds r = (res, r')"
  shows "advances r r'"
    and "res \<noteq> Panic"
    and "res = Err e \<Longrightarrow> \<not> isUnsupported e"
    and "res = Ok (children, us) \<Longrightarrow> \<not> us \<Longrightarrow> children_typed count fds children"
proof -
  have "advances r r' \<and> (case res of
      Ok (children, us) \<Rightarrow> \<not> us \<longrightarrow> children_typed count fds children
    | Err e \<Rightarrow> \<not> isUnsupported e | Panic \<Rightarrow> False)"
    using assms
  proof (induction fds arbitrary: r r' res)
    case Nil
    then show ?case by (auto simp: children_typed_def advances_refl)
  next
    case (Cons f fds)
    obtain name t where f: "f = (name, t)"
      by fastforce
    obtain x r1 where 1: "dv t count r = (x, r1)"
      by fastforce
    obtain y r2 where 2: "decodeChildren dv count fds (Reader_End r1) = (y, r2)"
      by fastforce
    have x: "vec_post t count r (x, r1)"
      using post [of t count r] by (simp add: 1)
    have fwd: "advances r r1" "advances r (Reader_End r1)"
      using x end_forward by (simp_all add: vec_post_def)
    have fwd2: "advances r r2"
      using Cons.IH [OF 2] fwd(2) advances_trans by blast
    show ?case
      using Cons.prems Cons.IH [OF 2] x fwd fwd2
      by (auto simp: f 1 2 Let_def children_typed_def split: go.splits prod.splits if_splits)
  qed
  then show "advances r r'" "res \<noteq> Panic" "res = Err e \<Longrightarrow> \<not> isUnsupported e"
    "res = Ok (children, us) \<Longrightarrow> \<not> us \<Longrightarrow> children_typed count fds children"
    by auto
qed

lemma flatStruct_post:
  assumes "mask_covers validity count"
  shows "vec_post t count r (decodeFlatStruct dv t count unsupported validity r)"
proof -
  obtain here r1 where 1: "TryField r 103 = (here, r1)"
    by fastforce
  obtain n r2 where 2: "ListCount r1 = (n, r2)"
    by fastforce
  obtain res r3 where 3: "decodeChildren dv count (tFields t) r2 = (res, r3)"
    by fastforce
  have fwd: "advances r r1" "advances r r2" "advances r r3"
    using try_op.op_advances [OF 1] count_op.op_advances [OF 2] children_post(1) [OF 3] advances_trans
    by blast+
  note kids = children_post(2-4) [OF 3]
  have rows: "vec_post t count r (case go_map (struct_row (tFields t) children validity) [0..<count] of
      Ok vals \<Rightarrow> (reader_result vals r3, r3) | Err e \<Rightarrow> (Err e, r3) | Panic \<Rightarrow> (Panic, r3))"
    if "res = Ok (children, False)" "tID t = TypeStruct" for children
    using that kids(3) assms fwd(3) by (intro rows_post(1) struct_row_post) auto
  show ?thesis
    using fwd kids rows
    by (cases res) (auto simp: decodeFlatStruct_def 1 2 3 Let_def unsupportedButParsed_clean split: prod.splits)
qed

lemma entries_forward: "read_list read_list_entry n r = (xs, r') \<Longrightarrow> advances r r'"
  using reader_op.read_list_advances [OF entry_op.reader_op_axioms, of r n] by simp

lemma flatList_post:
  assumes "mask_covers validity count" and t: "tID t \<in> {TypeList, TypeMap}"
  shows "vec_post t count r (decodeFlatList dv t count unsupported validity r)"
proof -
  obtain here1 r1 where 1: "TryField r 104 = (here1, r1)" by fastforce
  obtain listSize r2 where 2: "Reader_Uvarint r1 = (listSize, r2)" by fastforce
  obtain here3 r3 where 3: "TryField r2 105 = (here3, r3)" by fastforce
  obtain n r4 where 4: "ListCount r3 = (n, r4)" by fastforce
  obtain entries r5 where 5: "read_list read_list_entry n r4 = (entries, r5)" by fastforce
  obtain here6 r6 where 6: "TryField r5 106 = (here6, r6)" by fastforce
  have fwd: "advances r r1" "advances r r2" "advances r r3" "advances r r4" "advances r r6"
    using op_advances(4) [OF 1] op_advances(1) [OF 2] op_advances(4) [OF 3] count_op.op_advances [OF 4]
      entries_forward [OF 5] op_advances(4) [OF 6] advances_trans by blast+
  have rows: "vec_post t count r (finish_nested t unsupported
      (\<lambda>childVals. go_map (list_row t listSize childVals validity) (zip [0..<count] entries))
      (dv c (unat listSize) r6))"
    if c: "tChild t = Some c" and n: "n = count" for c
  proof (rule finish_nested_post [OF vec_post_trans [OF fwd(5) post]], intro exI conjI ballI)
    fix vals x
    assume vals: "length vals = unat listSize" "\<forall>v\<in>set vals. val_typed c v" and "x \<in> set (zip [0..<count] entries)"
    then have "x = (fst x, fst (snd x), snd (snd x))" "fst x < count"
      by (auto simp: set_zip)
    then show "row_post t (list_row t listSize vals validity x)"
      using list_row_post [OF assms(1) _ c t vals] by metis
  qed (use n read_list_length [OF 5] in simp_all)
  show ?thesis
    using fwd rows 5 by (auto simp: decodeFlatList_def 1 2 3 4 6 Let_def split: option.splits)
qed

lemma flatArray_post:
  assumes "mask_covers validity count" and t: "tID t = TypeArray"
  shows "vec_post t count r (decodeFlatArray dv t count unsupported validity r)"
proof -
  obtain here1 r1 where 1: "TryField r 103 = (here1, r1)" by fastforce
  obtain sz r2 where 2: "Reader_Uvarint r1 = (sz, r2)" by fastforce
  obtain here3 r3 where 3: "TryField r2 104 = (here3, r3)" by fastforce
  have fwd: "advances r r1" "advances r r2" "advances r r3"
    using op_advances(4) [OF 1] op_advances(1) [OF 2] op_advances(4) [OF 3] advances_trans by blast+
  have rows: "vec_post t count r (finish_nested t unsupported
      (\<lambda>childVals. go_map (array_row (unat sz) childVals validity) [0..<count]) (dv c (unat sz * count) r3))"
    if c: "tChild t = Some c" for c
  proof (rule finish_nested_post [OF vec_post_trans [OF fwd(3) post]], intro exI conjI ballI)
    fix vals i
    assume "length vals = unat sz * count" "\<forall>v\<in>set vals. val_typed c v" "i \<in> set [0..<count]"
    then show "row_post t (array_row (unat sz) vals validity i)"
      by (intro array_row_post [OF assms(1) _ c t]) simp_all
  qed simp_all
  show ?thesis
    using fwd rows by (auto simp: decodeFlatArray_def 1 2 3 Let_def split: option.splits)
qed

lemma flatVector_post: "vec_post t count r (decodeFlatVector dv t count r)"
proof -
  obtain unsupported r1 where
    1: "opt_field r 99 (\<lambda>r. let (_, r) = Reader_Uvarint r in (True, r)) False = (unsupported, r1)" by fastforce
  obtain here r2 where 2: "TryField r1 100 = (here, r2)" by fastforce
  obtain res r3 where 3: "decodeValidity count r2 = (res, r3)" by fastforce
  have "reader_op (\<lambda>r. let (_, r) = Reader_Uvarint r in (True, r))"
    using uvarint_op.forward by unfold_locales (simp add: split_beta)
  from opt_field_forward [OF this 1] have fwd: "advances r r2" "advances r r3"
    using op_advances(4) [OF 2] decodeValidity_forward [OF 3] advances_trans by blast+
  have arms: "vec_post t count r (decodeFlatVector dv t count r)" if "here" "res = Ok validity" for validity
  proof -
    note covers = decodeValidity_covers [OF 3 [unfolded that(2)]]
    note arm_posts = flatStrings_post [OF covers] flatStruct_post [OF covers] flatList_post [OF covers]
      flatArray_post [OF covers] flatScalar_post [OF covers]
    show ?thesis
      using that arm_posts(1-4) [of t] by (simp add: decodeFlatVector_def 1 [unfolded Let_def] 2 3 Let_def
          vec_post_trans [OF fwd(2)] arm_posts del: insert_iff)
  qed
  show ?thesis
  proof (cases "here \<and> (\<exists>validity. res = Ok validity)")
    case False
    then show ?thesis
      using fwd decodeValidity_errors [of count r2] 3
      by (cases res) (auto simp: decodeFlatVector_def 1 [unfolded Let_def] 2 Let_def)
  qed (use arms in blast)
qed

lemma constant_post: "vec_post t count r (decodeConstant dv t count r)"
proof -
  obtain res r1 where 1: "dv t 1 r = (res, r1)"
    by fastforce
  then show ?thesis
    using post [of t 1 r] by (auto simp: decodeConstant_def split: go.splits list.splits)
qed

lemma dict_row_post:
  assumes "length sel = count * 4" "i < count" "length dict \<le> maxChunkRows" "\<forall>v\<in>set dict. val_typed t v"
  shows "row_post t (dict_row sel dict i)"
proof -
  have "4 \<le> length (drop (i * 4) sel)" "i * 4 \<le> length sel"
    using assms(1,2) by simp_all
  moreover have "unat (word_of_nat (length dict) :: u32) = length dict"
    using assms(3) by (simp add: maxChunkRows_def unat_of_nat)
  ultimately show ?thesis
    using assms(4) by (auto simp: dict_row_def go_slice_def word_le_nat_alt)
qed

lemma dictionary_post: "vec_post t count r (decodeDictionary dv t count r)"
proof -
  obtain here1 r1 where 1: "TryField r 91 = (here1, r1)" by fastforce
  obtain sel r2 where 2: "Reader_Bytes r1 = (sel, r2)" by fastforce
  obtain here3 r3 where 3: "TryField r2 92 = (here3, r3)" by fastforce
  obtain dictCount r4 where 4: "Reader_Uvarint r3 = (dictCount, r4)" by fastforce
  obtain res r5 where 5: "dv t (unat dictCount) r4 = (res, r5)" by fastforce
  have fwd: "advances r r1" "advances r r2" "advances r r3" "advances r r4"
    using op_advances(4) [OF 1] bytes_op.op_advances [OF 2] op_advances(4) [OF 3] op_advances(1) [OF 4] advances_trans
    by blast+
  have dict: "vec_post t (unat dictCount) r (res, r5)"
    using vec_post_trans [OF fwd(4) post] 5 by metis
  have rows: "vec_post t count r (case go_map (dict_row sel dict) [0..<count] of
      Ok vals \<Rightarrow> (Ok vals, r5) | Err e \<Rightarrow> (Err e, r5) | Panic \<Rightarrow> (Panic, r5))"
    if "res = Ok dict" "length sel = count * 4" "unat dictCount \<le> maxChunkRows" for dict
    using that dict by (intro rows_post(2) dict_row_post) simp_all
  show ?thesis
    using fwd dict rows by (cases res) (simp_all add: decodeDictionary_def 1 2 3 4 5 Let_def)
qed

end

lemma sequenceValue_post: "row_post t (sequenceValue (tID t) v)"
  by (cases t) (simp add: sequenceValue_def val_typed.simps scalar_typed_def)

lemma sequence_post: "vec_post t count r (decodeSequence t count r)"
proof -
  obtain here1 r1 where 1: "TryField r 91 = (here1, r1)" by fastforce
  obtain start r2 where 2: "Reader_Svarint r1 = (start, r2)" by fastforce
  obtain here3 r3 where 3: "TryField r2 92 = (here3, r3)" by fastforce
  obtain inc r4 where 4: "Reader_Svarint r3 = (inc, r4)" by fastforce
  have fwd: "advances r r1" "advances r r3" "advances r r4"
    using op_advances(4) [OF 1] op_advances(2) [OF 2] op_advances(4) [OF 3] op_advances(2) [OF 4] advances_trans
    by blast+
  then have "vec_post t count r (case go_map (\<lambda>i. sequenceValue (tID t) (start + word_of_nat i * inc)) [0..<count] of
      Ok vals \<Rightarrow> (Ok vals, r4) | Err e \<Rightarrow> (Err e, r4) | Panic \<Rightarrow> (Panic, r4))"
    by (intro rows_post(2) sequenceValue_post) simp_all
  then show ?thesis
    using fwd by (simp add: decodeSequence_def 1 2 3 4 Let_def)
qed

text \<open>\<open>decodeVector\<close> keeps the contract at every depth, by descent on what is left of the depth.\<close>

lemma decodeVector_contract: "vector_contract (decodeVector depth)"
proof (induction "Suc maxTypeDepth - depth" arbitrary: depth)
  case 0
  then have "decodeVector depth t count r = (Err ErrVectorDepth, r)" for t count r
    by (subst decodeVector.simps) simp
  then show ?case
    by unfold_locales (simp add: advances_refl)
next
  case (Suc k)
  then have k: "k = Suc maxTypeDepth - (depth + 1)" and le: "depth \<le> maxTypeDepth"
    by simp_all
  have rec: "vector_contract (decodeVector (Suc depth))"
    using Suc.hyps(1) [OF k] by simp
  note posts = vector_contract.flatVector_post [OF rec] vector_contract.constant_post [OF rec]
    vector_contract.dictionary_post [OF rec] sequence_post
  show ?case
  proof
    fix t count r
    obtain vtype r1 where 1: "opt_field r 90 Reader_Uvarint vecFlat = (vtype, r1)" by fastforce
    note fwd = opt_field_forward [OF uvarint_op.reader_op_axioms 1]
    show "vec_post t count r (decodeVector depth t count r)"
      using le fwd by (subst decodeVector.simps)
        (simp add: 1 advances_refl vec_post_trans [OF fwd] posts)
  qed
qed

interpretation vector: vector_contract "decodeVector depth" for depth
  by (rule decodeVector_contract)

section \<open>Columns and chunks\<close>

text \<open>
  A decoded column has one typed value per row, or is unsupported and says so for its own type
  or the nested type that is unsupported; a decoded chunk holds such columns.
\<close>

definition column_wf :: "nat \<Rightarrow> column \<Rightarrow> bool" where
  "column_wf rows cl \<longleftrightarrow>
     (case colErr cl of
        None \<Rightarrow> length (colVals cl) = rows \<and> (\<forall>v\<in>set (colVals cl). val_typed (colType cl) v)
      | Some e \<Rightarrow> isUnsupported e \<and> colVals cl = [])"

definition chunk_wf :: "chunk \<Rightarrow> bool" where
  "chunk_wf c \<longleftrightarrow> chRows c \<le> maxChunkRows \<and> (\<forall>cl\<in>set (chCols c). column_wf (chRows c) cl)"

lemma decodeColumn_post:
  assumes "decodeColumn rows t r = (res, r')"
  shows "advances r r'" and "res \<noteq> Panic"
    and "res = Ok cl \<Longrightarrow> column_wf rows cl \<and> colType cl = t \<and> rerr r' = None"
proof -
  obtain x r1 where 1: "decodeVector 0 t rows r = (x, r1)"
    by fastforce
  have x: "vec_post t rows r (x, r1)"
    using vector.post [of t rows r 0] by (simp add: 1)
  then have "advances r r1" "advances r (Reader_End r1)"
    using end_forward by (simp_all add: vec_post_def)
  then show "advances r r'" "res \<noteq> Panic"
    "res = Ok cl \<Longrightarrow> column_wf rows cl \<and> colType cl = t \<and> rerr r' = None"
    using assms x
    by (auto simp: decodeColumn_def 1 Let_def column_wf_def split: go.splits if_splits option.splits)
qed

lemma decodeColumns_post:
  assumes "decodeColumns rows ts r = (res, r')"
  shows "advances r r' \<and> res \<noteq> Panic \<and>
    (\<forall>cols. res = Ok cols \<longrightarrow> map colType cols = ts \<and> (\<forall>cl\<in>set cols. column_wf rows cl))"
  using assms
proof (induction ts arbitrary: r r' res)
  case Nil
  then show ?case by (auto simp: advances_refl)
next
  case (Cons t ts)
  obtain x r1 where 1: "decodeColumn rows t r = (x, r1)"
    by fastforce
  obtain y r2 where 2: "decodeColumns rows ts r1 = (y, r2)"
    by fastforce
  show ?case
    using Cons.prems Cons.IH [OF 2] decodeColumn_post [OF 1] advances_trans [of r r1 r2]
    by (auto simp: 1 2 split: go.splits)
qed

lemma types_not_panic: "read_list_go (decodeType depth) n r \<noteq> (Panic, r')"
  by (induction n arbitrary: r) (auto simp: dt.dt_not_panic split: prod.splits go.splits)

lemma decodeChunkContents_post:
  assumes "decodeChunkContents r = (res, r')"
  shows "advances r r'" and "res \<noteq> Panic" and "res = Ok c \<Longrightarrow> chunk_wf c \<and> rerr r' = None"
proof -
  have cols: "advances r2 r3 \<and> a \<noteq> Panic" if "decodeColumns n ts r2 = (a, r3)" for n ts r2 a r3
    using decodeColumns_post [OF that] by simp
  have types: "advances r2 r3" if "read_list_go (decodeType d) n r2 = (a, r3)" for d n r2 a r3
    using dt.read_list_go_advances [of r2 d n] that by simp
  show "advances r r'"
    using assms
    by (auto simp: decodeChunkContents_def Let_def dest!: op_advances types cols
        split: prod.splits go.splits if_splits; meson advances_trans End_advances)
  show "res \<noteq> Panic"
    using assms by (auto simp: decodeChunkContents_def reader_result_def Let_def types_not_panic dest: cols
        split: prod.splits go.splits if_splits option.splits)
  assume "res = Ok c"
  then show "chunk_wf c \<and> rerr r' = None"
    using assms by (auto simp: decodeChunkContents_def reader_result_def chunk_wf_def Let_def
        dest!: decodeColumns_post split: prod.splits go.splits if_splits option.splits)
qed

end
