(* ===== verification/Result_Codec.thy ===== *)
theory Result_Codec
  imports Chunk_Contract
begin

text \<open>
  The codec's entry points, \<^verbatim>\<open>src/codec/result.go\<close>, \<^verbatim>\<open>codec.go\<close> and
  \<^verbatim>\<open>versions.go\<close>: the version registry, the bodies of PREPARE_RESPONSE and
  FETCH_RESPONSE, and a standalone chunk.  What they return is a chain of well-formed chunks,
  whatever the bytes.
\<close>

section \<open>The version registry\<close>

record codec =
  cVersion :: u64

definition registry :: "u64 \<Rightarrow> codec option" where
  "registry = map_of [(1, \<lparr>cVersion = 1\<rparr>)]"

definition For :: "u64 \<Rightarrow> (codec_error, codec) go" where
  "For version = (case registry version of Some c \<Rightarrow> Ok c | None \<Rightarrow> Err (ErrNoCodec version))"

definition Codec_Version :: "codec \<Rightarrow> u64" where
  "Codec_Version c = cVersion c"

section \<open>Bodies\<close>

definition BatchIndexAbsent :: u64 where
  "BatchIndexAbsent = OptionalIdxAbsent"

record prepare_result =
  prSchema :: schema
  prChunks :: "chunk list"
  prNeedsMoreFetch :: bool
  prResultUUID :: hugeint

record fetch_result =
  frChunks :: "chunk list"
  frBatchIndex :: u64

text \<open>The loop of \<open>decodeChunkList\<close>; a null element contributes nothing.\<close>

fun decodeChunks :: "nat \<Rightarrow> chunk list decoder" where
  "decodeChunks 0 r = (Ok [], r)"
| "decodeChunks (Suc n) r =
     (let (present, r) = Present r in
      if \<not> present then decodeChunks n r
      else
        let (here, r) = TryField r 300 in
        if \<not> here then (Err ErrWrapperMissingChunk, r)
        else (case decodeChunkContents r of
                (Ok ch, r) \<Rightarrow>
                  (case decodeChunks n (Reader_End r) of
                     (Ok chs, r) \<Rightarrow> (Ok (ch # chs), r)
                   | (Err e, r) \<Rightarrow> (Err e, r)
                   | (Panic, r) \<Rightarrow> (Panic, r))
              | (Err e, r) \<Rightarrow> (Err e, r)
              | (Panic, r) \<Rightarrow> (Panic, r)))"

definition decodeChunkList :: "chunk list decoder" where
  "decodeChunkList r =
     (let (n, r) = ListCount r in
      case decodeChunks n r of
        (Ok chunks, r) \<Rightarrow> (reader_result chunks r, r)
      | (Err e, r) \<Rightarrow> (Err e, r)
      | (Panic, r) \<Rightarrow> (Panic, r))"

text \<open>An optional field whose value is decoded with errors.\<close>

definition opt_decode :: "reader \<Rightarrow> u16 \<Rightarrow> 'a decoder \<Rightarrow> 'a \<Rightarrow> (codec_error, 'a) go \<times> reader" where
  "opt_decode r fid f d = (let (here, r) = TryField r fid in if here then f r else (Ok d, r))"

definition decodeTypeList :: "logical_type list decoder" where
  "decodeTypeList r = (let (n, r) = ListCount r in read_list_go (decodeType 0) n r)"

definition DecodePrepare :: "codec \<Rightarrow> bytes \<Rightarrow> (codec_error, prepare_result) go" where
  "DecodePrepare c body =
     (case opt_decode (NewReader body) 1 decodeTypeList [] of
        (Ok types, r) \<Rightarrow>
          (let (names, r) = opt_field r 2 read_strings [] in
           if length names \<noteq> length types then Err (ErrNameCount (length names) (length types))
           else
             let cols = map2 (\<lambda>n t. \<lparr>scName = n, scType = t\<rparr>) names types;
                 (more, r) = opt_field r 3 Reader_Bool False
             in (case opt_decode r 4 decodeChunkList [] of
                   (Ok chunks, r) \<Rightarrow>
                     (let (here, r) = TryField r 5 in
                      if \<not> here then Err ErrMissingResultUUID
                      else
                        let (uuid, r) = Reader_Hugeint r;
                            r = Reader_End r
                        in case rerr r of
                             Some e \<Rightarrow> Err (ErrBadPrepare e)
                           | None \<Rightarrow> Ok \<lparr>prSchema = cols, prChunks = chunks,
                               prNeedsMoreFetch = more, prResultUUID = uuid\<rparr>)
                 | (Err e, r) \<Rightarrow> Err e
                 | (Panic, r) \<Rightarrow> Panic))
      | (Err e, r) \<Rightarrow> Err e
      | (Panic, r) \<Rightarrow> Panic)"

definition DecodeFetch :: "codec \<Rightarrow> bytes \<Rightarrow> (codec_error, fetch_result) go" where
  "DecodeFetch c body =
     (case opt_decode (NewReader body) 1 decodeChunkList [] of
        (Ok chunks, r) \<Rightarrow>
          (let (batch, r) = opt_field r 2 OptionalIdx BatchIndexAbsent;
               r = Reader_End r
           in case rerr r of
                Some e \<Rightarrow> Err (ErrBadFetch e)
              | None \<Rightarrow> Ok \<lparr>frChunks = chunks, frBatchIndex = batch\<rparr>)
      | (Err e, r) \<Rightarrow> Err e
      | (Panic, r) \<Rightarrow> Panic)"

definition DecodeChunk :: "codec \<Rightarrow> bytes \<Rightarrow> (codec_error, chunk) go" where
  "DecodeChunk c buf =
     (case decodeChunkContents (NewReader buf) of
        (Ok ch, r) \<Rightarrow> (case rerr r of Some e \<Rightarrow> Err (ErrReader e) | None \<Rightarrow> Ok ch)
      | (Err e, r) \<Rightarrow> Err e
      | (Panic, r) \<Rightarrow> Panic)"

section \<open>Well-formed chunks, whatever the bytes\<close>

lemma decodeChunks_post:
  assumes "decodeChunks n r = (res, r')"
  shows "res \<noteq> Panic \<and> (\<forall>chs. res = Ok chs \<longrightarrow> length chs \<le> n \<and> (\<forall>ch\<in>set chs. chunk_wf ch))"
  using assms
proof (induction n arbitrary: r res)
  case 0
  then show ?case by auto
next
  case (Suc n)
  obtain p r1 where 1: "Present r = (p, r1)" by fastforce
  obtain h r2 where 2: "TryField r1 300 = (h, r2)" by fastforce
  obtain x r3 where 3: "decodeChunkContents r2 = (x, r3)" by fastforce
  show ?case
  proof (cases "p \<and> h")
    case True
    then show ?thesis
      using Suc.prems decodeChunkContents_post [OF 3] Suc.IH [of "Reader_End r3"]
      by (auto simp: 1 2 3 split: go.splits prod.splits)
  next
    case False
    then show ?thesis
      using Suc.prems Suc.IH [of r1] by (auto simp: 1 2 split: if_splits)
  qed
qed

lemma decodeChunkList_post:
  "fst (decodeChunkList r) \<noteq> Panic"
  "decodeChunkList r = (Ok chs, r') \<Longrightarrow> \<forall>ch\<in>set chs. chunk_wf ch"
  by (auto simp: decodeChunkList_def reader_result_def dest!: decodeChunks_post
      split: prod.splits go.splits option.splits)

lemma opt_decode_cases:
  assumes "opt_decode r fid f d = (res, r')"
  obtains "res = Ok d" | r1 where "f r1 = (res, r')"
  using assms by (auto simp: opt_decode_def split: prod.splits if_splits)

lemma opt_chunks_post:
  assumes "opt_decode r fid decodeChunkList [] = (res, r')"
  shows "res \<noteq> Panic" and "res = Ok chs \<Longrightarrow> \<forall>ch\<in>set chs. chunk_wf ch"
  using assms decodeChunkList_post by (auto elim!: opt_decode_cases) (metis fst_conv)

lemma decodeTypeList_not_panic: "decodeTypeList r \<noteq> (Panic, r')"
  by (auto simp: decodeTypeList_def types_not_panic split: prod.splits)

lemma opt_types_not_panic: "opt_decode r fid decodeTypeList [] \<noteq> (Panic, r')"
  by (auto simp: decodeTypeList_not_panic elim!: opt_decode_cases)

lemma DecodeFetch_returns: "DecodeFetch c body \<noteq> Panic"
  by (auto simp: DecodeFetch_def Let_def dest: opt_chunks_post split: go.splits prod.splits option.splits)

lemma DecodePrepare_returns: "DecodePrepare c body \<noteq> Panic"
  by (auto simp: DecodePrepare_def opt_types_not_panic Let_def
      dest: opt_chunks_post split: go.splits prod.splits option.splits if_splits)

lemma For_supported [simp]: "For 1 = Ok \<lparr>cVersion = 1\<rparr>"
  by (simp add: For_def registry_def)

section \<open>Properties\<close>

text \<open>C2: whatever the bytes, decoding a chunk does not panic, and a chunk it returns is well formed:
  it has at most \<open>maxChunkRows\<close> rows and in every column either one value per row, each of the Go
  type that the column's logical type calls for, or an \<open>ErrUnsupportedType\<close> and no values.\<close>

theorem DecodeChunk_wf:
  "case DecodeChunk c buf of Ok ch \<Rightarrow> chunk_wf ch | Err e \<Rightarrow> True | Panic \<Rightarrow> False"
proof -
  obtain res r where 1: "decodeChunkContents (NewReader buf) = (res, r)"
    by fastforce
  show ?thesis
    using decodeChunkContents_post [OF 1]
    by (auto simp: DecodeChunk_def 1 split: go.splits option.splits)
qed

text \<open>C3: the bodies of PREPARE_RESPONSE and FETCH_RESPONSE decode without a panic, and every chunk
  of a decoded body is well formed.\<close>

theorem DecodeBody_wf:
  "(case DecodePrepare c body of Ok p \<Rightarrow> list_all chunk_wf (prChunks p) | Err e \<Rightarrow> True | Panic \<Rightarrow> False) \<and>
   (case DecodeFetch c body of Ok f \<Rightarrow> list_all chunk_wf (frChunks f) | Err e \<Rightarrow> True | Panic \<Rightarrow> False)"
  by (auto simp: DecodePrepare_def DecodeFetch_def opt_types_not_panic list_all_iff Let_def
      dest: opt_chunks_post split: go.splits prod.splits option.splits if_splits)

text \<open>Reading a cell of a decoded chunk never panics, for any pair of indices: inside the chunk
  it returns a value of the column's type, or the \<open>ErrUnsupportedType\<close> of the column; outside it
  returns the index error.\<close>

theorem Chunk_Value_safe:
  assumes "DecodeChunk c buf = Ok ch"
  shows "case Chunk_Value ch col row of
      Ok v \<Rightarrow> val_typed (colType (chCols ch ! nat col)) v
    | Err e \<Rightarrow> (if 0 \<le> col \<and> col < int (ColumnCount ch) \<and> 0 \<le> row \<and> row < int (RowCount ch)
        then isUnsupported e \<and> colErr (chCols ch ! nat col) = Some e
        else e = ErrValueIndex col row)
    | Panic \<Rightarrow> False"
proof -
  obtain r where r: "decodeChunkContents (NewReader buf) = (Ok ch, r)"
    using assms by (auto simp: DecodeChunk_def split: prod.splits go.splits option.splits)
  have wf: "\<forall>cl\<in>set (chCols ch). column_wf (chRows ch) cl"
    using decodeChunkContents_post(3) [OF r refl] by (simp add: chunk_wf_def)
  show ?thesis
  proof (cases "0 \<le> col \<and> col < int (length (chCols ch)) \<and> 0 \<le> row \<and> row < int (chRows ch)")
    case True
    then have "column_wf (chRows ch) (chCols ch ! nat col)"
      using wf by (simp add: nat_less_iff)
    then show ?thesis
      using True by (auto simp: Chunk_Value_def ColumnCount_def RowCount_def column_wf_def nat_less_iff
          split: option.splits)
  next
    case False
    then show ?thesis
      by (auto simp: Chunk_Value_def ColumnCount_def RowCount_def)
  qed
qed

text \<open>Two rows of INTEGER, the second NULL; row 0 is 5.\<close>

theorem Chunk_Value_safe_witness:
  "case Chunk_Value \<lparr>chRows = 2, chCols = [\<lparr>colType = scalar_type TypeInteger, colVals = [VInt32 5, VNil], colErr = None\<rparr>]\<rparr> 0 0 of
      Ok v \<Rightarrow> v = VInt32 5 \<and> val_typed (scalar_type TypeInteger) v
    | Err e \<Rightarrow> False
    | Panic \<Rightarrow> False"
proof -
  have "DecodeChunk \<lparr>cVersion = 1\<rparr> [100, 0, 2, 101, 0, 1, 100, 0, 13, 255, 255, 102, 0, 1, 100, 0, 1,
      101, 0, 1, 1, 102, 0, 8, 5, 0, 0, 0, 7, 0, 0, 0, 255, 255, 255, 255]
    = Ok \<lparr>chRows = 2, chCols = [\<lparr>colType = scalar_type TypeInteger, colVals = [VInt32 5, VNil], colErr = None\<rparr>]\<rparr>"
    by code_simp
  from Chunk_Value_safe [OF this, of 0 0] show ?thesis
    by (simp add: Chunk_Value_def)
qed

end
