(* ===== verification/Codectest.thy ===== *)
theory Codectest
  imports Write_Type Result_Codec
begin

text \<open>
  The chunk encoder of \<^verbatim>\<open>src/codec/codectest/codectest.go\<close>, which the tests and the fake
  server use as the oracle of the decoder.  Each function appends to a writer; \<open>None\<close> is a
  panic (a value of the wrong Go type, a missing child type, a row count that differs).
\<close>

section \<open>Cells\<close>

definition int128parts :: "int \<Rightarrow> u64 \<times> u64" where
  "int128parts v =
     (let b = (if v < 0 then v + 2 ^ 128 else v)
      in (big_Uint64 (b div 2 ^ 64), big_Uint64 b))"

text \<open>
  The accessors of \<open>time.Time\<close>, with the wrap-around of \<open>int64\<close>; Go divides by truncation,
  and the nanoseconds are never negative.
\<close>

definition time_UnixScaled :: "int \<Rightarrow> go_time \<Rightarrow> u64" where
  "time_UnixScaled per ts = unix_sec ts * word_of_int per + word_of_int (unix_nsec ts div (1000000000 div per))"

definition timestamp_count :: "type_id \<Rightarrow> go_time \<Rightarrow> u64" where
  "timestamp_count tid ts =
     (if tid = TypeTimestampSec then unix_sec ts
      else if tid = TypeTimestampMS then time_UnixScaled 1000 ts
      else if tid = TypeTimestampNS then time_UnixScaled 1000000000 ts
      else time_UnixScaled 1000000 ts)"

definition date_days :: "go_time \<Rightarrow> u32" where
  "date_days ts = word_of_int (sint (unix_sec ts) sdiv 86400)"

text \<open>The first dictionary position of a string.\<close>

fun enum_position :: "string \<Rightarrow> string list \<Rightarrow> nat option" where
  "enum_position s [] = None"
| "enum_position s (e # es) = (if e = s then Some 0 else map_option Suc (enum_position s es))"

definition enum_bytes :: "nat \<Rightarrow> nat \<Rightarrow> bytes" where
  "enum_bytes dictSize idx =
     (if dictSize \<le> 255 then [word_of_nat idx]
      else if dictSize \<le> 65535 then le_put 2 (word_of_nat idx :: u16)
      else le_put 4 (word_of_nat idx :: u32))"

definition decimal_bytes :: "byte \<Rightarrow> u64 \<times> u64 \<Rightarrow> bytes" where
  "decimal_bytes wd p =
     (case p of (hi, lo) \<Rightarrow>
        if wd \<le> 4 then le_put 2 (ucast lo :: u16)
        else if wd \<le> 9 then le_put 4 (ucast lo :: u32)
        else if wd \<le> 18 then le_put 8 lo
        else le_put 8 lo @ le_put 8 hi)"

definition appendDecimal :: "bytes \<Rightarrow> logical_type \<Rightarrow> val \<Rightarrow> bytes option" where
  "appendDecimal data t v =
     (case v of
        VNil \<Rightarrow> Some (data @ decimal_bytes (tWidth t) (0, 0))
      | VDecimal d \<Rightarrow> Some (data @ decimal_bytes (tWidth t) (int128parts (Decimal_BigInt d)))
      | _ \<Rightarrow> None)"

text \<open>A NULL occupies its slot as the zero value; any other value must have the column's Go type.\<close>

definition appendCell :: "bytes \<Rightarrow> logical_type \<Rightarrow> val \<Rightarrow> bytes option" where
  "appendCell data t v =
     (let tid = tID t; out = (\<lambda>b. Some (data @ b)) in
      if tid = TypeBoolean then
        (case v of VNil \<Rightarrow> out [0] | VBool b \<Rightarrow> out [if b then 1 else 0] | _ \<Rightarrow> None)
      else if tid = TypeTinyint then (case v of VNil \<Rightarrow> out [0] | VInt8 b \<Rightarrow> out [b] | _ \<Rightarrow> None)
      else if tid = TypeUTinyint then (case v of VNil \<Rightarrow> out [0] | VUint8 b \<Rightarrow> out [b] | _ \<Rightarrow> None)
      else if tid = TypeSmallint then
        (case v of VNil \<Rightarrow> out (le_put 2 (0 :: u16)) | VInt16 w \<Rightarrow> out (le_put 2 w) | _ \<Rightarrow> None)
      else if tid = TypeUSmallint then
        (case v of VNil \<Rightarrow> out (le_put 2 (0 :: u16)) | VUint16 w \<Rightarrow> out (le_put 2 w) | _ \<Rightarrow> None)
      else if tid = TypeInteger then
        (case v of VNil \<Rightarrow> out (le_put 4 (0 :: u32)) | VInt32 w \<Rightarrow> out (le_put 4 w) | _ \<Rightarrow> None)
      else if tid = TypeUInteger then
        (case v of VNil \<Rightarrow> out (le_put 4 (0 :: u32)) | VUint32 w \<Rightarrow> out (le_put 4 w) | _ \<Rightarrow> None)
      else if tid = TypeBigint then
        (case v of VNil \<Rightarrow> out (le_put 8 (0 :: u64)) | VInt64 w \<Rightarrow> out (le_put 8 w) | _ \<Rightarrow> None)
      else if tid = TypeUBigint then
        (case v of VNil \<Rightarrow> out (le_put 8 (0 :: u64)) | VUint64 w \<Rightarrow> out (le_put 8 w) | _ \<Rightarrow> None)
      else if tid = TypeFloat then
        (case v of VNil \<Rightarrow> out (le_put 4 (0 :: u32)) | VFloat32 w \<Rightarrow> out (le_put 4 w) | _ \<Rightarrow> None)
      else if tid = TypeDouble then
        (case v of VNil \<Rightarrow> out (le_put 8 (0 :: u64)) | VFloat64 w \<Rightarrow> out (le_put 8 w) | _ \<Rightarrow> None)
      else if tid = TypeDate then
        (case v of VNil \<Rightarrow> out (le_put 4 (0 :: u32)) | VGoTime ts \<Rightarrow> out (le_put 4 (date_days ts)) | _ \<Rightarrow> None)
      else if tid = TypeTime then
        (case v of VNil \<Rightarrow> out (le_put 8 (0 :: u64)) | VTime w \<Rightarrow> out (le_put 8 w) | _ \<Rightarrow> None)
      else if tid \<in> {TypeTimestampSec, TypeTimestampMS, TypeTimestamp, TypeTimestampNS, TypeTimestampTZ} then
        (case v of VNil \<Rightarrow> out (le_put 8 (0 :: u64)) | VGoTime ts \<Rightarrow> out (le_put 8 (timestamp_count tid ts)) | _ \<Rightarrow> None)
      else if tid = TypeDecimal then appendDecimal data t v
      else if tid = TypeHugeint \<or> tid = TypeUHugeint then
        (case v of VNil \<Rightarrow> out (le_put 8 (0 :: u64) @ le_put 8 (0 :: u64))
         | VBigInt i \<Rightarrow> (case int128parts i of (hi, lo) \<Rightarrow> out (le_put 8 lo @ le_put 8 hi)) | _ \<Rightarrow> None)
      else if tid = TypeUUID then
        (case v of VNil \<Rightarrow> out (le_put 8 (0 :: u64) @ le_put 8 (0 :: u64))
         | VUUID u \<Rightarrow>
             out (le_put 8 (le_get (rev (drop 8 u)) :: u64) @
                  le_put 8 (le_get (rev (take 8 u)) XOR push_bit 63 1 :: u64))
         | _ \<Rightarrow> None)
      else if tid = TypeInterval then
        (case v of VNil \<Rightarrow> out (le_put 4 (0 :: u32) @ le_put 4 (0 :: u32) @ le_put 8 (0 :: u64))
         | VInterval iv \<Rightarrow> out (le_put 4 (ivMonths iv) @ le_put 4 (ivDays iv) @ le_put 8 (ivMicros iv)) | _ \<Rightarrow> None)
      else if tid = TypeTimeTZ then
        (case v of VNil \<Rightarrow> out (le_put 8 (0 :: u64))
         | VTimeTZ tz \<Rightarrow>
             out (le_put 8 (push_bit 24 (tzMicros tz) OR
               (ucast (timeTZMaxOffset - tzOffset tz) AND 0xFFFFFF) :: u64))
         | _ \<Rightarrow> None)
      else if tid = TypeTimeNS then
        (case v of VNil \<Rightarrow> out (le_put 8 (0 :: u64)) | VTimeNS w \<Rightarrow> out (le_put 8 w) | _ \<Rightarrow> None)
      else if tid = TypeEnum then
        (case v of VNil \<Rightarrow> out (enum_bytes (length (tEnum t)) 0)
         | VString s \<Rightarrow>
             (case enum_position s (tEnum t) of None \<Rightarrow> None
              | Some idx \<Rightarrow> out (enum_bytes (length (tEnum t)) idx))
         | _ \<Rightarrow> None)
      else None)"

fun appendCells :: "bytes \<Rightarrow> logical_type \<Rightarrow> val list \<Rightarrow> bytes option" where
  "appendCells data t [] = Some data"
| "appendCells data t (v # vs) =
     (case appendCell data t v of None \<Rightarrow> None | Some data \<Rightarrow> appendCells data t vs)"

section \<open>Bit strings and validity masks\<close>

text \<open>One character of a BIT string, or-ed into the blob at bit position \<open>pos\<close>.\<close>

fun set_bits :: "bytes \<Rightarrow> nat \<Rightarrow> string \<Rightarrow> bytes option" where
  "set_bits out pos [] = Some out"
| "set_bits out pos (c # cs) =
     (if c \<noteq> CHR ''0'' \<and> c \<noteq> CHR ''1'' then None
      else
        let i = 1 + pos div 8;
            b = (if c = CHR ''1'' then push_bit (7 - pos mod 8) 1 else 0)
        in set_bits (out[i := out ! i OR b]) (pos + 1) cs)"

definition pad_bits :: "nat \<Rightarrow> bytes \<Rightarrow> bytes" where
  "pad_bits padding out = foldl (\<lambda>o' i. o'[1 := o' ! 1 OR push_bit (7 - i) 1]) out [0..<padding]"

definition bitBlob :: "string \<Rightarrow> bytes option" where
  "bitBlob s =
     (let padding = (8 - length s mod 8) mod 8 in
      if s = [] then Some [0]
      else map_option (pad_bits padding)
        (set_bits ((replicate (1 + (length s + padding) div 8) 0)[0 := word_of_nat padding]) padding s))"

definition validityMask :: "val list \<Rightarrow> bytes option" where
  "validityMask vals =
     (if VNil \<notin> set vals then None
      else Some (foldl (\<lambda>m (i, v). if v \<noteq> VNil then m[i div 8 := m ! (i div 8) OR push_bit (i mod 8) 1] else m)
        (replicate ((length vals + 63) div 64 * 8) 0) (zip [0..<length vals] vals)))"

section \<open>Vectors\<close>

text \<open>The rows of a variable-width vector.\<close>

fun writeStrings :: "type_id \<Rightarrow> writer \<Rightarrow> val list \<Rightarrow> writer option" where
  "writeStrings tid w [] = Some w"
| "writeStrings tid w (v # vs) =
     (case v of
        VNil \<Rightarrow> writeStrings tid (Writer_String w []) vs
      | VString s \<Rightarrow>
          (if tid = TypeBit
           then (case bitBlob s of None \<Rightarrow> None | Some b \<Rightarrow> writeStrings tid (Writer_BytesVal w b) vs)
           else writeStrings tid (Writer_String w s) vs)
      | VBytes b \<Rightarrow> writeStrings tid (Writer_BytesVal w b) vs
      | _ \<Rightarrow> None)"

text \<open>Column \<open>j\<close> of a struct column: a row that is not a struct is NULL in every child.\<close>

fun struct_column :: "nat \<Rightarrow> val list \<Rightarrow> val list option" where
  "struct_column j [] = Some []"
| "struct_column j (v # vs) =
     (case (case v of VStruct es \<Rightarrow> (if j < length es then Some (snd (es ! j)) else None) | _ \<Rightarrow> Some VNil) of
        None \<Rightarrow> None
      | Some x \<Rightarrow> map_option (Cons x) (struct_column j vs))"

text \<open>The elements of one LIST or MAP row; a map entry becomes a two-field struct.\<close>

definition list_elems :: "logical_type option \<Rightarrow> val \<Rightarrow> val list option" where
  "list_elems ch v =
     (case v of
        VNil \<Rightarrow> Some []
      | VList xs \<Rightarrow> Some xs
      | VMap kvs \<Rightarrow>
          (if kvs = [] then Some []
           else case ch of None \<Rightarrow> None
             | Some c \<Rightarrow>
                 (case tFields c of
                    (n0, _) # (n1, _) # _ \<Rightarrow> Some (map (\<lambda>(k, x). VStruct [(n0, k), (n1, x)]) kvs)
                  | _ \<Rightarrow> None))
      | _ \<Rightarrow> None)"

fun flatten_rows :: "logical_type option \<Rightarrow> val list \<Rightarrow> val list \<Rightarrow> (val list \<times> (u64 \<times> u64) list) option" where
  "flatten_rows ch child [] = Some (child, [])"
| "flatten_rows ch child (v # vs) =
     (case list_elems ch v of None \<Rightarrow> None
      | Some row \<Rightarrow>
          map_option (apsnd (Cons (word_of_nat (length child), word_of_nat (length row))))
            (flatten_rows ch (child @ row) vs))"

fun flatten_array :: "nat \<Rightarrow> val list \<Rightarrow> val list option" where
  "flatten_array sz [] = Some []"
| "flatten_array sz (v # vs) =
     (case (case v of VNil \<Rightarrow> Some (replicate sz VNil)
            | VList xs \<Rightarrow> (if length xs \<noteq> sz then None else Some xs) | _ \<Rightarrow> None) of
        None \<Rightarrow> None
      | Some xs \<Rightarrow> map_option ((@) xs) (flatten_array sz vs))"

definition write_list_entry :: "writer \<Rightarrow> u64 \<times> u64 \<Rightarrow> writer" where
  "write_list_entry w e = Writer_End (FieldUvarint (FieldUvarint w 100 (fst e)) 101 (snd e))"

text \<open>The validity fields every vector starts with.\<close>

definition write_validity :: "writer \<Rightarrow> val list \<Rightarrow> writer" where
  "write_validity w vals =
     (case validityMask vals of
        None \<Rightarrow> FieldBool w 100 False
      | Some bits \<Rightarrow> FieldBytes (FieldBool w 100 True) 101 bits)"

function writeVector :: "writer \<Rightarrow> logical_type \<Rightarrow> val list \<Rightarrow> writer option"
  and writeChildren :: "writer \<Rightarrow> nat \<Rightarrow> (string \<times> logical_type) list \<Rightarrow> val list \<Rightarrow> writer option" where
  "writeVector w (LogicalType tid wd sc ch fs en asz) vals =
     (let w = write_validity w vals in
      if tid \<in> {TypeVarchar, TypeBlob, TypeBit} then
        writeStrings tid (Writer_Uvarint (Writer_Field w 102) (word_of_nat (length vals))) vals
      else if tid = TypeStruct then
        writeChildren (Writer_Uvarint (Writer_Field w 103) (word_of_nat (length fs))) 0 fs vals
      else if tid \<in> {TypeList, TypeMap} then
        (case flatten_rows ch [] vals of None \<Rightarrow> None
         | Some (child, entries) \<Rightarrow>
             (let w = FieldUvarint w 104 (word_of_nat (length child));
                  w = Writer_Uvarint (Writer_Field w 105) (word_of_nat (length entries));
                  w = foldl write_list_entry w entries;
                  w = Writer_Field w 106
              in case ch of None \<Rightarrow> None | Some c \<Rightarrow> map_option Writer_End (writeVector w c child)))
      else if tid = TypeArray then
        (case flatten_array (unat asz) vals of None \<Rightarrow> None
         | Some child \<Rightarrow>
             (let w = FieldUvarint w 103 (word_of_nat (unat asz));
                  w = Writer_Field w 104
              in case ch of None \<Rightarrow> None | Some c \<Rightarrow> map_option Writer_End (writeVector w c child)))
      else map_option (FieldBytes w 102) (appendCells [] (LogicalType tid wd sc ch fs en asz) vals))"
| "writeChildren w j [] vals = Some w"
| "writeChildren w j ((name, t) # fs) vals =
     (case struct_column j vals of None \<Rightarrow> None
      | Some child \<Rightarrow>
          (case writeVector w t child of None \<Rightarrow> None
           | Some w \<Rightarrow> writeChildren (Writer_End w) (j + 1) fs vals))"
  by pat_completeness auto
termination
  by (relation "measure (case_sum (\<lambda>(w, t, vals). 2 * size t)
    (\<lambda>(w, j, fs, vals). Suc (2 * size_list (size_prod (\<lambda>x. 0) size) fs)))") auto

section \<open>Chunks and bodies\<close>

record col =
  cName :: string
  cType :: logical_type
  cVals :: "val list"

fun writeTypes :: "writer \<Rightarrow> logical_type list \<Rightarrow> writer option" where
  "writeTypes w [] = Some w"
| "writeTypes w (t # ts) = (case WriteType w t of None \<Rightarrow> None | Some w \<Rightarrow> writeTypes w ts)"

fun writeColumns :: "writer \<Rightarrow> nat \<Rightarrow> col list \<Rightarrow> writer option" where
  "writeColumns w rows [] = Some w"
| "writeColumns w rows (c # cs) =
     (if length (cVals c) \<noteq> rows then None
      else case writeVector w (cType c) (cVals c) of None \<Rightarrow> None
        | Some w \<Rightarrow> writeColumns (Writer_End w) rows cs)"

definition WriteChunk :: "writer \<Rightarrow> col list \<Rightarrow> writer option" where
  "WriteChunk w cols =
     (let rows = (case cols of [] \<Rightarrow> 0 | c # _ \<Rightarrow> length (cVals c));
          w = FieldUvarint w 100 (word_of_nat rows);
          w = Writer_Uvarint (Writer_Field w 101) (word_of_nat (length cols))
      in case writeTypes w (map cType cols) of None \<Rightarrow> None
         | Some w \<Rightarrow>
             map_option Writer_End
               (writeColumns (Writer_Uvarint (Writer_Field w 102) (word_of_nat (length cols))) rows cols))"

definition EncodeChunk :: "col list \<Rightarrow> bytes option" where
  "EncodeChunk cols = WriteChunk [] cols"

fun writeChunks :: "writer \<Rightarrow> col list list \<Rightarrow> writer option" where
  "writeChunks w [] = Some w"
| "writeChunks w (cols # chunks) =
     (case WriteChunk (Writer_Field (Writer_Bool w True) 300) cols of None \<Rightarrow> None
      | Some w \<Rightarrow> writeChunks (Writer_End w) chunks)"

definition writeChunkList :: "writer \<Rightarrow> col list list \<Rightarrow> writer option" where
  "writeChunkList w chunks = writeChunks (Writer_Uvarint w (word_of_nat (length chunks))) chunks"

definition EncodePrepareBody :: "col list \<Rightarrow> col list list \<Rightarrow> bool \<Rightarrow> hugeint \<Rightarrow> bytes option" where
  "EncodePrepareBody cols inline needsMore uuid =
     (case (if cols \<noteq> [] then
              map_option (\<lambda>w. foldl Writer_String (Writer_Uvarint (Writer_Field w 2) (word_of_nat (length cols)))
                  (map cName cols))
                (writeTypes (Writer_Uvarint (Writer_Field [] 1) (word_of_nat (length cols))) (map cType cols))
            else Some []) of
        None \<Rightarrow> None
      | Some w \<Rightarrow>
          (let w = (if needsMore then FieldBool w 3 True else w) in
           map_option (\<lambda>w. Writer_End (FieldHugeint w 5 uuid))
             (if inline \<noteq> [] then writeChunkList (Writer_Field w 4) inline else Some w)))"

definition EncodeFetchBody :: "col list list \<Rightarrow> u64 \<Rightarrow> bytes option" where
  "EncodeFetchBody chunks batchIndex =
     map_option (\<lambda>w. Writer_End (FieldUvarint w 2 batchIndex))
       (if chunks \<noteq> [] then writeChunkList (Writer_Field [] 1) chunks else Some [])"

end
