(* ===== verification/Cell_Roundtrip.thy ===== *)
theory Cell_Roundtrip
  imports Codectest
begin

text \<open>
  The decoder reads back what the encoder wrote, cell by cell: fixed-width cells, BIT blobs and
  validity masks.  \<open>scalar_codable\<close> is the set of values a fixed-width column can hold without
  loss: the Go type of the column, decimals that fit the physical width of their precision,
  times that are whole multiples of the column's unit and fit its range.
\<close>

section \<open>128-bit integers\<close>

lemma int128parts_signed: "int128parts (int128Big hi lo) = (hi, lo)"
  unfolding int128parts_def int128_twos_complement by (simp only: Let_def big_Uint64_halves)

lemma int128parts_unsigned: "int128parts (uint128Big hi lo) = (hi, lo)"
proof -
  have "\<not> uint128Big hi lo < 0"
    using uint_range64 [of lo] uint_range64 [of hi] by (simp add: uint128Big_def not_less)
  then show ?thesis
    unfolding int128parts_def by (simp only: Let_def big_Uint64_halves if_False)
qed

section \<open>The values a fixed-width column can hold\<close>

definition fits_bits :: "nat \<Rightarrow> int \<Rightarrow> bool" where
  "fits_bits n i \<longleftrightarrow> - (2 ^ (n - 1)) \<le> i \<and> i < 2 ^ (n - 1)"

definition decimal_bits :: "byte \<Rightarrow> nat" where
  "decimal_bits wd = (if wd \<le> 4 then 16 else if wd \<le> 9 then 32 else if wd \<le> 18 then 64 else 128)"

definition instant_ok :: "int \<Rightarrow> go_time \<Rightarrow> bool" where
  "instant_ok per ts \<longleftrightarrow>
     (let unit = 1000000000 div per in
      0 \<le> unix_nsec ts \<and> unix_nsec ts < 1000000000 \<and> unix_nsec ts mod unit = 0 \<and>
      fits_bits 64 (sint (unix_sec ts) * per + unix_nsec ts div unit))"

definition time_codable :: "type_id \<Rightarrow> go_time \<Rightarrow> bool" where
  "time_codable tid ts \<longleftrightarrow>
     (if tid = TypeDate then
        unix_nsec ts = 0 \<and> sint (unix_sec ts) mod 86400 = 0 \<and> fits_bits 32 (sint (unix_sec ts) div 86400)
      else if tid = TypeTimestampSec then unix_nsec ts = 0
      else if tid = TypeTimestampMS then instant_ok 1000 ts
      else if tid = TypeTimestampNS then instant_ok 1000000000 ts
      else tid \<in> {TypeTimestamp, TypeTimestampTZ} \<and> instant_ok 1000000 ts)"

definition scalar_codable :: "logical_type \<Rightarrow> val \<Rightarrow> bool" where
  "scalar_codable t v \<longleftrightarrow>
     (let tid = tID t in
      case v of
        VNil \<Rightarrow> supportedScalar t
      | VBool _ \<Rightarrow> tid = TypeBoolean
      | VInt8 _ \<Rightarrow> tid = TypeTinyint
      | VInt16 _ \<Rightarrow> tid = TypeSmallint
      | VInt32 _ \<Rightarrow> tid = TypeInteger
      | VInt64 _ \<Rightarrow> tid = TypeBigint
      | VUint8 _ \<Rightarrow> tid = TypeUTinyint
      | VUint16 _ \<Rightarrow> tid = TypeUSmallint
      | VUint32 _ \<Rightarrow> tid = TypeUInteger
      | VUint64 _ \<Rightarrow> tid = TypeUBigint
      | VFloat32 _ \<Rightarrow> tid = TypeFloat
      | VFloat64 _ \<Rightarrow> tid = TypeDouble
      | VString s \<Rightarrow> tid = TypeEnum \<and> s \<in> set (tEnum t) \<and> length (tEnum t) \<le> 2 ^ 32
      | VBigInt i \<Rightarrow> (tid = TypeHugeint \<and> fits_bits 128 i) \<or> (tid = TypeUHugeint \<and> 0 \<le> i \<and> i < 2 ^ 128)
      | VDecimal d \<Rightarrow>
          tid = TypeDecimal \<and> dWidth d = tWidth t \<and> dScale d = tScale t \<and>
          fits_bits (decimal_bits (tWidth t)) (Decimal_BigInt d)
      | VTime _ \<Rightarrow> tid = TypeTime
      | VTimeNS _ \<Rightarrow> tid = TypeTimeNS
      | VTimeTZ tz \<Rightarrow>
          tid = TypeTimeTZ \<and> tzMicros tz < 2 ^ 40 \<and> timeTZMaxOffset - tzOffset tz < 2 ^ 24
      | VInterval _ \<Rightarrow> tid = TypeInterval
      | VUUID u \<Rightarrow> tid = TypeUUID \<and> length u = 16
      | VGoTime ts \<Rightarrow> time_codable tid ts
      | _ \<Rightarrow> False)"

section \<open>Cell by cell\<close>

lemma le_get_append_put [simp]:
  "le_get (take 8 (le_put 8 (w :: u64) @ bs)) = w" "le_get (take 8 (le_put 8 (w :: u64))) = w"
  "le_get (take 4 (le_put 4 (x :: u32) @ bs)) = x" "le_get (take 4 (le_put 4 (x :: u32))) = x"
  "le_get (take 2 (le_put 2 (y :: u16))) = y"
  by simp_all

lemma decimal_roundtrip:
  assumes "fits_bits (decimal_bits wd) (Decimal_BigInt d)" "dWidth d = wd" "dScale d = tScale t" "tWidth t = wd"
  shows "decodeDecimalCell t (decimal_bytes wd (int128parts (Decimal_BigInt d))) = Ok d"
proof -
  obtain sc hi lo where d: "d = newDecimal wd sc hi lo" "sc = tScale t"
    using assms(2,3) by (cases d) (simp add: newDecimal_def)
  have big: "Decimal_BigInt d = int128Big hi lo"
    by (simp add: Decimal_BigInt_def newDecimal_def d)
  have hi: "signed_drop_bit 63 lo = hi" if "wd \<le> 4 \<or> wd \<le> 9 \<or> wd \<le> 18"
    using assms(1) that
    by (intro int128_narrow) (auto simp: big fits_bits_def decimal_bits_def split: if_splits)
  have s16: "scast (ucast lo :: u16) = lo" if "wd \<le> 4"
    using assms(1) that by (intro scast_narrow [where hi = hi]) (auto simp: big fits_bits_def decimal_bits_def)
  have s32: "scast (ucast lo :: u32) = lo" if "\<not> wd \<le> 4" "wd \<le> 9"
    using assms(1) that by (intro scast_narrow [where hi = hi]) (auto simp: big fits_bits_def decimal_bits_def)
  have dec: "decodeDecimalCell t (decimal_bytes wd (hi, lo)) = Ok d"
  proof -
    consider "wd \<le> 4" | "\<not> wd \<le> 4" "wd \<le> 9" | "\<not> wd \<le> 4" "\<not> wd \<le> 9" "wd \<le> 18"
      | "\<not> wd \<le> 4" "\<not> wd \<le> 9" "wd > 18"
      by (meson not_le)
    then show ?thesis
      by cases (use hi s16 s32 assms(4) d in \<open>auto simp: decimal_bytes_def decodeDecimalCell_def Let_def\<close>)
  qed
  then show ?thesis
    by (simp add: big int128parts_signed)
qed

lemma enum_position_nth: "s \<in> set en \<Longrightarrow> \<exists>i. enum_position s en = Some i \<and> i < length en \<and> en ! i = s"
  by (induction en) auto

lemma enum_roundtrip:
  assumes "i < length (tEnum t)" "length (tEnum t) \<le> 2 ^ 32"
  shows "decodeEnumCell t (enum_bytes (length (tEnum t)) i) = Ok (VString (tEnum t ! i))"
proof -
  let ?n = "length (tEnum t)"
  consider "?n \<le> 255" | "\<not> ?n \<le> 255" "?n \<le> 65535" | "\<not> ?n \<le> 255" "\<not> ?n \<le> 65535"
    by auto
  then show ?thesis
    by cases (use assms in \<open>simp_all add: enum_bytes_def decodeEnumCell_def unat_of_nat take_bit_nat_eq_self\<close>)
qed

lemma timetz_roundtrip:
  fixes m :: u64 and f :: u32
  assumes "m < 2 ^ 40" "f < 2 ^ 24"
  shows "drop_bit 24 (push_bit 24 m OR (ucast f AND 0xFFFFFF)) = m"
    and "ucast ((push_bit 24 m OR (ucast f AND 0xFFFFFF)) AND 0xFFFFFF :: u64) = f"
proof -
  have m24: "(0xFFFFFF :: u64) = mask 24"
    by (simp add: mask_eq_exp_minus_1)
  have f: "take_bit 24 f = f"
    using assms(2) by (simp add: word_unat_eq_iff word_less_nat_alt unsigned_take_bit_eq take_bit_nat_eq_self)
  have m: "take_bit 40 m = m"
    using assms(1) by (simp add: word_unat_eq_iff word_less_nat_alt unsigned_take_bit_eq take_bit_nat_eq_self)
  have mb: "bit m k \<Longrightarrow> k < 40" for k
    using m by (metis bit_take_bit_iff)
  have fb: "bit f k \<Longrightarrow> k < 24" for k
    using f by (metis bit_take_bit_iff)
  show "drop_bit 24 (push_bit 24 m OR (ucast f AND 0xFFFFFF)) = m"
    unfolding m24 by (rule bit_word_eqI) (use mb in \<open>force simp: bit_simps bit_mask_iff\<close>)
  show "ucast ((push_bit 24 m OR (ucast f AND 0xFFFFFF)) AND 0xFFFFFF :: u64) = f"
    unfolding m24 by (rule bit_word_eqI) (use fb in \<open>force simp: bit_simps bit_mask_iff\<close>)
qed

lemma instant_roundtrip:
  assumes "instant_ok per ts" "per \<in> {1000, 1000000, 1000000000}"
  shows "time_split per (time_UnixScaled per ts) = ts"
proof -
  let ?unit = "1000000000 div per"
  let ?q = "unix_nsec ts div ?unit"
  have per: "0 < per" "per * ?unit = 1000000000" "0 < ?unit"
    using assms(2) by auto
  have n: "0 \<le> unix_nsec ts" "unix_nsec ts < per * ?unit" "?q * ?unit = unix_nsec ts"
    using assms(1) per(2) by (auto simp: instant_ok_def Let_def)
  have "?q * ?unit < per * ?unit"
    using n by simp
  then have q: "0 \<le> ?q" "?q < per"
    using n(1) per(3) by (simp_all only: mult_less_cancel_right_pos pos_imp_zdiv_nonneg_iff)
  have "time_split per (time_UnixScaled per ts) = \<lparr>unix_sec = unix_sec ts, unix_nsec = ?q * ?unit\<rparr>"
    unfolding time_UnixScaled_def
    using assms(1) by (intro time_split_count per q) (simp_all add: instant_ok_def fits_bits_def Let_def)
  then show ?thesis
    using n(3) by simp
qed

lemma time_roundtrip:
  assumes "time_codable tid ts"
  shows "tid = TypeDate \<Longrightarrow> dateValue (date_days ts) = ts"
    and "tid \<noteq> TypeDate \<Longrightarrow> timestampValue tid (timestamp_count tid ts) = ts"
    and "tid \<in> {TypeDate, TypeTimestampSec, TypeTimestampMS, TypeTimestamp, TypeTimestampNS, TypeTimestampTZ}"
proof -
  show "dateValue (date_days ts) = ts" if "tid = TypeDate"
  proof -
    have "sint (unix_sec ts) = sint (unix_sec ts) div 86400 * 86400"
      using assms that by (auto simp: time_codable_def)
    then show ?thesis
      using dateValue_days [of "unix_sec ts" "sint (unix_sec ts) div 86400"] assms that
      by (cases ts) (simp add: time_codable_def date_days_def fits_bits_def)
  qed
  show "timestampValue tid (timestamp_count tid ts) = ts" if "tid \<noteq> TypeDate"
    using assms that
    by (cases ts) (auto simp: time_codable_def timestampValue_def timestamp_count_def instant_roundtrip
        time_Unix_def split: if_splits)
  show "tid \<in> {TypeDate, TypeTimestampSec, TypeTimestampMS, TypeTimestamp, TypeTimestampNS, TypeTimestampTZ}"
    using assms by (auto simp: time_codable_def split: if_splits)
qed

lemma uuid_roundtrip:
  assumes "length u = 16"
  shows "rev (le_put 8 ((le_get (rev (take 8 u)) XOR push_bit 63 1) XOR push_bit 63 1 :: u64)) @
    rev (le_put 8 (le_get (rev (drop 8 u)) :: u64)) = u"
proof -
  have "le_put (length (rev (take 8 u))) (le_get (rev (take 8 u)) :: u64) = rev (take 8 u)"
    "le_put (length (rev (drop 8 u))) (le_get (rev (drop 8 u)) :: u64) = rev (drop 8 u)"
    using assms by (intro le_put_get; simp)+
  then show ?thesis
    using assms by (simp add: xor.assoc)
qed

text \<open>The bytes of one cell: what the encoder appends, of the column's width, read back.\<close>

definition encodes_cell :: "logical_type \<Rightarrow> val \<Rightarrow> bytes \<Rightarrow> bool" where
  "encodes_cell t v b \<longleftrightarrow>
     (\<forall>data. appendCell data t v = Some (data @ b)) \<and> length b = physicalWidth t \<and>
     (v \<noteq> VNil \<longrightarrow> decodeCell t b = Ok v)"

lemma le_put_0 [simp]: "le_put n 0 = replicate n 0"
  by (induction n) simp_all

lemma zero_slots:
  "replicate 8 x @ replicate 8 x = replicate 16 x"
  "replicate 4 x @ replicate 4 x @ replicate 8 x = replicate 16 x"
  by (simp_all flip: replicate_add)

text \<open>A NULL is a slot of zeros.\<close>

lemma null_cell_bytes:
  assumes "supportedScalar t"
  shows "appendCell data t VNil = Some (data @ replicate (physicalWidth t) 0)"
  using assms unfolding supportedScalar_def
  by (elim insertE emptyE)
    (simp_all add: appendCell_def appendDecimal_def decimal_bytes_def enum_bytes_def enumIndexWidth_def
      physicalWidth_def zero_slots type_id_defs)

lemma null_cell: "supportedScalar t \<Longrightarrow> \<exists>b. encodes_cell t VNil b"
  by (auto simp: encodes_cell_def null_cell_bytes)

lemma decimal_cell:
  assumes "scalar_codable t (VDecimal d)"
  shows "encodes_cell t (VDecimal d) (decimal_bytes (tWidth t) (int128parts (Decimal_BigInt d)))"
proof -
  have t: "tID t = TypeDecimal"
    using assms by (simp add: scalar_codable_def)
  have "decodeDecimalCell t (decimal_bytes (tWidth t) (int128parts (Decimal_BigInt d))) = Ok d"
    using assms by (intro decimal_roundtrip) (simp_all add: scalar_codable_def)
  moreover have "length (decimal_bytes (tWidth t) p) = physicalWidth t" for p
    using t by (cases p) (simp add: decimal_bytes_def physicalWidth_def type_id_defs)
  ultimately show ?thesis
    using t by (simp add: encodes_cell_def appendCell_def appendDecimal_def decodeCell_def type_id_defs)
qed

lemma enum_cell:
  assumes "scalar_codable t (VString s)"
  shows "\<exists>b. encodes_cell t (VString s) b"
proof -
  have t: "tID t = TypeEnum" and len: "length (tEnum t) \<le> 2 ^ 32" and "s \<in> set (tEnum t)"
    using assms by (simp_all add: scalar_codable_def)
  then obtain i where i: "enum_position s (tEnum t) = Some i" "i < length (tEnum t)" "tEnum t ! i = s"
    using enum_position_nth by blast
  have "decodeEnumCell t (enum_bytes (length (tEnum t)) i) = Ok (VString s)"
    using enum_roundtrip [OF i(2) len] i(3) by simp
  moreover have "length (enum_bytes (length (tEnum t)) i) = physicalWidth t"
    using t by (simp add: enum_bytes_def physicalWidth_def enumIndexWidth_def type_id_defs)
  ultimately have "encodes_cell t (VString s) (enum_bytes (length (tEnum t)) i)"
    using t i(1) by (simp add: encodes_cell_def appendCell_def decodeCell_def type_id_defs)
  then show ?thesis ..
qed

lemma bigint_cell:
  assumes "scalar_codable t (VBigInt i)"
  shows "\<exists>b. encodes_cell t (VBigInt i) b"
proof -
  consider (signed) "tID t = TypeHugeint" "fits_bits 128 i" | (unsigned) "tID t = TypeUHugeint" "0 \<le> i" "i < 2 ^ 128"
    using assms by (auto simp: scalar_codable_def Let_def)
  then show ?thesis
  proof cases
    case signed
    then obtain hi lo where i: "i = int128Big hi lo"
      using int128_halves [of i] by (auto simp: fits_bits_def)
    have "encodes_cell t (VBigInt i) (le_put 8 lo @ le_put 8 hi)"
      using signed(1) by (simp add: encodes_cell_def appendCell_def decodeCell_def physicalWidth_def
          i int128parts_signed type_id_defs)
    then show ?thesis ..
  next
    case unsigned
    then obtain hi lo where i: "i = uint128Big hi lo"
      using uint128_halves [of i] by blast
    have "encodes_cell t (VBigInt i) (le_put 8 lo @ le_put 8 hi)"
      using unsigned(1) by (simp add: encodes_cell_def appendCell_def decodeCell_def physicalWidth_def
          i int128parts_unsigned type_id_defs)
    then show ?thesis ..
  qed
qed

lemma time_cell:
  assumes "scalar_codable t (VGoTime ts)"
  shows "\<exists>b. encodes_cell t (VGoTime ts) b"
proof -
  have ts: "time_codable (tID t) ts"
    using assms by (simp add: scalar_codable_def)
  have "encodes_cell t (VGoTime ts)
      (if tID t = TypeDate then le_put 4 (date_days ts) else le_put 8 (timestamp_count (tID t) ts))"
    using time_roundtrip [OF ts]
    by (auto simp: encodes_cell_def appendCell_def decodeCell_def physicalWidth_def type_id_defs)
  then show ?thesis ..
qed

lemma scalar_cell:
  assumes "scalar_codable t v"
  shows "\<exists>b. encodes_cell t v b"
proof (cases v)
  case VNil
  then show ?thesis using assms null_cell by (simp add: scalar_codable_def)
next
  case (VTimeTZ tz)
  then show ?thesis
    using assms timetz_roundtrip [of "tzMicros tz" "timeTZMaxOffset - tzOffset tz"]
    by (auto simp: encodes_cell_def scalar_codable_def appendCell_def decodeCell_def physicalWidth_def type_id_defs)
next
  case (VUUID u)
  then show ?thesis
    using assms uuid_roundtrip [of u]
    by (auto simp: encodes_cell_def scalar_codable_def appendCell_def decodeCell_def physicalWidth_def type_id_defs)
qed (use assms decimal_cell enum_cell bigint_cell time_cell in \<open>(blast |
  auto simp: encodes_cell_def scalar_codable_def appendCell_def decodeCell_def physicalWidth_def type_id_defs)\<close>)

section \<open>Validity masks\<close>

lemma bit_or_push_1: "j < 8 \<Longrightarrow> bit ((b :: byte) OR 2 ^ j) k \<longleftrightarrow> bit b k \<or> k = j"
  by (auto simp: bit_simps)

lemma div_mod_8_eq: "k div 8 = i div 8 \<Longrightarrow> k mod 8 = i mod 8 \<longleftrightarrow> k = (i :: nat)"
  by (metis div_mult_mod_eq)

definition mark_valid :: "bytes \<Rightarrow> nat \<times> val \<Rightarrow> bytes" where
  "mark_valid m p = (case p of (i, v) \<Rightarrow> if v \<noteq> VNil then m[i div 8 := m ! (i div 8) OR push_bit (i mod 8) 1] else m)"

lemma length_mark_valid [simp]: "length (foldl mark_valid m ps) = length m"
  by (induction ps arbitrary: m) (auto simp: mark_valid_def)

lemma mark_valid_bits:
  assumes "k < 8 * length m"
  shows "bit (foldl mark_valid m ps ! (k div 8)) (k mod 8) \<longleftrightarrow>
    bit (m ! (k div 8)) (k mod 8) \<or> (\<exists>v. (k, v) \<in> set ps \<and> v \<noteq> VNil)"
  using assms
proof (induction ps arbitrary: m)
  case Nil
  then show ?case by simp
next
  case (Cons p ps)
  obtain i v where p: "p = (i, v)"
    by fastforce
  have "bit (mark_valid m (i, v) ! (k div 8)) (k mod 8) \<longleftrightarrow>
      bit (m ! (k div 8)) (k mod 8) \<or> (k = i \<and> v \<noteq> VNil)"
    using Cons.prems div_mod_8_eq [of k i]
    by (cases "k div 8 = i div 8") (auto simp: mark_valid_def bit_or_push_1)
  moreover have "length (mark_valid m (i, v)) = length m"
    by (simp add: mark_valid_def)
  ultimately show ?case
    using Cons.IH [of "mark_valid m (i, v)"] Cons.prems by (auto simp: p)
qed

lemma validityMask_fold:
  "validityMask vals = (if VNil \<notin> set vals then None
     else Some (foldl mark_valid (replicate ((length vals + 63) div 64 * 8) 0) (zip [0..<length vals] vals)))"
proof -
  have "mark_valid = (\<lambda>m (i, v). if v \<noteq> VNil then m[i div 8 := m ! (i div 8) OR push_bit (i mod 8) 1] else m)"
    by (simp add: mark_valid_def fun_eq_iff split: prod.splits)
  then show ?thesis
    by (simp add: validityMask_def)
qed

lemma mask_room: "(n + 7) div 8 \<le> (n + 63) div 64 * (8 :: nat)"
proof -
  let ?q = "(n + 63) div 64"
  have "n \<le> 64 * ?q"
    by linarith
  then have "(n + 7) div 8 \<le> (64 * ?q + 7) div 8"
    by (intro div_le_mono) simp
  then show ?thesis
    by simp
qed

lemma validityMask_covers: "mask_covers (validityMask vals) (length vals)"
  using mask_room by (simp add: validityMask_fold mask_covers_def)

lemma valid_validityMask:
  assumes "i < length vals"
  shows "valid (validityMask vals) i = Ok (vals ! i \<noteq> VNil)"
proof (cases "VNil \<in> set vals")
  case True
  let ?m = "replicate ((length vals + 63) div 64 * 8) (0 :: byte)"
  have i: "i < 8 * length ?m"
    using assms by simp
  then have "i div 8 < length ?m"
    by simp
  moreover have "(\<exists>v. (i, v) \<in> set (zip [0..<length vals] vals) \<and> v \<noteq> VNil) \<longleftrightarrow> vals ! i \<noteq> VNil"
    using assms by (auto simp: set_zip intro!: exI [of _ "vals ! i"] exI [of _ i])
  ultimately show ?thesis
    using True mark_valid_bits [OF i, of "zip [0..<length vals] vals"]
    by (simp add: valid_def validityMask_fold)
next
  case False
  then have "vals ! i \<noteq> VNil"
    using assms by (metis nth_mem)
  then show ?thesis
    using False by (simp add: valid_def validityMask_fold)
qed

section \<open>Bit strings\<close>

definition bit_char :: "bytes \<Rightarrow> nat \<Rightarrow> char" where
  "bit_char data q = (if bit (data ! (q div 8)) (7 - q mod 8) then CHR ''1'' else CHR ''0'')"

lemma bits_concat: "concat (map (byte_bits_from 0) data) = map (bit_char data) [0..<8 * length data]"
proof (induction data)
  case Nil
  then show ?case by simp
next
  case (Cons d data)
  have "[0..<8 * length (d # data)] = [0..<8] @ map (\<lambda>q. q + 8) [0..<8 * length data]"
    using upt_add_eq_append [of 0 8 "8 * length data"] by (simp add: map_add_upt add.commute)
  moreover have "map (bit_char (d # data)) [0..<8] = byte_bits_from 0 d"
    by (auto simp: byte_bits_from_def bit_char_def)
  moreover have "bit_char (d # data) (q + 8) = bit_char data q" for q
    by (simp add: bit_char_def)
  ultimately show ?case
    using Cons by (simp add: comp_def)
qed

lemma byte_bits_drop: "byte_bits_from p d = drop p (byte_bits_from 0 d)"
  by (simp add: byte_bits_from_def drop_map)

lemma bitString_drop:
  assumes "unat p \<le> 7" "data \<noteq> []"
  shows "bitString (p # data) = Ok (drop (unat p) (map (bit_char data) [0..<8 * length data]))"
proof -
  obtain d ds where data: "data = d # ds"
    using assms(2) by (cases data) auto
  have "byte_bits_from (unat p) d @ concat (map (byte_bits_from 0) ds)
      = drop (unat p) (concat (map (byte_bits_from 0) data))"
    using assms(1) by (simp add: data byte_bits_drop [of "unat p"]) (simp add: byte_bits_from_def)
  then show ?thesis
    unfolding bits_concat [symmetric] using assms(1) by (simp add: bitString_def data Let_def)
qed

lemma set_bits_result:
  assumes "set cs \<subseteq> {CHR ''0'', CHR ''1''}" "pos + length cs \<le> 8 * length data"
  shows "\<exists>data'. set_bits (p # data) pos cs = Some (p # data') \<and> length data' = length data \<and>
    (\<forall>q < 8 * length data. bit (data' ! (q div 8)) (7 - q mod 8) \<longleftrightarrow>
       bit (data ! (q div 8)) (7 - q mod 8) \<or> (pos \<le> q \<and> q < pos + length cs \<and> cs ! (q - pos) = CHR ''1''))"
  using assms
proof (induction cs arbitrary: pos data)
  case Nil
  then show ?case by auto
next
  case (Cons c cs)
  define data1 where "data1 = data[pos div 8 := data ! (pos div 8) OR (if c = CHR ''1'' then 2 ^ (7 - pos mod 8) else 0)]"
  have len: "length data1 = length data"
    by (simp add: data1_def)
  have bits1: "bit (data1 ! (q div 8)) (7 - q mod 8) \<longleftrightarrow> bit (data ! (q div 8)) (7 - q mod 8) \<or> (q = pos \<and> c = CHR ''1'')"
    if "q < 8 * length data" for q
  proof (cases "q div 8 = pos div 8")
    case True
    have "7 - q mod 8 = 7 - pos mod 8 \<longleftrightarrow> q mod 8 = pos mod 8"
      using mod_less_divisor [of 8 q] mod_less_divisor [of 8 pos] by linarith
    then show ?thesis
      using True that div_mod_8_eq [OF True] by (auto simp: data1_def bit_or_push_1)
  next
    case False
    then show ?thesis by (auto simp: data1_def)
  qed
  have "set_bits (p # data) pos (c # cs) = set_bits (p # data1) (pos + 1) cs"
    using Cons.prems(1) by (auto simp: data1_def Let_def)
  moreover obtain data' where "set_bits (p # data1) (pos + 1) cs = Some (p # data')" "length data' = length data1"
    "\<forall>q < 8 * length data1. bit (data' ! (q div 8)) (7 - q mod 8) \<longleftrightarrow>
       bit (data1 ! (q div 8)) (7 - q mod 8) \<or> (pos + 1 \<le> q \<and> q < pos + 1 + length cs \<and> cs ! (q - (pos + 1)) = CHR ''1'')"
    using Cons.IH [of "pos + 1" data1] Cons.prems len by auto
  moreover have "(c # cs) ! (q - pos) = (if q = pos then c else cs ! (q - (pos + 1)))" if "pos \<le> q" for q
    using that by (simp add: nth_Cons')
  ultimately show ?case
    using bits1 len by (intro exI [of _ data']) (auto split: if_splits)
qed

lemma pad_bits_result:
  assumes "n \<le> 7" "data \<noteq> []"
  shows "\<exists>data'. pad_bits n (p # data) = p # data' \<and> length data' = length data \<and>
    (\<forall>q. n \<le> q \<longrightarrow> bit_char data' q = bit_char data q)"
  using assms(1)
proof (induction n)
  case 0
  then show ?case by (simp add: pad_bits_def)
next
  case (Suc n)
  then obtain data1 where 1: "pad_bits n (p # data) = p # data1" "length data1 = length data"
    "\<And>q. n \<le> q \<Longrightarrow> bit_char data1 q = bit_char data q"
    by auto
  have "pad_bits (Suc n) (p # data) = p # data1[0 := data1 ! 0 OR 2 ^ (7 - n)]"
    using 1(1) by (simp add: pad_bits_def)
  moreover have "bit_char (data1[0 := data1 ! 0 OR 2 ^ (7 - n)]) q = bit_char data1 q" if "Suc n \<le> q" for q
    using that Suc.prems assms(2) 1(2) mod_less_divisor [of 8 q]
    by (cases "q div 8 = 0") (auto simp: bit_char_def bit_or_push_1)
  ultimately show ?case
    using 1 by auto
qed

lemma padding_fills: "8 * ((n + (8 - n mod 8) mod 8) div 8) = n + (8 - n mod 8) mod (8 :: nat)"
proof (cases "n mod 8 = 0")
  case True
  then show ?thesis
    using mult_div_mod_eq [of 8 n] by simp
next
  case False
  then have pad: "(8 - n mod 8) mod 8 = 8 - n mod 8"
    by simp
  have split: "r < 8 \<Longrightarrow> 8 * q + r = n \<Longrightarrow> n + (8 - r) = 8 * (q + 1)" for q r
    by simp
  have "n + (8 - n mod 8) = 8 * (n div 8 + 1)"
    by (rule split) simp_all
  then show ?thesis
    by (simp add: pad)
qed

lemma bitBlob_roundtrip:
  assumes "set s \<subseteq> {CHR ''0'', CHR ''1''}"
  shows "\<exists>b. bitBlob s = Some b \<and> bitString b = Ok s \<and> length b \<le> Suc (length s)"
proof (cases "s = []")
  case True
  then show ?thesis by (simp add: bitBlob_def bitString_def)
next
  case False
  define padding where "padding = (8 - length s mod 8) mod 8"
  define n where "n = (length s + padding) div 8"
  have "padding < 8"
    by (simp add: padding_def)
  then have pad: "padding \<le> 7"
    by simp
  have fill: "length s + padding = 8 * n"
    using padding_fills [of "length s"] by (simp add: padding_def n_def)
  then have n: "0 < n"
    using False fill by (cases n) auto
  let ?data = "replicate n (0 :: byte)"
  obtain data1 where 1: "set_bits (word_of_nat padding # ?data) padding s = Some (word_of_nat padding # data1)"
    "length data1 = n"
    "\<And>q. q < 8 * n \<Longrightarrow> bit (data1 ! (q div 8)) (7 - q mod 8) \<longleftrightarrow> (padding \<le> q \<and> q < padding + length s \<and> s ! (q - padding) = CHR ''1'')"
    using set_bits_result [OF assms, of padding ?data "word_of_nat padding"] pad fill by auto
  obtain data2 where 2: "pad_bits padding (word_of_nat padding # data1) = word_of_nat padding # data2"
    "length data2 = n" "\<And>q. padding \<le> q \<Longrightarrow> bit_char data2 q = bit_char data1 q"
    using pad_bits_result [OF pad, of data1 "word_of_nat padding"] 1(2) n by auto
  have blob: "bitBlob s = Some (word_of_nat padding # data2)"
    using False 1(1) 2(1) by (simp add: bitBlob_def Let_def flip: padding_def n_def)
  have p: "unat (word_of_nat padding :: byte) = padding"
    using pad by (simp add: unat_of_nat take_bit_nat_eq_self)
  have "drop padding (map (bit_char data2) [0..<8 * n]) = s"
  proof (rule nth_equalityI)
    fix i assume "i < length (drop padding (map (bit_char data2) [0..<8 * n]))"
    then have i: "i < length s"
      using fill by simp
    then have "bit_char data2 (padding + i) = (if s ! i = CHR ''1'' then CHR ''1'' else CHR ''0'')"
      using 1(3) [of "padding + i"] 2(3) [of "padding + i"] fill by (simp add: bit_char_def)
    moreover have "s ! i \<in> {CHR ''0'', CHR ''1''}"
      using assms i nth_mem by blast
    ultimately show "drop padding (map (bit_char data2) [0..<8 * n]) ! i = s ! i"
      using i fill by auto
  qed (use fill in simp)
  then have "bitString (word_of_nat padding # data2) = Ok s"
    using bitString_drop [of "word_of_nat padding" data2] p pad 2(2) n by auto
  moreover have "n \<le> length s"
    using fill n pad by linarith
  ultimately show ?thesis
    using blob 2(2) by auto
qed

end
