(* ===== verification/Vector_Roundtrip.thy ===== *)
theory Vector_Roundtrip
  imports Cell_Roundtrip
begin

text \<open>
  The vectors that \<open>writeVector\<close> writes decode to the values they were made from.
  \<open>encodes_vector\<close> is the contract between the two; each kind of vector keeps it when its
  children do, and an induction on the type closes the circle.  \<open>vec_codable\<close> is the set of
  columns the encoder is meant for.
\<close>

section \<open>Validity\<close>

definition put_validity :: "val list \<Rightarrow> bytes" where
  "put_validity vals =
     (case validityMask vals of
        None \<Rightarrow> le_put 2 (100 :: u16) @ put_bool False
      | Some bits \<Rightarrow> le_put 2 (100 :: u16) @ put_bool True @ le_put 2 (101 :: u16) @ put_bytes bits)"

lemma write_validity_put: "write_validity w vals = w @ put_validity vals"
  by (simp add: write_validity_def put_validity_def writer_appends split: option.splits)

lemma put_validity_nonempty [simp]: "put_validity vals \<noteq> []"
  by (simp add: put_validity_def put_bool_def split: option.splits)

lemma validityMask_len:
  assumes "validityMask vals = Some bits" "length vals \<le> maxVectorRows"
  shows "go_len bits"
proof -
  have "length bits = (length vals + 63) div 64 * 8"
    using assms(1) by (auto simp: validityMask_fold split: if_splits)
  then show ?thesis
    using assms(2) by (simp add: go_len_def maxVectorRows_def)
qed

text \<open>The arm of \<open>decodeFlatVector\<close> that the type selects, after the validity fields.\<close>

definition flat_arm :: "vector_decoder \<Rightarrow> logical_type \<Rightarrow> nat \<Rightarrow> bytes option \<Rightarrow> val list decoder" where
  "flat_arm dv t count validity =
     (if tID t \<in> {TypeVarchar, TypeBlob, TypeBit, TypeGeometry} then decodeFlatStrings t count False validity
      else if tID t \<in> {TypeStruct, TypeUnion, TypeVariant} then decodeFlatStruct dv t count False validity
      else if tID t \<in> {TypeList, TypeMap} then decodeFlatList dv t count False validity
      else if tID t = TypeArray then decodeFlatArray dv t count False validity
      else decodeFlatScalar t count False validity)"

lemma decodeFlatVector_rd:
  assumes "length vals \<le> maxVectorRows"
  shows "decodeFlatVector dv t (length vals) (rd pre (put_validity vals @ ys))
    = flat_arm dv t (length vals) (validityMask vals) (rd (pre @ put_validity vals) ys)"
proof (cases "validityMask vals")
  case None
  then show ?thesis
    by (simp add: decodeFlatVector_def flat_arm_def decodeValidity_def put_validity_def wire_simps Let_def)
next
  case (Some bits)
  moreover have "(length vals + 7) div 8 \<le> length bits"
    using validityMask_covers [of vals] Some by (simp add: mask_covers_def)
  ultimately show ?thesis
    using validityMask_len [OF Some assms]
    by (simp add: decodeFlatVector_def flat_arm_def decodeValidity_def put_validity_def wire_simps Let_def)
qed

lemma put_validity_field: "\<exists>rest. put_validity vals @ zs = le_put 2 (100 :: u16) @ rest"
  by (simp add: put_validity_def split: option.splits)

lemma decodeVector_flat_rd:
  assumes "depth \<le> maxTypeDepth" "length vals \<le> maxVectorRows"
  shows "decodeVector depth t (length vals) (rd pre (put_validity vals @ ys))
    = flat_arm (decodeVector (Suc depth)) t (length vals) (validityMask vals) (rd (pre @ put_validity vals) ys)"
proof -
  obtain rest where "put_validity vals @ ys = le_put 2 (100 :: u16) @ rest"
    using put_validity_field by blast
  then have "opt_field (rd pre (put_validity vals @ ys)) 90 Reader_Uvarint vecFlat = (vecFlat, rd pre (put_validity vals @ ys))"
    by (simp add: wire_simps)
  then show ?thesis
    using assms by (subst decodeVector.simps) (simp add: decodeFlatVector_rd)
qed

section \<open>Variable-width vectors\<close>

text \<open>The bytes of one variable-width entry.\<close>

definition string_payload :: "type_id \<Rightarrow> val \<Rightarrow> bytes option" where
  "string_payload tid v =
     (case v of VNil \<Rightarrow> Some []
      | VString s \<Rightarrow> (if tid = TypeBit then bitBlob s else Some (go_bytes s))
      | VBytes b \<Rightarrow> Some b
      | _ \<Rightarrow> None)"

definition string_codable :: "type_id \<Rightarrow> val \<Rightarrow> bool" where
  "string_codable tid v =
     (case v of VNil \<Rightarrow> True
      | VString s \<Rightarrow>
          (tid = TypeVarchar \<and> go_len s) \<or>
          (tid = TypeBit \<and> list_all (\<lambda>c. c = CHR ''0'' \<or> c = CHR ''1'') s \<and> length s + 1 < 2 ^ 63)
      | VBytes b \<Rightarrow> tid = TypeBlob \<and> go_len b
      | _ \<Rightarrow> False)"

definition encodes_string :: "logical_type \<Rightarrow> val \<Rightarrow> bytes \<Rightarrow> bool" where
  "encodes_string t v b \<longleftrightarrow>
     string_payload (tID t) v = Some b \<and> go_len b \<and> (v \<noteq> VNil \<longrightarrow> string_cell t b = Ok v)"

lemma string_entry:
  assumes "string_codable (tID t) v"
  shows "\<exists>b. encodes_string t v b"
proof (cases v)
  case (VString s)
  show ?thesis
  proof (cases "tID t = TypeBit")
    case True
    then have "set s \<subseteq> {CHR ''0'', CHR ''1''}" "length s + 1 < 2 ^ 63"
      using assms VString by (auto simp: string_codable_def list_all_iff type_id_defs)
    then obtain b where "bitBlob s = Some b" "bitString b = Ok s" "length b \<le> Suc (length s)"
      using bitBlob_roundtrip by blast
    then have "encodes_string t v b"
      using True VString \<open>length s + 1 < 2 ^ 63\<close>
      by (simp add: encodes_string_def string_payload_def string_cell_def go_len_def type_id_defs)
    then show ?thesis ..
  next
    case False
    then have "encodes_string t v (go_bytes s)"
      using assms VString
      by (simp add: encodes_string_def string_payload_def string_cell_def string_codable_def go_len_def type_id_defs)
    then show ?thesis ..
  qed
qed (use assms in \<open>auto simp: encodes_string_def string_payload_def string_cell_def string_codable_def
  go_len_def type_id_defs\<close>)

lemma writeStrings_put:
  assumes "list_all2 (\<lambda>v b. string_payload tid v = Some b) vals bs"
  shows "writeStrings tid w vals = Some (w @ concat (map put_bytes bs))"
  using assms
proof (induction vals bs arbitrary: w rule: list_all2_induct)
  case Nil
  then show ?case by simp
next
  case (Cons v vs b bs)
  have "writeStrings tid w (v # vs) = writeStrings tid (w @ put_bytes b) vs"
    using Cons.hyps by (cases v) (auto simp: string_payload_def writer_appends put_string_def split: if_splits)
  then show ?case
    using Cons.IH by simp
qed

lemma decodeStrings_rd:
  assumes "list_all2 (encodes_string t) vals bs"
    and "\<And>k. k < length vals \<Longrightarrow> valid validity (i + k) = Ok (vals ! k \<noteq> VNil)"
  shows "decodeStrings t False validity i (length vals) (rd pre (concat (map put_bytes bs) @ ys))
    = (Ok vals, rd (pre @ concat (map put_bytes bs)) ys)"
  using assms
proof (induction vals bs arbitrary: i pre rule: list_all2_induct)
  case Nil
  then show ?case by simp
next
  case (Cons v vs b bs)
  have b: "Reader_Bytes (rd pre (put_bytes b @ zs)) = (b, rd (pre @ put_bytes b) zs)" for zs
    using Cons.hyps(1) by (intro Bytes_rd) (simp add: encodes_string_def)
  have "valid validity (Suc i + k) = Ok (vs ! k \<noteq> VNil)" if "k < length vs" for k
    using Cons.prems [of "Suc k"] that by simp
  then have IH: "decodeStrings t False validity (Suc i) (length vs) (rd (pre @ put_bytes b) (concat (map put_bytes bs) @ ys))
      = (Ok vs, rd ((pre @ put_bytes b) @ concat (map put_bytes bs)) ys)"
    by (intro Cons.IH) simp
  have "go_bind (valid validity i) (\<lambda>ok. if \<not> ok \<or> False then Ok VNil else string_cell t b) = Ok v"
    using Cons.prems [of 0] Cons.hyps(1) by (auto simp: encodes_string_def)
  then show ?case
    using IH by (simp add: b)
qed

section \<open>The contract of an encoded vector\<close>

text \<open>
  The writer appends \<open>b\<close>, and the decoder, at every depth the type leaves room for, reads
  \<open>b\<close> back as \<open>vals\<close>, whatever follows.
\<close>

definition encodes_vector :: "logical_type \<Rightarrow> val list \<Rightarrow> bytes \<Rightarrow> bool" where
  "encodes_vector t vals b \<longleftrightarrow>
     (\<forall>w. writeVector w t vals = Some (w @ b)) \<and> b \<noteq> [] \<and>
     (\<forall>depth pre ys. depth + type_depth t \<le> maxTypeDepth \<longrightarrow>
        decodeVector depth t (length vals) (rd pre (b @ ys)) = (Ok vals, rd (pre @ b) ys))"

lemma encodes_vectorI:
  assumes "length vals \<le> maxVectorRows"
    and "\<And>w. writeVector w t vals = Some (w @ put_validity vals @ body)"
    and "\<And>depth pre ys. depth + type_depth t \<le> maxTypeDepth \<Longrightarrow>
      flat_arm (decodeVector (Suc depth)) t (length vals) (validityMask vals) (rd pre (body @ ys))
        = (Ok vals, rd (pre @ body) ys)"
  shows "encodes_vector t vals (put_validity vals @ body)"
  using assms by (simp add: encodes_vector_def decodeVector_flat_rd)

lemma valid_rows: "k < length vals \<Longrightarrow> valid (validityMask vals) (0 + k) = Ok (vals ! k \<noteq> VNil)"
  by (simp add: valid_validityMask)

lemma encodes_strings:
  assumes "tID t \<in> {TypeVarchar, TypeBlob, TypeBit}" "length vals \<le> maxVectorRows"
    and "list_all (string_codable (tID t)) vals"
  shows "\<exists>b. encodes_vector t vals b"
proof -
  obtain bs where bs: "list_all2 (encodes_string t) vals bs"
    using assms(3) list_all2_choose [of vals "encodes_string t"] string_entry by (auto simp: list_all_iff)
  then have payloads: "list_all2 (\<lambda>v b. string_payload (tID t) v = Some b) vals bs"
    by (rule list_all2_mono) (simp add: encodes_string_def)
  let ?body = "le_put 2 (102 :: u16) @ put_uvarint (word_of_nat (length vals)) @ concat (map put_bytes bs)"
  have small: "length vals < 2 ^ 63"
    using assms(2) by (simp add: maxVectorRows_def)
  have "length vals \<le> length (concat (map put_bytes bs))"
    using length_concat_ge [of bs put_bytes] list_all2_lengthD [OF bs] by (simp add: Suc_leI)
  then have "flat_arm dv t (length vals) (validityMask vals) (rd pre (?body @ ys)) = (Ok vals, rd (pre @ ?body) ys)" for dv pre ys
    using assms(1) small decodeStrings_rd [OF bs valid_rows]
    by (auto simp: flat_arm_def decodeFlatStrings_def wire_simps Let_def type_id_defs)
  moreover have "writeVector w t vals = Some (w @ put_validity vals @ ?body)" for w
    using assms(1) writeStrings_put [OF payloads] by (cases t) (auto simp: write_validity_put writer_appends)
  ultimately have "encodes_vector t vals (put_validity vals @ ?body)"
    by (intro encodes_vectorI assms(2)) simp_all
  then show ?thesis ..
qed

section \<open>Fixed-width vectors\<close>

lemma concat_slice:
  assumes "\<And>b. b \<in> set bs \<Longrightarrow> length b = w" "i < length bs"
  shows "take w (drop (i * w) (concat bs)) = bs ! i"
  using assms
proof (induction bs arbitrary: i)
  case (Cons b bs)
  then show ?case by (cases i) (auto simp: add.commute)
qed simp

lemma length_concat_const: "(\<And>b. b \<in> set bs \<Longrightarrow> length b = w) \<Longrightarrow> length (concat bs) = length bs * w"
  by (induction bs) auto

lemma appendCells_put:
  assumes "list_all2 (encodes_cell t) vals bs"
  shows "appendCells data t vals = Some (data @ concat bs)"
  using assms by (induction vals bs arbitrary: data rule: list_all2_induct) (simp_all add: encodes_cell_def)

lemma scalar_row_rd:
  assumes bs: "list_all2 (encodes_cell t) vals bs" and i: "i < length vals"
  shows "scalar_row t (physicalWidth t) (concat bs) (validityMask vals) i = Ok (vals ! i)"
proof -
  have width: "length b = physicalWidth t" if "b \<in> set bs" for b
    using bs that by (auto simp: list_all2_conv_all_nth in_set_conv_nth encodes_cell_def)
  have len: "length bs = length vals"
    using list_all2_lengthD [OF bs] by simp
  have cell: "encodes_cell t (vals ! i) (bs ! i)"
    using bs i by (rule list_all2_nthD)
  have "(i + 1) * physicalWidth t \<le> length bs * physicalWidth t"
    using i len by (intro mult_right_mono) simp_all
  then have "go_slice (concat bs) (i * physicalWidth t) ((i + 1) * physicalWidth t) = (Ok (bs ! i) :: (codec_error, bytes) go)"
    using concat_slice [of bs "physicalWidth t" i, OF width] i len by (simp add: go_slice_def length_concat_const [OF width])
  then show ?thesis
    using cell valid_validityMask [OF i] by (auto simp: scalar_row_def encodes_cell_def)
qed

lemma encodes_scalars:
  assumes "supportedScalar t" "length vals \<le> maxVectorRows" and "list_all (scalar_codable t) vals"
  shows "\<exists>b. encodes_vector t vals b"
proof -
  obtain bs where bs: "list_all2 (encodes_cell t) vals bs"
    using assms(3) list_all2_choose [of vals "encodes_cell t"] scalar_cell by (auto simp: list_all_iff)
  have width: "length b = physicalWidth t" if "b \<in> set bs" for b
    using bs that by (auto simp: list_all2_conv_all_nth in_set_conv_nth encodes_cell_def)
  have w: "0 < physicalWidth t" "physicalWidth t \<le> 16"
    using assms(1) by (auto simp: supportedScalar_def physicalWidth_def enumIndexWidth_def type_id_defs)
  have len: "length (concat bs) = length vals * physicalWidth t"
    using length_concat_const [OF width] list_all2_lengthD [OF bs] by simp
  have "length vals * physicalWidth t \<le> maxVectorRows * 16"
    using assms(2) w(2) by (rule mult_le_mono)
  then have golen: "go_len (concat bs)"
    by (simp add: go_len_def len maxVectorRows_def)
  let ?body = "le_put 2 (102 :: u16) @ put_bytes (concat bs)"
  have rows: "go_map (scalar_row t (physicalWidth t) (concat bs) (validityMask vals)) [0..<length vals]
      = (Ok vals :: (codec_error, val list) go)"
    by (rule go_map_nth) (rule scalar_row_rd [OF bs])
  have arm: "flat_arm dv t n validity = decodeFlatScalar t n False validity" for dv n validity
    using assms(1) by (auto simp: flat_arm_def supportedScalar_def type_id_defs)
  have "flat_arm dv t (length vals) (validityMask vals) (rd pre (?body @ ys)) = (Ok vals, rd (pre @ ?body) ys)" for dv pre ys
    using assms(1) w(1) golen rows len by (simp add: arm decodeFlatScalar_def wire_simps Let_def)
  moreover have "writeVector w t vals = Some (w @ put_validity vals @ ?body)" for w
    using assms(1) appendCells_put [OF bs, of "[]"]
    by (cases t) (auto simp: write_validity_put writer_appends supportedScalar_def type_id_defs)
  ultimately have "encodes_vector t vals (put_validity vals @ ?body)"
    by (intro encodes_vectorI assms(2)) simp_all
  then show ?thesis ..
qed

section \<open>Lists and maps\<close>

definition put_list_entry :: "u64 \<times> u64 \<Rightarrow> bytes" where
  "put_list_entry e =
     le_put 2 (100 :: u16) @ put_uvarint (fst e) @ le_put 2 (101 :: u16) @ put_uvarint (snd e) @ le_put 2 EndID"

interpretation entry_codec: wire_codec put_list_entry read_list_entry "\<lambda>_. True"
  by unfold_locales (simp add: put_list_entry_def read_list_entry_def wire_simps)

lemma foldl_write_list_entry: "foldl write_list_entry w es = w @ concat (map put_list_entry es)"
  by (induction es arbitrary: w) (simp_all add: write_list_entry_def put_list_entry_def writer_appends)

lemma concat_window:
  assumes "i < length rows"
  shows "take (length (rows ! i)) (drop (length (concat (take i rows))) (concat rows)) = rows ! i"
    and "length (concat (take i rows)) + length (rows ! i) \<le> length (concat rows)"
proof -
  have "concat rows = concat (take i rows) @ rows ! i @ concat (drop (Suc i) rows)"
    using arg_cong [OF id_take_nth_drop [OF assms], of concat] by simp
  then show "take (length (rows ! i)) (drop (length (concat (take i rows))) (concat rows)) = rows ! i"
    "length (concat (take i rows)) + length (rows ! i) \<le> length (concat rows)"
    by simp_all
qed

lemma flatten_rows_result:
  assumes "list_all2 (\<lambda>v row. list_elems ch v = Some row) vals rows"
  shows "flatten_rows ch child vals = Some (child @ concat rows,
    map (\<lambda>i. (word_of_nat (length child + length (concat (take i rows))), word_of_nat (length (rows ! i)))) [0..<length rows])"
  using assms
proof (induction vals rows arbitrary: child rule: list_all2_induct)
  case Nil
  then show ?case by simp
next
  case (Cons v vs row rows)
  have "[0..<length (row # rows)] = 0 # map Suc [0..<length rows]"
    by (simp add: upt_conv_Cons map_Suc_upt del: upt_Suc)
  then show ?case
    using Cons by (simp add: comp_def add.assoc)
qed

lemma list_row_rd:
  assumes "a + n \<le> length child" "length child \<le> maxVectorRows" and row: "take n (drop a child) = row"
    and "valid validity i = Ok True"
  shows "list_row t (word_of_nat (length child)) child validity (i, word_of_nat a, word_of_nat n)
    = Ok (if tID t = TypeMap then VMap (map map_entry row) else VList row)"
proof -
  have small: "length child < 2 ^ 63" "a < 2 ^ 63" "n < 2 ^ 63" "a + n < 2 ^ 63"
    using assms(1,2) by (simp_all add: maxVectorRows_def)
  have len: "word_of_nat n \<le> (word_of_nat (length child) :: u64)"
    using small assms(1) by (simp add: word_le_nat_alt)
  then have "unat (word_of_nat (length child) - word_of_nat n :: u64) = length child - n"
    using small by (simp add: unat_sub)
  then have fits: "\<not> ((word_of_nat n :: u64) > word_of_nat (length child) \<or>
      (word_of_nat a :: u64) > word_of_nat (length child) - word_of_nat n)"
    using len small assms(1) by (simp add: word_less_nat_alt not_less)
  have sum: "unat (word_of_nat a + word_of_nat n :: u64) = a + n"
    using small(4) by (simp flip: of_nat_add)
  have index: "unat (word_of_nat a + word_of_nat j :: u64) = a + j" if "j < n" for j
    using small(4) that by (simp flip: of_nat_add)
  have n: "n = length row" and nth: "\<And>j. j < n \<Longrightarrow> child ! (a + j) = row ! j"
    using row assms(1) by auto
  have elems: "go_map (\<lambda>j. go_index child (unat (word_of_nat a + word_of_nat j :: u64))) [0..<n]
      = (Ok row :: (codec_error, val list) go)"
    unfolding n by (rule go_map_nth) (use index nth n assms(1) in simp)
  show ?thesis
    using fits elems assms(1,4) row small
    by (auto simp: list_row_def go_slice_def sum)
qed

lemma null_rows:
  assumes "valid validity i = Ok False"
  shows "list_row t listSize child validity (i, e) = Ok VNil" and "array_row sz child validity i = Ok VNil"
    and "struct_row fds children validity i = Ok VNil"
  using assms by (cases e; simp add: list_row_def array_row_def struct_row_def)+

lemma type_depth_child_less: "tChild t = Some c \<Longrightarrow> type_depth c < type_depth t"
  by (cases t) (auto simp: type_depth.simps)

text \<open>The row a LIST or MAP value is rebuilt as, from the elements it was flattened to.\<close>

definition list_value :: "logical_type \<Rightarrow> val list \<Rightarrow> val" where
  "list_value t row = (if tID t = TypeMap then VMap (map map_entry row) else VList row)"

lemma encodes_list_vector:
  assumes t: "tID t \<in> {TypeList, TypeMap}" "tChild t = Some c"
    and len: "length vals \<le> maxVectorRows" "length (concat rows) \<le> maxVectorRows"
    and rows: "list_all2 (\<lambda>v row. list_elems (Some c) v = Some row \<and> (v \<noteq> VNil \<longrightarrow> v = list_value t row)) vals rows"
    and child: "encodes_vector c (concat rows) cb"
  shows "\<exists>b. encodes_vector t vals b"
proof -
  define entries :: "(u64 \<times> u64) list" where
    "entries = map (\<lambda>i. (word_of_nat (length (concat (take i rows))), word_of_nat (length (rows ! i)))) [0..<length rows]"
  have nrows: "length rows = length vals"
    using list_all2_lengthD [OF rows] by simp
  have flat: "flatten_rows (Some c) [] vals = Some (concat rows, entries)"
    using flatten_rows_result [of "Some c" vals rows "[]"] list_all2_mono [OF rows]
    by (simp add: entries_def)
  let ?body = "le_put 2 (104 :: u16) @ put_uvarint (word_of_nat (length (concat rows))) @
    le_put 2 (105 :: u16) @ put_uvarint (word_of_nat (length entries)) @ concat (map put_list_entry entries) @
    le_put 2 (106 :: u16) @ cb @ le_put 2 EndID"
  have row: "list_row t (word_of_nat (length (concat rows))) (concat rows) (validityMask vals) (zip [0..<length vals] entries ! i)
      = Ok (vals ! i)" if i: "i < length vals" for i
  proof -
    have e: "zip [0..<length vals] entries ! i
        = (i, word_of_nat (length (concat (take i rows))), word_of_nat (length (rows ! i)))"
      using i nrows by (simp add: entries_def)
    have v: "vals ! i \<noteq> VNil \<Longrightarrow> vals ! i = list_value t (rows ! i)"
      using list_all2_nthD [OF rows i] by simp
    show ?thesis
      using valid_validityMask [OF i] v null_rows(1) concat_window [of i rows] i nrows len(2)
        list_row_rd [of "length (concat (take i rows))" "length (rows ! i)" "concat rows" "rows ! i" "validityMask vals" i t]
      by (cases "vals ! i = VNil") (simp_all add: e list_value_def)
  qed
  have all: "go_map (list_row t (word_of_nat (length (concat rows))) (concat rows) (validityMask vals)) (zip [0..<length vals] entries)
      = Ok vals"
    using row nrows by (intro go_map_all) (simp add: list_all2_conv_all_nth entries_def)
  have small: "length (concat rows) < 2 ^ 63" "length entries < 2 ^ 63" "length entries = length vals"
    using len nrows by (simp_all add: entries_def maxVectorRows_def)
  have "length entries \<le> length (concat (map put_list_entry entries))"
    by (rule length_concat_ge) (simp add: put_list_entry_def)
  then have count: "ListCount (rd pre (put_uvarint (word_of_nat (length entries)) @ concat (map put_list_entry entries) @ zs))
      = (length entries, rd (pre @ put_uvarint (word_of_nat (length entries))) (concat (map put_list_entry entries) @ zs))" for pre zs
    using small(2) by (intro ListCount_rd) simp_all
  have arm: "flat_arm dv t n validity = decodeFlatList dv t n False validity" for dv n validity
    using t(1) by (auto simp: flat_arm_def type_id_defs)
  have "flat_arm (decodeVector (Suc depth)) t (length vals) (validityMask vals) (rd pre (?body @ ys)) = (Ok vals, rd (pre @ ?body) ys)"
    if "depth + type_depth t \<le> maxTypeDepth" for depth pre ys
  proof -
    have "decodeVector (Suc depth) c (length (concat rows)) (rd p (cb @ zs)) = (Ok (concat rows), rd (p @ cb) zs)" for p zs
      using child that type_depth_child_less [OF t(2)] by (simp add: encodes_vector_def)
    then show ?thesis
      using small(1,2) small(3) [symmetric] len(2) t(2) all
      by (simp add: arm decodeFlatList_def wire_simps Let_def count entry_codec.dec_enc_list finish_nested_def list_all_iff)
  qed
  moreover have "writeVector w t vals = Some (w @ put_validity vals @ ?body)" for w
    using t child flat
    by (cases t) (auto simp: write_validity_put writer_appends foldl_write_list_entry encodes_vector_def type_id_defs)
  ultimately have "encodes_vector t vals (put_validity vals @ ?body)"
    by (intro encodes_vectorI len(1)) simp_all
  then show ?thesis ..
qed

section \<open>Arrays\<close>

lemma flatten_array_result:
  assumes "list_all2 (\<lambda>v row. length row = sz \<and> (v = VNil \<and> row = replicate sz VNil \<or> v = VList row)) vals rows"
  shows "flatten_array sz vals = Some (concat rows)"
  using assms by (induction vals rows rule: list_all2_induct) auto

lemma encodes_array_vector:
  assumes t: "tID t = TypeArray" "tChild t = Some c" "unat (tArraySize t) = sz"
    and len: "length vals \<le> maxVectorRows" "sz \<le> maxVectorRows" "sz * length vals \<le> maxVectorRows"
    and rows: "list_all2 (\<lambda>v row. length row = sz \<and> (v = VNil \<and> row = replicate sz VNil \<or> v = VList row)) vals rows"
    and child: "encodes_vector c (concat rows) cb"
  shows "\<exists>b. encodes_vector t vals b"
proof -
  have nrows: "length rows = length vals"
    using list_all2_lengthD [OF rows] by simp
  have width: "length row = sz" if "row \<in> set rows" for row
    using rows that by (auto simp: list_all2_conv_all_nth in_set_conv_nth)
  have total: "length (concat rows) = sz * length vals"
    using length_concat_const [OF width] nrows by simp
  let ?body = "le_put 2 (103 :: u16) @ put_uvarint (word_of_nat sz) @ le_put 2 (104 :: u16) @ cb @ le_put 2 EndID"
  have row: "array_row sz (concat rows) (validityMask vals) i = Ok (vals ! i)" if i: "i < length vals" for i
  proof (cases "vals ! i = VNil")
    case True
    then show ?thesis
      using valid_validityMask [OF i] null_rows(2) by simp
  next
    case False
    then have "vals ! i = VList (rows ! i)"
      using list_all2_nthD [OF rows i] by auto
    moreover have "take sz (drop (i * sz) (concat rows)) = rows ! i"
      using concat_slice [of rows sz i, OF width] i nrows by simp
    moreover have "(i + 1) * sz \<le> length (concat rows)"
      using mult_right_mono [of "i + 1" "length vals" sz] i by (simp add: total mult.commute)
    ultimately show ?thesis
      using valid_validityMask [OF i] False by (simp add: array_row_def go_slice_def)
  qed
  have all: "go_map (array_row sz (concat rows) (validityMask vals)) [0..<length vals] = Ok vals"
    by (rule go_map_nth) (rule row)
  have small: "sz < 2 ^ 63"
    using len by (simp add: maxVectorRows_def)
  have arm: "flat_arm dv t n validity = decodeFlatArray dv t n False validity" for dv n validity
    using t(1) by (auto simp: flat_arm_def type_id_defs)
  have "flat_arm (decodeVector (Suc depth)) t (length vals) (validityMask vals) (rd pre (?body @ ys)) = (Ok vals, rd (pre @ ?body) ys)"
    if "depth + type_depth t \<le> maxTypeDepth" for depth pre ys
  proof -
    have "decodeVector (Suc depth) c (sz * length vals) (rd p (cb @ zs)) = (Ok (concat rows), rd (p @ cb) zs)" for p zs
      using child that type_depth_child_less [OF t(2)] total by (simp add: encodes_vector_def)
    then show ?thesis
      using small len(2,3) t(2) all
      by (simp add: arm decodeFlatArray_def wire_simps Let_def finish_nested_def)
  qed
  moreover have "writeVector w t vals = Some (w @ put_validity vals @ ?body)" for w
    using t child flatten_array_result [OF rows]
    by (cases t) (auto simp: write_validity_put writer_appends encodes_vector_def type_id_defs)
  ultimately have "encodes_vector t vals (put_validity vals @ ?body)"
    by (intro encodes_vectorI len(1)) simp_all
  then show ?thesis ..
qed

section \<open>Structs\<close>

text \<open>Child \<open>j\<close> of a struct row; a NULL row is NULL in every child.\<close>

definition struct_cell :: "nat \<Rightarrow> val \<Rightarrow> val" where
  "struct_cell j v = (case v of VStruct es \<Rightarrow> snd (es ! j) | _ \<Rightarrow> VNil)"

definition struct_shaped :: "(string \<times> logical_type) list \<Rightarrow> val \<Rightarrow> bool" where
  "struct_shaped fds v = (case v of VNil \<Rightarrow> True | VStruct es \<Rightarrow> map fst es = map fst fds | _ \<Rightarrow> False)"

lemma struct_column_result:
  assumes "list_all (struct_shaped fds) vals" "j < length fds"
  shows "struct_column j vals = Some (map (struct_cell j) vals)"
  using assms(1)
proof (induction vals)
  case (Cons v vals)
  have "length es = length fds" if "v = VStruct es" for es
    using Cons.prems that map_eq_imp_length_eq by (force simp: struct_shaped_def)
  then show ?case
    using Cons assms(2) by (cases v) (auto simp: struct_shaped_def struct_cell_def)
qed simp

text \<open>The child vectors of fields \<open>j\<close> and up.\<close>

definition encodes_children :: "val list \<Rightarrow> nat \<Rightarrow> (string \<times> logical_type) list \<Rightarrow> bytes list \<Rightarrow> bool" where
  "encodes_children vals j fds cbs \<longleftrightarrow>
     list_all2 (\<lambda>(k, (name, t)) cb. encodes_vector t (map (struct_cell k) vals) cb) (zip [j..<j + length fds] fds) cbs"

definition put_children :: "bytes list \<Rightarrow> bytes" where
  "put_children cbs = concat (map (\<lambda>cb. cb @ le_put 2 EndID) cbs)"

lemma zip_upt_Cons: "zip [j..<j + length (f # fs)] (f # fs) = (j, f) # zip [Suc j..<Suc j + length fs] fs"
  by (simp add: upt_conv_Cons del: upt_Suc)

lemma writeChildren_put:
  assumes "encodes_children vals j fds cbs" "list_all (struct_shaped all) vals" "j + length fds \<le> length all"
  shows "writeChildren w j fds vals = Some (w @ put_children cbs)"
  using assms(1,3)
proof (induction fds arbitrary: j cbs w)
  case Nil
  then show ?case by (simp add: encodes_children_def put_children_def)
next
  case (Cons f fds)
  obtain name t where f: "f = (name, t)"
    by fastforce
  from Cons.prems(1) obtain cb cbs' where cbs: "cbs = cb # cbs'" "encodes_vector t (map (struct_cell j) vals) cb"
    "encodes_children vals (Suc j) fds cbs'"
    unfolding encodes_children_def zip_upt_Cons f by (auto simp: list_all2_Cons1)
  have "struct_column j vals = Some (map (struct_cell j) vals)"
    using struct_column_result [OF assms(2)] Cons.prems(2) by simp
  then show ?case
    using cbs Cons.IH [OF cbs(3)] Cons.prems(2)
    by (simp add: f encodes_vector_def writer_appends put_children_def)
qed

lemma decodeChildren_rd:
  assumes "encodes_children vals j fds cbs" "\<And>name t. (name, t) \<in> set fds \<Longrightarrow> depth + type_depth t \<le> maxTypeDepth"
  shows "decodeChildren (decodeVector depth) (length vals) fds (rd pre (put_children cbs @ ys))
    = (Ok (map (\<lambda>k. map (struct_cell k) vals) [j..<j + length fds], False), rd (pre @ put_children cbs) ys)"
  using assms
proof (induction fds arbitrary: j cbs pre)
  case Nil
  then show ?case by (simp add: encodes_children_def put_children_def)
next
  case (Cons f fds)
  obtain name t where f: "f = (name, t)"
    by fastforce
  from Cons.prems(1) obtain cb cbs' where cbs: "cbs = cb # cbs'" "encodes_vector t (map (struct_cell j) vals) cb"
    "encodes_children vals (Suc j) fds cbs'"
    unfolding encodes_children_def zip_upt_Cons f by (auto simp: list_all2_Cons1)
  have "depth + type_depth t \<le> maxTypeDepth"
    using Cons.prems(2) [of name t] by (simp add: f)
  then have "decodeVector depth t (length vals) (rd pre (cb @ zs)) = (Ok (map (struct_cell j) vals), rd (pre @ cb) zs)" for zs
    using cbs(2) by (simp add: encodes_vector_def)
  moreover have "[j..<j + length (f # fds)] = j # [Suc j..<Suc j + length fds]"
    by (simp add: upt_conv_Cons del: upt_Suc)
  moreover have "decodeChildren (decodeVector depth) (length vals) fds (rd p (put_children cbs' @ ys))
      = (Ok (map (\<lambda>k. map (struct_cell k) vals) [Suc j..<Suc j + length fds], False), rd (p @ put_children cbs') ys)" for p
    by (rule Cons.IH [OF cbs(3)]) (use Cons.prems(2) in auto)
  ultimately show ?case
    by (simp add: f cbs(1) put_children_def wire_simps Let_def del: upt_Suc)
qed

lemma struct_row_rd:
  assumes "i < length vals" "struct_shaped fds (vals ! i)"
  shows "struct_row fds (map (\<lambda>k. map (struct_cell k) vals) [0..<length fds]) (validityMask vals) i = Ok (vals ! i)"
proof (cases "vals ! i = VNil")
  case True
  then show ?thesis
    using valid_validityMask [OF assms(1)] null_rows(3) by simp
next
  case False
  then obtain es where es: "vals ! i = VStruct es" "map fst es = map fst fds"
    using assms(2) by (auto simp: struct_shaped_def split: val.splits)
  then have len: "length es = length fds"
    using map_eq_imp_length_eq by blast
  have name: "fst (fds ! k) = fst (es ! k)" if "k < length fds" for k
    using es(2) that len by (metis nth_map)
  let ?children = "map (\<lambda>k. map (struct_cell k) vals) [0..<length fds]"
  let ?cell = "\<lambda>((name, t), child). go_bind (go_index child i) (\<lambda>x. Ok (name, x))"
  have "go_map ?cell (zip fds ?children) = (Ok es :: (codec_error, _) go)"
    using len es(1) assms(1) name
    by (intro go_map_all) (simp add: list_all2_conv_all_nth struct_cell_def split_beta)
  then show ?thesis
    using valid_validityMask [OF assms(1)] False es(1) by (simp add: struct_row_def)
qed

lemma encodes_struct_vector:
  assumes t: "tID t = TypeStruct" and len: "length vals \<le> maxVectorRows" "go_len (tFields t)"
    and shaped: "list_all (struct_shaped (tFields t)) vals"
    and children: "encodes_children vals 0 (tFields t) cbs"
  shows "\<exists>b. encodes_vector t vals b"
proof -
  let ?fs = "tFields t"
  let ?body = "le_put 2 (103 :: u16) @ put_uvarint (word_of_nat (length ?fs)) @ put_children cbs"
  have "length cbs = length ?fs"
    using list_all2_lengthD [OF children [unfolded encodes_children_def]] by simp
  then have "length ?fs \<le> length (put_children cbs)"
    using length_concat_ge [of cbs "\<lambda>cb. cb @ le_put 2 EndID"] by (simp add: put_children_def)
  then have count: "ListCount (rd pre (put_uvarint (word_of_nat (length ?fs)) @ put_children cbs @ zs))
      = (length ?fs, rd (pre @ put_uvarint (word_of_nat (length ?fs))) (put_children cbs @ zs))" for pre zs
    using len(2) by (intro ListCount_rd) (simp_all add: go_len_def)
  have all: "go_map (struct_row ?fs (map (\<lambda>k. map (struct_cell k) vals) [0..<length ?fs]) (validityMask vals)) [0..<length vals] = Ok vals"
    using shaped by (intro go_map_nth struct_row_rd) (simp_all add: list_all_length)
  have arm: "flat_arm dv t n validity = decodeFlatStruct dv t n False validity" for dv n validity
    using t by (auto simp: flat_arm_def type_id_defs)
  have "flat_arm (decodeVector (Suc depth)) t (length vals) (validityMask vals) (rd pre (?body @ ys)) = (Ok vals, rd (pre @ ?body) ys)"
    if "depth + type_depth t \<le> maxTypeDepth" for depth pre ys
  proof -
    have "Suc depth + type_depth ft \<le> maxTypeDepth" if "(name, ft) \<in> set ?fs" for name ft
      using type_depth_field [OF that, of "tID t" "tWidth t" "tScale t" "tChild t" "tEnum t" "tArraySize t"]
        \<open>depth + type_depth t \<le> maxTypeDepth\<close> by simp
    then have "decodeChildren (decodeVector (Suc depth)) (length vals) ?fs (rd p (put_children cbs @ ys))
        = (Ok (map (\<lambda>k. map (struct_cell k) vals) [0..<0 + length ?fs], False), rd (p @ put_children cbs) ys)" for p
      by (rule decodeChildren_rd [OF children])
    then show ?thesis
      using all t by (simp add: arm decodeFlatStruct_def wire_simps Let_def count)
  qed
  moreover have "writeVector w t vals = Some (w @ put_validity vals @ ?body)" for w
    using t writeChildren_put [OF children shaped]
    by (cases t) (auto simp: write_validity_put writer_appends type_id_defs)
  ultimately have "encodes_vector t vals (put_validity vals @ ?body)"
    by (intro encodes_vectorI len(1)) simp_all
  then show ?thesis ..
qed

section \<open>The columns the encoder is meant for\<close>

definition list_items :: "val \<Rightarrow> val list" where
  "list_items v = (case v of VList xs \<Rightarrow> xs | _ \<Rightarrow> [])"

definition map_items :: "string \<Rightarrow> string \<Rightarrow> val \<Rightarrow> val list" where
  "map_items n0 n1 v = (case v of VMap kvs \<Rightarrow> map (\<lambda>(k, x). VStruct [(n0, k), (n1, x)]) kvs | _ \<Rightarrow> [])"

definition array_items :: "nat \<Rightarrow> val \<Rightarrow> val list" where
  "array_items sz v = (case v of VList xs \<Rightarrow> xs | _ \<Rightarrow> replicate sz VNil)"

text \<open>
  A whole column: the values have the shape the type calls for, the flattened children are
  columns of the child type, and no vector is longer than \<open>maxVectorRows\<close>.
\<close>

function vec_codable :: "logical_type \<Rightarrow> val list \<Rightarrow> bool" where
  "vec_codable (LogicalType tid wd sc ch fs en asz) vals =
     (length vals \<le> maxVectorRows \<and>
      (if tid = TypeVarchar \<or> tid = TypeBlob \<or> tid = TypeBit then list_all (string_codable tid) vals
       else if tid = TypeStruct then
         go_len fs \<and> list_all (struct_shaped fs) vals \<and>
         list_all (\<lambda>(j, (name, t)). vec_codable t (map (struct_cell j) vals)) (zip [0..<length fs] fs)
       else if tid = TypeList then
         list_all (\<lambda>v. case v of VNil \<Rightarrow> True | VList xs \<Rightarrow> True | _ \<Rightarrow> False) vals \<and>
         (case ch of None \<Rightarrow> False | Some c \<Rightarrow> vec_codable c (concat (map list_items vals)))
       else if tid = TypeMap then
         list_all (\<lambda>v. case v of VNil \<Rightarrow> True | VMap kvs \<Rightarrow> True | _ \<Rightarrow> False) vals \<and>
         (case ch of None \<Rightarrow> False
          | Some c \<Rightarrow>
              (case tFields c of
                 [(n0, _), (n1, _)] \<Rightarrow> vec_codable c (concat (map (map_items n0 n1) vals))
               | _ \<Rightarrow> False))
       else if tid = TypeArray then
         unat asz \<le> maxVectorRows \<and>
         list_all (\<lambda>v. case v of VNil \<Rightarrow> True | VList xs \<Rightarrow> length xs = unat asz | _ \<Rightarrow> False) vals \<and>
         (case ch of None \<Rightarrow> False | Some c \<Rightarrow> vec_codable c (concat (map (array_items (unat asz)) vals)))
       else supportedScalar (LogicalType tid wd sc ch fs en asz) \<and>
         list_all (scalar_codable (LogicalType tid wd sc ch fs en asz)) vals))"
  by pat_completeness auto
termination
proof (relation "measure (size \<circ> fst)", goal_cases)
  case (2 tid wd sc ch fs en asz vals p j q name t)
  then have "(name, t) \<in> set fs"
    by (auto dest: set_zip_rightD)
  then have "size t < size_list (size_prod (\<lambda>x. 0) size) fs"
    by (induction fs) auto
  then show ?case by simp
qed auto

declare vec_codable.simps [simp del]

section \<open>Every such column\<close>

lemma list_rows:
  assumes "list_all (\<lambda>v. case v of VNil \<Rightarrow> True | VList xs \<Rightarrow> True | _ \<Rightarrow> False) vals" "tID t = TypeList"
  shows "list_all2 (\<lambda>v row. list_elems ch v = Some row \<and> (v \<noteq> VNil \<longrightarrow> v = list_value t row)) vals (map list_items vals)"
  using assms
  by (induction vals) (auto simp: list_elems_def list_items_def list_value_def type_id_defs split: val.splits)

lemma map_rows:
  assumes "list_all (\<lambda>v. case v of VNil \<Rightarrow> True | VMap kvs \<Rightarrow> True | _ \<Rightarrow> False) vals" "tID t = TypeMap"
    and c: "tFields c = [(n0, t0), (n1, t1)]"
  shows "list_all2 (\<lambda>v row. list_elems (Some c) v = Some row \<and> (v \<noteq> VNil \<longrightarrow> v = list_value t row))
    vals (map (map_items n0 n1) vals)"
proof -
  have entries: "map map_entry (map (\<lambda>(k, x). VStruct [(n0, k), (n1, x)]) kvs) = kvs" for kvs
    by (induction kvs) (auto simp: map_entry_def)
  have "list_elems (Some c) v = Some (map_items n0 n1 v) \<and> (v \<noteq> VNil \<longrightarrow> v = list_value t (map_items n0 n1 v))"
    if "v \<in> set vals" for v
    using assms(1,2) that entries
    by (cases v) (auto simp: list_all_iff list_elems_def map_items_def list_value_def c)
  then show ?thesis
    by (simp add: list_all2_map2 list.rel_refl_strong list_all2_same)
qed

lemma array_rows:
  assumes "list_all (\<lambda>v. case v of VNil \<Rightarrow> True | VList xs \<Rightarrow> length xs = sz | _ \<Rightarrow> False) vals"
  shows "list_all2 (\<lambda>v row. length row = sz \<and> (v = VNil \<and> row = replicate sz VNil \<or> v = VList row))
    vals (map (array_items sz) vals)"
  using assms by (induction vals) (auto simp: array_items_def split: val.splits)

lemma array_rows_length:
  assumes "list_all (\<lambda>v. case v of VNil \<Rightarrow> True | VList xs \<Rightarrow> length xs = sz | _ \<Rightarrow> False) vals"
  shows "length (concat (map (array_items sz) vals)) = sz * length vals"
  using assms by (induction vals) (auto simp: array_items_def split: val.splits)

lemma vec_codable_length: "vec_codable t vals \<Longrightarrow> length vals \<le> maxVectorRows"
  by (cases t) (simp add: vec_codable.simps)

lemma vector_encodable: "vec_codable t vals \<Longrightarrow> \<exists>b. encodes_vector t vals b"
proof (induction t vals rule: vec_codable.induct)
  case (1 tid wd sc ch fs en asz vals)
  let ?t = "LogicalType tid wd sc ch fs en asz"
  have ok: "vec_codable ?t vals" and len: "length vals \<le> maxVectorRows"
    using "1.prems" vec_codable_length by blast+
  consider (strings) "tid = TypeVarchar \<or> tid = TypeBlob \<or> tid = TypeBit" | (struct) "tid = TypeStruct"
    | (list) "tid = TypeList" | (map) "tid = TypeMap" | (array) "tid = TypeArray"
    | (scalar) "tid \<notin> {TypeVarchar, TypeBlob, TypeBit, TypeStruct, TypeList, TypeMap, TypeArray}"
    by auto
  then show ?case
  proof cases
    case strings
    then show ?thesis
      using ok by (intro encodes_strings len) (auto simp: vec_codable.simps)
  next
    case struct
    then have shape: "go_len fs" "list_all (struct_shaped fs) vals"
      "\<forall>(j, (name, t))\<in>set (zip [0..<length fs] fs). vec_codable t (map (struct_cell j) vals)"
      using ok by (auto simp: vec_codable.simps list_all_iff type_id_defs)
    have "\<exists>cb. (\<lambda>(k, (name, t)) cb. encodes_vector t (map (struct_cell k) vals) cb) x cb"
      if x: "x \<in> set (zip [0..<0 + length fs] fs)" for x
    proof -
      obtain j name t where xt: "x = (j, (name, t))"
        by (metis surj_pair)
      then have "vec_codable t (map (struct_cell j) vals)"
        using x shape(3) by auto
      moreover have "\<not> (tid = TypeVarchar \<or> tid = TypeBlob \<or> tid = TypeBit)"
        using struct by (simp add: type_id_defs)
      ultimately have "\<exists>cb. encodes_vector t (map (struct_cell j) vals) cb"
        using x xt struct by (intro "1.IH"(1) [of x j "(name, t)" name t]) simp_all
      then show ?thesis
        by (simp add: xt)
    qed
    then obtain cbs where "encodes_children vals 0 fs cbs"
      unfolding encodes_children_def using list_all2_choose by blast
    then show ?thesis
      using struct shape len by (intro encodes_struct_vector) simp_all
  next
    case list
    then obtain c where c: "ch = Some c" "vec_codable c (concat (map list_items vals))"
      and shape: "list_all (\<lambda>v. case v of VNil \<Rightarrow> True | VList xs \<Rightarrow> True | _ \<Rightarrow> False) vals"
      using ok by (auto simp: vec_codable.simps type_id_defs split: option.splits)
    then obtain cb where "encodes_vector c (concat (map list_items vals)) cb"
      using "1.IH"(2) [of c] list by (auto simp: type_id_defs)
    then show ?thesis
      using list c len list_rows [OF shape] vec_codable_length [OF c(2)]
      by (intro encodes_list_vector [of ?t c vals "map list_items vals" cb]) simp_all
  next
    case map
    then obtain c n0 t0 n1 t1 where c: "ch = Some c" "tFields c = [(n0, t0), (n1, t1)]"
        "vec_codable c (concat (map (map_items n0 n1) vals))"
      and shape: "list_all (\<lambda>v. case v of VNil \<Rightarrow> True | VMap xs \<Rightarrow> True | _ \<Rightarrow> False) vals"
      using ok by (auto simp: vec_codable.simps type_id_defs split: option.splits list.splits)
    then obtain cb where "encodes_vector c (concat (map (map_items n0 n1) vals)) cb"
      using "1.IH"(3) [of c "(n0, t0)" "[(n1, t1)]" n0 t0 "(n1, t1)" "[]" n1 t1] map by (auto simp: type_id_defs)
    then show ?thesis
      using map c len map_rows [OF shape _ c(2), of ?t] vec_codable_length [OF c(3)]
      by (intro encodes_list_vector [of ?t c vals "map (map_items n0 n1) vals" cb]) simp_all
  next
    case array
    then obtain c where c: "ch = Some c" "vec_codable c (concat (map (array_items (unat asz)) vals))" "unat asz \<le> maxVectorRows"
      and shape: "list_all (\<lambda>v. case v of VNil \<Rightarrow> True | VList xs \<Rightarrow> length xs = unat asz | _ \<Rightarrow> False) vals"
      using ok by (auto simp: vec_codable.simps type_id_defs split: option.splits)
    then obtain cb where "encodes_vector c (concat (map (array_items (unat asz)) vals)) cb"
      using "1.IH"(4) [of c] array by (auto simp: type_id_defs)
    then show ?thesis
      using array c len array_rows [OF shape] vec_codable_length [OF c(2)] array_rows_length [OF shape]
      by (intro encodes_array_vector [of ?t c "unat asz" vals "map (array_items (unat asz)) vals" cb]) simp_all
  next
    case scalar
    then show ?thesis
      using ok by (intro encodes_scalars len) (auto simp: vec_codable.simps)
  qed
qed

end
