(* ===== verification/Chunk_Roundtrip.thy ===== *)
theory Chunk_Roundtrip
  imports Vector_Roundtrip
begin

text \<open>
  Whole chunks and response bodies: \<open>DecodeChunk\<close>, \<open>DecodeFetch\<close> and \<open>DecodePrepare\<close> return
  exactly what \<open>EncodeChunk\<close>, \<open>EncodeFetchBody\<close> and \<open>EncodePrepareBody\<close> were given.
\<close>

section \<open>Columns\<close>

definition col_codable :: "col \<Rightarrow> bool" where
  "col_codable c \<longleftrightarrow> type_wf (cType c) \<and> type_depth (cType c) \<le> maxTypeDepth \<and> vec_codable (cType c) (cVals c)"

definition decoded_column :: "col \<Rightarrow> column" where
  "decoded_column c = \<lparr>colType = cType c, colVals = cVals c, colErr = None\<rparr>"

definition encodes_col :: "col \<Rightarrow> bytes \<times> bytes \<Rightarrow> bool" where
  "encodes_col c bb \<longleftrightarrow>
     encodes_type (fst bb) (cType c) \<and> type_depth (cType c) \<le> maxTypeDepth \<and>
     encodes_vector (cType c) (cVals c) (snd bb)"

lemma col_encodable: "col_codable c \<Longrightarrow> \<exists>bb. encodes_col c bb"
  using type_encodable [of "cType c"] vector_encodable [of "cType c" "cVals c"]
  by (auto simp: col_codable_def encodes_col_def)

lemma writeTypes_put:
  "list_all2 encodes_col cols bbs \<Longrightarrow> writeTypes w (map cType cols) = Some (w @ concat (map fst bbs))"
  by (induction cols bbs arbitrary: w rule: list_all2_induct) (auto simp: encodes_col_def encodes_type_def)

lemma decodeTypes_rd:
  "list_all2 encodes_col cols bbs \<Longrightarrow>
   read_list_go (decodeType 0) (length cols) (rd pre (concat (map fst bbs) @ ys))
     = (Ok (map cType cols), rd (pre @ concat (map fst bbs)) ys)"
  by (induction cols bbs arbitrary: pre rule: list_all2_induct) (auto simp: encodes_col_def encodes_type_def)

definition put_columns :: "(bytes \<times> bytes) list \<Rightarrow> bytes" where
  "put_columns bbs = concat (map (\<lambda>bb. snd bb @ le_put 2 EndID) bbs)"

lemma writeColumns_put:
  "list_all2 encodes_col cols bbs \<Longrightarrow> \<forall>c\<in>set cols. length (cVals c) = rows \<Longrightarrow>
   writeColumns w rows cols = Some (w @ put_columns bbs)"
  by (induction cols bbs arbitrary: w rule: list_all2_induct)
    (auto simp: encodes_col_def encodes_vector_def put_columns_def writer_appends)

lemma decodeColumns_rd:
  "list_all2 encodes_col cols bbs \<Longrightarrow> \<forall>c\<in>set cols. length (cVals c) = rows \<Longrightarrow>
   decodeColumns rows (map cType cols) (rd pre (put_columns bbs @ ys))
     = (Ok (map decoded_column cols), rd (pre @ put_columns bbs) ys)"
  by (induction cols bbs arbitrary: pre rule: list_all2_induct)
    (auto simp: encodes_col_def encodes_vector_def put_columns_def decodeColumn_def decoded_column_def wire_simps)

section \<open>Chunks\<close>

definition chunk_rows :: "col list \<Rightarrow> nat" where
  "chunk_rows cols = (case cols of [] \<Rightarrow> 0 | c # _ \<Rightarrow> length (cVals c))"

definition chunk_codable :: "col list \<Rightarrow> bool" where
  "chunk_codable cols \<longleftrightarrow>
     go_len cols \<and> chunk_rows cols \<le> maxChunkRows \<and>
     list_all (\<lambda>c. col_codable c \<and> length (cVals c) = chunk_rows cols) cols"

definition decoded_chunk :: "col list \<Rightarrow> chunk" where
  "decoded_chunk cols = \<lparr>chRows = chunk_rows cols, chCols = map decoded_column cols\<rparr>"

definition encodes_chunk :: "col list \<Rightarrow> bytes \<Rightarrow> bool" where
  "encodes_chunk cols b \<longleftrightarrow>
     (\<forall>w. WriteChunk w cols = Some (w @ b)) \<and>
     (\<forall>pre ys. decodeChunkContents (rd pre (b @ ys)) = (Ok (decoded_chunk cols), rd (pre @ b) ys))"

lemma chunk_encodable:
  assumes "chunk_codable cols"
  shows "\<exists>b. encodes_chunk cols b"
proof -
  have len: "length cols < 2 ^ 63" and rows: "chunk_rows cols \<le> maxChunkRows"
    and cols: "\<forall>c\<in>set cols. length (cVals c) = chunk_rows cols"
    using assms by (auto simp: chunk_codable_def go_len_def list_all_iff)
  obtain bbs where bbs: "list_all2 encodes_col cols bbs"
    using assms list_all2_choose [of cols encodes_col] col_encodable by (auto simp: chunk_codable_def list_all_iff)
  have n: "length bbs = length cols"
    using list_all2_lengthD [OF bbs] by simp
  have "1 \<le> length (fst bb)" if "bb \<in> set bbs" for bb
    using bbs that by (auto simp: list_all2_conv_all_nth in_set_conv_nth encodes_col_def encodes_type_def Suc_leI)
  then have types: "length cols \<le> length (concat (map fst bbs))"
    using length_concat_ge [of bbs fst] n by simp
  have columns: "length cols \<le> length (put_columns bbs)"
    using length_concat_ge [of bbs "\<lambda>bb. snd bb @ le_put 2 EndID"] n by (simp add: put_columns_def)
  have small: "chunk_rows cols < 2 ^ 63"
    using rows by (simp add: maxChunkRows_def)
  let ?b = "le_put 2 (100 :: u16) @ put_uvarint (word_of_nat (chunk_rows cols)) @
    le_put 2 (101 :: u16) @ put_uvarint (word_of_nat (length cols)) @ concat (map fst bbs) @
    le_put 2 (102 :: u16) @ put_uvarint (word_of_nat (length cols)) @ put_columns bbs @ le_put 2 EndID"
  have "WriteChunk w cols = Some (w @ ?b)" for w
    using writeTypes_put [OF bbs] writeColumns_put [OF bbs cols]
    by (simp add: WriteChunk_def Let_def writer_appends flip: chunk_rows_def)
  moreover have "decodeChunkContents (rd pre (?b @ ys)) = (Ok (decoded_chunk cols), rd (pre @ ?b) ys)" for pre ys
    using small rows len types columns decodeTypes_rd [OF bbs] decodeColumns_rd [OF bbs cols]
    by (simp add: decodeChunkContents_def wire_simps Let_def decoded_chunk_def)
  ultimately have "encodes_chunk cols ?b"
    by (simp add: encodes_chunk_def)
  then show ?thesis ..
qed

section \<open>Bodies\<close>

definition put_chunks :: "bytes list \<Rightarrow> bytes" where
  "put_chunks bs = concat (map (\<lambda>b. put_bool True @ le_put 2 (300 :: u16) @ b @ le_put 2 EndID) bs)"

lemma writeChunks_put:
  "list_all2 encodes_chunk chunks bs \<Longrightarrow> writeChunks w chunks = Some (w @ put_chunks bs)"
  by (induction chunks bs arbitrary: w rule: list_all2_induct)
    (simp_all add: encodes_chunk_def put_chunks_def writer_appends)

lemma decodeChunks_rd:
  "list_all2 encodes_chunk chunks bs \<Longrightarrow>
   decodeChunks (length chunks) (rd pre (put_chunks bs @ ys)) = (Ok (map decoded_chunk chunks), rd (pre @ put_chunks bs) ys)"
  by (induction chunks bs arbitrary: pre rule: list_all2_induct)
    (simp_all add: encodes_chunk_def put_chunks_def wire_simps)

lemma chunk_list_encodable:
  assumes "go_len chunks" "list_all chunk_codable chunks"
  shows "\<exists>b. (\<forall>w. writeChunkList w chunks = Some (w @ b)) \<and>
    (\<forall>pre ys. decodeChunkList (rd pre (b @ ys)) = (Ok (map decoded_chunk chunks), rd (pre @ b) ys))"
proof -
  obtain bs where bs: "list_all2 encodes_chunk chunks bs"
    using assms(2) list_all2_choose [of chunks encodes_chunk] chunk_encodable by (auto simp: list_all_iff)
  have "length chunks \<le> length (put_chunks bs)"
    using length_concat_ge [of bs "\<lambda>b. put_bool True @ le_put 2 (300 :: u16) @ b @ le_put 2 EndID"]
      list_all2_lengthD [OF bs] by (simp add: put_chunks_def put_bool_def)
  then have "decodeChunkList (rd pre (put_uvarint (word_of_nat (length chunks)) @ put_chunks bs @ ys))
      = (Ok (map decoded_chunk chunks), rd (pre @ put_uvarint (word_of_nat (length chunks)) @ put_chunks bs) ys)" for pre ys
    using assms(1) decodeChunks_rd [OF bs] by (simp add: decodeChunkList_def ListCount_rd go_len_def)
  then show ?thesis
    using writeChunks_put [OF bs]
    by (intro exI [of _ "put_uvarint (word_of_nat (length chunks)) @ put_chunks bs"])
      (simp add: writeChunkList_def writer_appends)
qed

text \<open>The schema part of a PREPARE body: column names and types, no values.\<close>

definition schema_codable :: "col list \<Rightarrow> bool" where
  "schema_codable cols \<longleftrightarrow>
     go_len cols \<and>
     list_all (\<lambda>c. type_wf (cType c) \<and> type_depth (cType c) \<le> maxTypeDepth \<and> go_len (cName c)) cols"

definition decoded_schema :: "col list \<Rightarrow> schema" where
  "decoded_schema cols = map (\<lambda>c. \<lparr>scName = cName c, scType = cType c\<rparr>) cols"

lemma schema_types_encodable:
  assumes "schema_codable cols"
  shows "\<exists>b. (\<forall>w. writeTypes w (map cType cols) = Some (w @ b)) \<and> length cols \<le> length b \<and>
    (\<forall>pre ys. read_list_go (decodeType 0) (length cols) (rd pre (b @ ys)) = (Ok (map cType cols), rd (pre @ b) ys))"
proof -
  let ?P = "\<lambda>c b. encodes_type b (cType c) \<and> type_depth (cType c) \<le> maxTypeDepth"
  obtain bs where bs: "list_all2 ?P cols bs"
    using assms list_all2_choose [of cols ?P] type_encodable by (auto simp: schema_codable_def list_all_iff)
  have "writeTypes w (map cType cols) = Some (w @ concat bs)" for w
    using bs by (induction cols bs arbitrary: w rule: list_all2_induct) (auto simp: encodes_type_def)
  moreover have "read_list_go (decodeType 0) (length cols) (rd pre (concat bs @ ys)) = (Ok (map cType cols), rd (pre @ concat bs) ys)" for pre ys
    using bs by (induction cols bs arbitrary: pre rule: list_all2_induct) (auto simp: encodes_type_def)
  moreover have "length cols \<le> length (concat bs)"
    using bs by (induction cols bs rule: list_all2_induct) (auto simp: encodes_type_def neq_Nil_conv)
  ultimately show ?thesis
    by blast
qed

lemma map2_schema: "map2 (\<lambda>n t. \<lparr>scName = n, scType = t\<rparr>) (map cName cols) (map cType cols) = decoded_schema cols"
  by (simp add: decoded_schema_def map2_map_map)

text \<open>
  The PREPARE body in three parts: the schema (empty when there are no columns), the optional
  fields, the uuid.  \<open>tb\<close> and \<open>cb\<close> are the bytes of the types and of the chunks.
\<close>

definition put_schema :: "col list \<Rightarrow> bytes \<Rightarrow> bytes" where
  "put_schema cols tb =
     (if cols = [] then []
      else le_put 2 (1 :: u16) @ put_uvarint (word_of_nat (length cols)) @ tb @
        le_put 2 (2 :: u16) @ put_uvarint (word_of_nat (length cols)) @ concat (map put_string (map cName cols)))"

definition put_inline :: "col list list \<Rightarrow> bytes \<Rightarrow> hugeint \<Rightarrow> bytes" where
  "put_inline inline cb uuid =
     (if inline = [] then [] else le_put 2 (4 :: u16) @ cb) @ le_put 2 (5 :: u16) @ put_hugeint uuid @ le_put 2 EndID"

definition put_tail :: "bool \<Rightarrow> col list list \<Rightarrow> bytes \<Rightarrow> hugeint \<Rightarrow> bytes" where
  "put_tail needsMore inline cb uuid =
     (if needsMore then le_put 2 (3 :: u16) @ put_bool True else []) @ put_inline inline cb uuid"

lemma put_tail_field: "\<exists>f rest. put_tail needsMore inline cb uuid = le_put 2 (f :: u16) @ rest \<and> f \<noteq> 1 \<and> f \<noteq> 2"
proof -
  consider "needsMore" | "\<not> needsMore" "inline = []" | "\<not> needsMore" "inline \<noteq> []"
    by blast
  then show ?thesis
    by cases (rule exI [of _ "3 :: u16"] exI [of _ "5 :: u16"] exI [of _ "4 :: u16"];
      simp add: put_tail_def put_inline_def)+
qed

lemma prepare_schema_rd:
  assumes "schema_codable cols" "length cols \<le> length tb"
    and tb: "\<And>pre ys. read_list_go (decodeType 0) (length cols) (rd pre (tb @ ys)) = (Ok (map cType cols), rd (pre @ tb) ys)"
  shows "\<exists>r. opt_decode (rd [] (put_schema cols tb @ put_tail needsMore inline cb uuid)) 1 decodeTypeList [] = (Ok (map cType cols), r) \<and>
    opt_field r 2 read_strings [] = (map cName cols, rd (put_schema cols tb) (put_tail needsMore inline cb uuid))"
proof (cases "cols = []")
  case True
  obtain f rest where "put_tail needsMore inline cb uuid = le_put 2 (f :: u16) @ rest" "f \<noteq> 1" "f \<noteq> 2"
    using put_tail_field by blast
  then show ?thesis
    using True by (simp add: opt_decode_def put_schema_def wire_simps)
next
  case False
  have len: "length cols < 2 ^ 63" "go_len (map cName cols)" "list_all go_len (map cName cols)"
    using assms(1) by (auto simp: schema_codable_def go_len_def list_all_iff)
  show ?thesis
    using False assms(2) tb len(1) read_strings_rd [OF len(2,3)]
    by (simp add: opt_decode_def decodeTypeList_def put_schema_def wire_simps)
qed

lemma prepare_tail_rd:
  "opt_field (rd p (put_tail needsMore inline cb uuid)) 3 Reader_Bool False
     = (needsMore, rd (p @ (if needsMore then le_put 2 (3 :: u16) @ put_bool True else [])) (put_inline inline cb uuid))"
  by (cases "inline = []") (simp_all add: put_tail_def put_inline_def wire_simps)

lemma prepare_inline_rd:
  assumes "\<And>pre ys. decodeChunkList (rd pre (cb @ ys)) = (Ok (map decoded_chunk inline), rd (pre @ cb) ys)"
  shows "\<exists>p'. opt_decode (rd p (put_inline inline cb uuid)) 4 decodeChunkList []
    = (Ok (map decoded_chunk inline), rd p' (le_put 2 (5 :: u16) @ put_hugeint uuid @ le_put 2 EndID))"
  using assms by (cases "inline = []") (auto simp: opt_decode_def put_inline_def wire_simps)

section \<open>Compressed vectors\<close>

text \<open>The wire forms a server may choose in place of a flat vector; \<open>b\<close> is a flat vector.\<close>

definition put_constant :: "bytes \<Rightarrow> bytes" where
  "put_constant b = le_put 2 (90 :: u16) @ put_uvarint vecConstant @ b"

definition put_dictionary :: "u32 list \<Rightarrow> nat \<Rightarrow> bytes \<Rightarrow> bytes" where
  "put_dictionary sel n b =
     le_put 2 (90 :: u16) @ put_uvarint vecDictionary @ le_put 2 (91 :: u16) @ put_bytes (concat (map (le_put 4) sel)) @
     le_put 2 (92 :: u16) @ put_uvarint (word_of_nat n) @ b"

definition put_sequence :: "u64 \<Rightarrow> u64 \<Rightarrow> bytes" where
  "put_sequence start inc =
     le_put 2 (90 :: u16) @ put_uvarint vecSequence @ le_put 2 (91 :: u16) @ put_svarint start @
     le_put 2 (92 :: u16) @ put_svarint inc"

lemma decodeVector_constant_rd:
  assumes "encodes_vector t [v] b" "Suc depth + type_depth t \<le> maxTypeDepth" "n \<le> maxVectorRows"
  shows "decodeVector depth t n (rd pre (put_constant b @ ys)) = (Ok (replicate n v), rd (pre @ put_constant b) ys)"
proof -
  have "decodeVector (Suc depth) t 1 (rd p (b @ ys)) = (Ok [v], rd (p @ b) ys)" for p
    using assms(1,2) by (simp add: encodes_vector_def)
  then show ?thesis
    using assms(2,3)
    by (subst decodeVector.simps) (simp add: put_constant_def wire_simps decodeConstant_def vec_defs)
qed

lemma length_selection: "length (concat (map (le_put 4) sel)) = length sel * 4"
  by (induction sel) auto

lemma dict_row_rd:
  fixes sel :: "u32 list"
  assumes "i < length sel" "unat (sel ! i) < length dict" "length dict \<le> maxChunkRows"
  shows "dict_row (concat (map (le_put 4) sel)) dict i = Ok (dict ! unat (sel ! i))"
proof -
  let ?bs = "concat (map (le_put 4) sel)"
  have len: "length ?bs = length sel * 4"
    by (rule length_selection)
  have "take 4 (drop (i * 4) ?bs) = le_put 4 (sel ! i)"
    by (rule concat_slice [of "map (le_put 4) sel" 4 i, simplified nth_map [OF assms(1)]]) (use assms(1) in auto)
  moreover have "unat (word_of_nat (length dict) :: u32) = length dict"
    using assms(3) by (simp add: maxChunkRows_def unat_of_nat)
  moreover have "i * 4 \<le> length ?bs" "4 \<le> length ?bs - i * 4"
    using assms(1) len by simp_all
  ultimately show ?thesis
    using assms(2) by (simp add: dict_row_def go_slice_def word_le_nat_alt)
qed

lemma decodeVector_dictionary_rd:
  assumes "encodes_vector t dict b" "Suc depth + type_depth t \<le> maxTypeDepth"
    and sel: "length sel \<le> maxVectorRows" "\<forall>i\<in>set sel. unat i < length dict" and dict: "length dict \<le> maxChunkRows"
  shows "decodeVector depth t (length sel) (rd pre (put_dictionary sel (length dict) b @ ys))
    = (Ok (map (\<lambda>i. dict ! unat i) sel), rd (pre @ put_dictionary sel (length dict) b) ys)"
proof -
  let ?bs = "concat (map (le_put 4) sel)"
  have len: "length ?bs = length sel * 4"
    by (rule length_selection)
  then have golen: "go_len ?bs"
    using sel(1) by (simp add: go_len_def maxVectorRows_def)
  have small: "length dict < 2 ^ 63"
    using dict by (simp add: maxChunkRows_def)
  have "go_map (dict_row ?bs dict) [0..<length sel] = Ok (map (\<lambda>i. dict ! unat i) sel)"
    using go_map_nth [of "map (\<lambda>i. dict ! unat i) sel" "dict_row ?bs dict"] dict_row_rd [of _ sel dict] sel(2) dict by simp
  moreover have "decodeVector (Suc depth) t (length dict) (rd p (b @ ys)) = (Ok dict, rd (p @ b) ys)" for p
    using assms(1,2) by (simp add: encodes_vector_def)
  ultimately show ?thesis
    using assms(2) sel(1) dict small golen len
    by (subst decodeVector.simps) (simp add: put_dictionary_def wire_simps decodeDictionary_def vec_defs)
qed

lemma decodeVector_sequence_rd:
  assumes "depth \<le> maxTypeDepth" "n \<le> maxVectorRows"
    and "\<And>i. i < n \<Longrightarrow> sequenceValue (tID t) (start + word_of_nat i * inc) = Ok (f i)"
  shows "decodeVector depth t n (rd pre (put_sequence start inc @ ys)) = (Ok (map f [0..<n]), rd (pre @ put_sequence start inc) ys)"
proof -
  have "go_map (\<lambda>i. sequenceValue (tID t) (start + word_of_nat i * inc)) [0..<n] = Ok (map f [0..<n])"
    using assms(3) by (intro go_map_Ok) simp
  then show ?thesis
    using assms(1,2) by (subst decodeVector.simps) (simp add: put_sequence_def wire_simps decodeSequence_def vec_defs)
qed

text \<open>The columns a sequence may fill, signed or not and how wide, and an integer cut to such a column.\<close>

definition int_column :: "type_id \<Rightarrow> (bool \<times> nat) option" where
  "int_column tid = map_of [(TypeTinyint, True, 8), (TypeSmallint, True, 16), (TypeInteger, True, 32), (TypeBigint, True, 64),
     (TypeUTinyint, False, 8), (TypeUSmallint, False, 16), (TypeUInteger, False, 32), (TypeUBigint, False, 64)] tid"

definition wrapped :: "bool \<times> nat \<Rightarrow> int \<Rightarrow> int" where
  "wrapped c i = (case c of (sg, n) \<Rightarrow> if sg then signed_take_bit (n - 1) i else take_bit n i)"

lemma sequence_word: "start + word_of_nat i * inc = (word_of_int (sint start + int i * sint inc) :: u64)"
  by simp

lemma wrapped_word:
  "sint (ucast (word_of_int k :: u64) :: byte) = signed_take_bit 7 k" "uint (ucast (word_of_int k :: u64) :: byte) = take_bit 8 k"
  "sint (ucast (word_of_int k :: u64) :: u16) = signed_take_bit 15 k" "uint (ucast (word_of_int k :: u64) :: u16) = take_bit 16 k"
  "sint (ucast (word_of_int k :: u64) :: u32) = signed_take_bit 31 k" "uint (ucast (word_of_int k :: u64) :: u32) = take_bit 32 k"
  "sint (word_of_int k :: u64) = signed_take_bit 63 k" "uint (word_of_int k :: u64) = take_bit 64 k"
  by (simp_all add: unsigned_of_int signed_of_int unsigned_ucast_eq sint_uint signed_take_bit_take_bit)

lemma sequenceValue_wraps:
  assumes "int_column tid = Some c"
  shows "\<exists>v. sequenceValue tid (word_of_int k) = Ok v \<and> scalar_typed tid wd sc en v \<and> int_of_val v = Some (wrapped c k)"
proof -
  note defs = sequenceValue_def type_id_defs scalar_typed_def int_of_val_def wrapped_def wrapped_word
  consider "tid = TypeTinyint" "c = (True, 8)"
    | "tid = TypeSmallint" "c = (True, 16)"
    | "tid = TypeInteger" "c = (True, 32)"
    | "tid = TypeBigint" "c = (True, 64)"
    | "tid = TypeUTinyint" "c = (False, 8)"
    | "tid = TypeUSmallint" "c = (False, 16)"
    | "tid = TypeUInteger" "c = (False, 32)"
    | "tid = TypeUBigint" "c = (False, 64)"
    using assms by (auto simp: int_column_def split: if_splits)
  then show ?thesis
    by cases (simp add: defs)+
qed

lemma sequenceValue_refused: "int_column tid = None \<Longrightarrow> sequenceValue tid w = Err (ErrSeqType tid)"
  by (auto simp: int_column_def sequenceValue_def split: if_splits)


lemma decodeVector_sequence_ints:
  assumes "n \<le> maxVectorRows" "int_column (tID u) = Some c"
  shows "\<exists>vs r. decodeVector 0 u n (NewReader (put_sequence start inc @ ys)) = (Ok vs, r) \<and> Rest r = ys \<and> length vs = n
    \<and> (\<forall>i < n. val_typed u (vs ! i) \<and> int_of_val (vs ! i) = Some (wrapped c (sint start + int i * sint inc)))"
proof -
  obtain tid wd sc ch fs en asz where u: "u = LogicalType tid wd sc ch fs en asz" by (cases u)
  have "\<exists>v. sequenceValue tid (start + word_of_nat i * inc) = Ok v \<and> scalar_typed tid wd sc en v
      \<and> int_of_val v = Some (wrapped c (sint start + int i * sint inc))" for i
    unfolding sequence_word using assms(2) by (intro sequenceValue_wraps) (simp add: u)
  then obtain f where f: "sequenceValue tid (start + word_of_nat i * inc) = Ok (f i)" "scalar_typed tid wd sc en (f i)"
      "int_of_val (f i) = Some (wrapped c (sint start + int i * sint inc))" for i
    by metis
  have "val_typed u (f i)" for i
    using f(2,3) [of i] by (cases "f i") (simp_all add: u val_typed.simps int_of_val_def)
  moreover have "decodeVector 0 u n (rd [] (put_sequence start inc @ ys)) = (Ok (map f [0..<n]), rd ([] @ put_sequence start inc) ys)"
    using f(1) assms(1) by (intro decodeVector_sequence_rd) (simp_all add: u)
  ultimately show ?thesis using f(3) by (intro exI [of _ "map f [0..<n]"]) (simp add: NewReader_rd)
qed

lemma decodeVector_sequence_refused:
  assumes "n \<le> maxVectorRows" "int_column (tID u) = None" "0 < n"
  shows "\<exists>r. decodeVector 0 u n (NewReader (put_sequence start inc @ ys)) = (Err (ErrSeqType (tID u)), r)"
proof -
  have "go_map (\<lambda>i. sequenceValue (tID u) (start + word_of_nat i * inc)) [0..<n] = Err (ErrSeqType (tID u))"
    using assms(3) by (simp add: upt_conv_Cons sequenceValue_refused [OF assms(2)])
  then show ?thesis
    using assms(1) by (subst decodeVector.simps) (simp add: NewReader_rd put_sequence_def wire_simps decodeSequence_def vec_defs)
qed

lemma fetch_body_roundtrip:
  assumes "go_len chunks" and "list_all chunk_codable chunks"
  shows "\<exists>b. EncodeFetchBody chunks batch = Some b \<and>
    DecodeFetch c b = Ok \<lparr>frChunks = map decoded_chunk chunks, frBatchIndex = batch\<rparr>"
proof (cases "chunks = []")
  case True
  then show ?thesis
    by (simp add: EncodeFetchBody_def DecodeFetch_def opt_decode_def writer_appends NewReader_rd wire_simps Let_def)
next
  case False
  obtain b where b: "\<And>w. writeChunkList w chunks = Some (w @ b)"
    "\<And>pre ys. decodeChunkList (rd pre (b @ ys)) = (Ok (map decoded_chunk chunks), rd (pre @ b) ys)"
    using chunk_list_encodable [OF assms] by blast
  then show ?thesis
    using False
    by (simp add: EncodeFetchBody_def DecodeFetch_def opt_decode_def writer_appends NewReader_rd wire_simps Let_def)
qed

lemma prepare_body_roundtrip:
  assumes "schema_codable cols" and "go_len inline" and "list_all chunk_codable inline"
  shows "\<exists>b. EncodePrepareBody cols inline needsMore uuid = Some b \<and>
    DecodePrepare c b = Ok \<lparr>prSchema = decoded_schema cols, prChunks = map decoded_chunk inline,
      prNeedsMoreFetch = needsMore, prResultUUID = uuid\<rparr>"
proof -
  obtain tb where tb: "\<And>w. writeTypes w (map cType cols) = Some (w @ tb)" "length cols \<le> length tb"
    "\<And>pre ys. read_list_go (decodeType 0) (length cols) (rd pre (tb @ ys)) = (Ok (map cType cols), rd (pre @ tb) ys)"
    using schema_types_encodable [OF assms(1)] by blast
  obtain cb where cb: "\<And>w. writeChunkList w inline = Some (w @ cb)"
    "\<And>pre ys. decodeChunkList (rd pre (cb @ ys)) = (Ok (map decoded_chunk inline), rd (pre @ cb) ys)"
    using chunk_list_encodable [OF assms(2,3)] by blast
  let ?b = "put_schema cols tb @ put_tail needsMore inline cb uuid"
  have enc: "EncodePrepareBody cols inline needsMore uuid = Some ?b"
    using tb(1) cb(1)
    by (simp add: EncodePrepareBody_def put_schema_def put_tail_def put_inline_def Let_def writer_appends foldl_Writer_String)
  obtain r where r: "opt_decode (rd [] ?b) 1 decodeTypeList [] = (Ok (map cType cols), r)"
    "opt_field r 2 read_strings [] = (map cName cols, rd (put_schema cols tb) (put_tail needsMore inline cb uuid))"
    using prepare_schema_rd [OF assms(1) tb(2,3)] by blast
  let ?p = "put_schema cols tb @ (if needsMore then le_put 2 (3 :: u16) @ put_bool True else [])"
  obtain p' where "opt_decode (rd ?p (put_inline inline cb uuid)) 4 decodeChunkList []
      = (Ok (map decoded_chunk inline), rd p' (le_put 2 (5 :: u16) @ put_hugeint uuid @ le_put 2 EndID))"
    using prepare_inline_rd [OF cb(2)] by blast
  then have "DecodePrepare c ?b = Ok \<lparr>prSchema = decoded_schema cols, prChunks = map decoded_chunk inline,
      prNeedsMoreFetch = needsMore, prResultUUID = uuid\<rparr>"
    by (simp only: DecodePrepare_def NewReader_rd r prepare_tail_rd Let_def prod.case go.case)
      (simp add: wire_simps map2_schema [symmetric])
  then show ?thesis
    using enc by blast
qed

section \<open>Properties\<close>

text \<open>C1: a chunk survives the trip: for every list of columns the encoder is meant for (all types that
  have values, nested to any depth the decoder allows, with NULLs anywhere), decoding the encoded
  bytes returns exactly the row count, the types and the values that were encoded.\<close>

theorem DecodeChunk_EncodeChunk:
  assumes "chunk_codable cols"
  shows "\<exists>b. EncodeChunk cols = Some b \<and> DecodeChunk c b = Ok (decoded_chunk cols)"
proof -
  obtain b where b: "encodes_chunk cols b"
    using chunk_encodable [OF assms] by blast
  then have "decodeChunkContents (NewReader b) = (Ok (decoded_chunk cols), rd b [])"
    unfolding encodes_chunk_def NewReader_rd by (metis append_Nil append_Nil2)
  then show ?thesis
    using b by (simp add: EncodeChunk_def DecodeChunk_def encodes_chunk_def)
qed

theorem DecodeChunk_EncodeChunk_witness:
  "\<exists>b. EncodeChunk
      [\<lparr>cName = ''n'', cType = scalar_type TypeInteger, cVals = [VInt32 5, VNil]\<rparr>,
       \<lparr>cName = ''l'', cType = LogicalType TypeList 0 0 (Some (scalar_type TypeVarchar)) [] [] 0,
        cVals = [VList [VString ''a'', VNil], VNil]\<rparr>] = Some b \<and>
    DecodeChunk \<lparr>cVersion = 1\<rparr> b = Ok \<lparr>chRows = 2, chCols =
      [\<lparr>colType = scalar_type TypeInteger, colVals = [VInt32 5, VNil], colErr = None\<rparr>,
       \<lparr>colType = LogicalType TypeList 0 0 (Some (scalar_type TypeVarchar)) [] [] 0,
        colVals = [VList [VString ''a'', VNil], VNil], colErr = None\<rparr>]\<rparr>"
proof -
  let ?cols = "[\<lparr>cName = ''n'', cType = scalar_type TypeInteger, cVals = [VInt32 5, VNil]\<rparr>,
       \<lparr>cName = ''l'', cType = LogicalType TypeList 0 0 (Some (scalar_type TypeVarchar)) [] [] 0,
        cVals = [VList [VString ''a'', VNil], VNil]\<rparr>]"
  have "chunk_codable ?cols"
    by (simp add: chunk_codable_def col_codable_def chunk_rows_def go_len_def maxChunkRows_def maxVectorRows_def
        maxTypeDepth_def type_depth.simps scalar_type_def vec_codable.simps list_items_def scalar_codable_def
        supportedScalar_def string_codable_def type_id_defs)
  from DecodeChunk_EncodeChunk [OF this, of "\<lparr>cVersion = 1\<rparr>"] show ?thesis
    by (simp add: decoded_chunk_def decoded_column_def chunk_rows_def numeral_2_eq_2)
qed

text \<open>C15: a FETCH_RESPONSE body survives the trip: the chunks come back in order, none lost and none
  made up, with the batch index; the empty list of chunks, which ends a result, comes back empty.\<close>

theorem DecodeFetch_EncodeFetchBody:
  assumes "go_len chunks" and "list_all chunk_codable chunks"
  shows "\<exists>b. EncodeFetchBody chunks batch = Some b \<and>
    DecodeFetch c b = Ok \<lparr>frChunks = map decoded_chunk chunks, frBatchIndex = batch\<rparr>"
  using assms by (rule fetch_body_roundtrip)

theorem DecodeFetch_EncodeFetchBody_witness:
  "\<exists>b. EncodeFetchBody [[\<lparr>cName = ''n'', cType = scalar_type TypeInteger, cVals = [VNil]\<rparr>]] 7 = Some b \<and>
    DecodeFetch \<lparr>cVersion = 1\<rparr> b = Ok \<lparr>frChunks =
      [\<lparr>chRows = 1, chCols = [\<lparr>colType = scalar_type TypeInteger, colVals = [VNil], colErr = None\<rparr>]\<rparr>], frBatchIndex = 7\<rparr>"
proof -
  let ?chunks = "[[\<lparr>cName = ''n'', cType = scalar_type TypeInteger, cVals = [VNil]\<rparr>]]"
  have "go_len ?chunks" "list_all chunk_codable ?chunks"
    by (simp_all add: chunk_codable_def col_codable_def chunk_rows_def go_len_def maxChunkRows_def maxVectorRows_def
        maxTypeDepth_def type_depth.simps scalar_type_def vec_codable.simps scalar_codable_def supportedScalar_def type_id_defs)
  from DecodeFetch_EncodeFetchBody [OF this, of 7 "\<lparr>cVersion = 1\<rparr>"] show ?thesis
    by (simp add: decoded_chunk_def decoded_column_def chunk_rows_def)
qed

text \<open>C16: a PREPARE_RESPONSE body survives the trip: the schema, the inlined chunks, whether there is
  more to fetch and the uuid to fetch it under.\<close>

theorem DecodePrepare_EncodePrepareBody:
  assumes "schema_codable cols" and "go_len inline" and "list_all chunk_codable inline"
  shows "\<exists>b. EncodePrepareBody cols inline needsMore uuid = Some b \<and>
    DecodePrepare c b = Ok \<lparr>prSchema = decoded_schema cols, prChunks = map decoded_chunk inline,
      prNeedsMoreFetch = needsMore, prResultUUID = uuid\<rparr>"
  using assms by (rule prepare_body_roundtrip)

theorem DecodePrepare_EncodePrepareBody_witness:
  "\<exists>b. EncodePrepareBody [\<lparr>cName = ''n'', cType = scalar_type TypeInteger, cVals = []\<rparr>] [] True \<lparr>Upper = -1, Lower = 9\<rparr> = Some b \<and>
    DecodePrepare \<lparr>cVersion = 1\<rparr> b = Ok \<lparr>prSchema = [\<lparr>scName = ''n'', scType = scalar_type TypeInteger\<rparr>],
      prChunks = [], prNeedsMoreFetch = True, prResultUUID = \<lparr>Upper = -1, Lower = 9\<rparr>\<rparr>"
proof -
  let ?cols = "[\<lparr>cName = ''n'', cType = scalar_type TypeInteger, cVals = []\<rparr>]"
  have "schema_codable ?cols" "go_len ([] :: col list list)" "list_all chunk_codable []"
    by (simp_all add: schema_codable_def go_len_def maxTypeDepth_def scalar_type_def type_depth.simps type_id_defs)
  from DecodePrepare_EncodePrepareBody [OF this, of True "\<lparr>Upper = -1, Lower = 9\<rparr>" "\<lparr>cVersion = 1\<rparr>"] show ?thesis
    by (simp add: decoded_schema_def)
qed

text \<open>C17: a dictionary vector decodes to the column it stands for: row \<open>i\<close> is the dictionary entry
  that selection \<open>i\<close> names, the dictionary being any column the encoder can write.\<close>

theorem dictionary_vector_expands:
  assumes "vec_codable t dict" and "Suc (type_depth t) \<le> maxTypeDepth" and "length dict \<le> maxChunkRows"
    and "length sel \<le> maxVectorRows" and "list_all (\<lambda>i. unat i < length dict) sel"
  shows "\<exists>b r. writeVector [] t dict = Some b \<and>
    decodeVector 0 t (length sel) (NewReader (put_dictionary sel (length dict) b @ ys))
      = (Ok (map (\<lambda>i. dict ! unat i) sel), r) \<and> rerr r = None \<and> Rest r = ys"
proof -
  obtain b where b: "encodes_vector t dict b"
    using vector_encodable [OF assms(1)] by blast
  then have "writeVector [] t dict = Some b"
    by (simp add: encodes_vector_def)
  then show ?thesis
    using decodeVector_dictionary_rd [OF b, of 0 sel "[]" ys] assms by (simp add: NewReader_rd list_all_iff)
qed

theorem dictionary_vector_expands_witness:
  "\<exists>b r. writeVector [] (scalar_type TypeInteger) [VInt32 7, VNil] = Some b \<and>
    decodeVector 0 (scalar_type TypeInteger) 3 (NewReader (put_dictionary [0, 1, 0] 2 b))
      = (Ok [VInt32 7, VNil, VInt32 7], r) \<and> rerr r = None \<and> Rest r = []"
proof -
  have "vec_codable (scalar_type TypeInteger) [VInt32 7, VNil]" "Suc (type_depth (scalar_type TypeInteger)) \<le> maxTypeDepth"
    "length [VInt32 7, VNil] \<le> maxChunkRows" "length [0 :: u32, 1, 0] \<le> maxVectorRows"
    "list_all (\<lambda>i. unat i < length [VInt32 7, VNil]) [0, 1, 0]"
    by (simp_all add: scalar_type_def vec_codable.simps scalar_codable_def supportedScalar_def maxVectorRows_def
        maxChunkRows_def maxTypeDepth_def type_depth.simps type_id_defs)
  from dictionary_vector_expands [OF this, of "[]"] show ?thesis
    by (simp add: numeral_2_eq_2 numeral_3_eq_3)
qed

text \<open>C18: a constant vector decodes to its one value in every row.  A sequence vector decodes, for each of
  the eight integer column types, to the arithmetic progression from its start by its increment,
  every element cut to the width and the signedness of the column as Go's conversion does; for any
  other column type it is refused.\<close>

theorem constant_sequence_vectors_expand:
  assumes "vec_codable t [v]" and "Suc (type_depth t) \<le> maxTypeDepth" and "n \<le> maxVectorRows"
  shows "(\<exists>b r. writeVector [] t [v] = Some b \<and>
      decodeVector 0 t n (NewReader (put_constant b @ ys)) = (Ok (replicate n v), r) \<and> Rest r = ys) \<and>
    (\<forall>u start inc. case int_column (tID u) of
       Some c \<Rightarrow> \<exists>vs r. decodeVector 0 u n (NewReader (put_sequence start inc @ ys)) = (Ok vs, r) \<and> Rest r = ys \<and> length vs = n
         \<and> (\<forall>i < n. val_typed u (vs ! i) \<and> int_of_val (vs ! i) = Some (wrapped c (sint start + int i * sint inc)))
     | None \<Rightarrow> n = 0 \<or> (\<exists>r. decodeVector 0 u n (NewReader (put_sequence start inc @ ys)) = (Err (ErrSeqType (tID u)), r)))"
proof -
  obtain b where b: "encodes_vector t [v] b"
    using vector_encodable [OF assms(1)] by blast
  then have "writeVector [] t [v] = Some b"
    by (simp add: encodes_vector_def)
  moreover have "decodeVector 0 t n (NewReader (put_constant b @ ys)) = (Ok (replicate n v), rd (put_constant b) ys)"
    using decodeVector_constant_rd [OF b, of 0 n "[]" ys] assms by (simp add: NewReader_rd)
  ultimately show ?thesis
    using decodeVector_sequence_ints [OF assms(3)] decodeVector_sequence_refused [OF assms(3)]
    by (auto split: option.split)
qed

theorem constant_sequence_vectors_expand_witness:
  "(\<exists>b r. writeVector [] (scalar_type TypeInteger) [VInt32 7] = Some b
      \<and> decodeVector 0 (scalar_type TypeInteger) 3 (NewReader (put_constant b)) = (Ok [VInt32 7, VInt32 7, VInt32 7], r))
   \<and> (\<exists>vs r. decodeVector 0 (scalar_type TypeTinyint) 3 (NewReader (put_sequence 120 7)) = (Ok vs, r)
      \<and> map int_of_val vs = [Some 120, Some 127, Some (- 122)])"
proof -
  have "vec_codable (scalar_type TypeInteger) [VInt32 7]" "Suc (type_depth (scalar_type TypeInteger)) \<le> maxTypeDepth"
    "3 \<le> maxVectorRows"
    by (simp_all add: scalar_type_def vec_codable.simps scalar_codable_def supportedScalar_def maxVectorRows_def
        maxTypeDepth_def type_depth.simps type_id_defs)
  note e = constant_sequence_vectors_expand [OF this, of "[]"]
  have "int_column TypeTinyint = Some (True, 8)" by (simp add: int_column_def)
  then obtain vs r where vs: "decodeVector 0 (scalar_type TypeTinyint) 3 (NewReader (put_sequence 120 7)) = (Ok vs, r)" "length vs = 3"
      "\<forall>i < 3. int_of_val (vs ! i) = Some (wrapped (True, 8) (120 + int i * 7))"
    using e [THEN conjunct2, rule_format, of "scalar_type TypeTinyint" 120 7] by (auto simp: scalar_type_def)
  have w: "wrapped (True, 8) 120 = 120" "wrapped (True, 8) 127 = 127" "wrapped (True, 8) 134 = - 122" by code_simp+
  have "vs = [vs ! 0, vs ! 1, vs ! 2]" using vs(2) by (intro nth_equalityI) (auto simp: less_Suc_eq numeral_3_eq_3 numeral_2_eq_2)
  moreover have "int_of_val (vs ! 0) = Some 120" "int_of_val (vs ! 1) = Some 127" "int_of_val (vs ! 2) = Some (- 122)"
    using vs(3) [rule_format, of 0] vs(3) [rule_format, of 1] vs(3) [rule_format, of 2] w by simp_all
  ultimately have "map int_of_val vs = [Some 120, Some 127, Some (- 122)]" by (metis list.map(1,2))
  moreover have "replicate 3 (VInt32 7) = [VInt32 7, VInt32 7, VInt32 7]" by (simp add: numeral_3_eq_3)
  ultimately show ?thesis using e [THEN conjunct1] vs(1) by auto
qed

end
