(* ===== verification/Wire_Messages.thy ===== *)
theory Wire_Messages
  imports Qser
begin

text \<open>
  The messages of \<^verbatim>\<open>src/wire/messages.go\<close>: the envelope (a typed header followed by an opaque
  body) and the bodies the transport itself reads and writes.  A Go decoder returns the partly
  filled message with its error; the model returns the error alone, since no caller looks at
  the message then.

  Lemmas: every message reads back as written, and the envelope leaves the body untouched
  byte for byte, which is what a proxy relies on.
\<close>

section \<open>Message types\<close>

type_synonym message_type = byte

definition MsgInvalid :: message_type where
  "MsgInvalid = 0"

definition MsgConnectionRequest :: message_type where
  "MsgConnectionRequest = 1"

definition MsgConnectionResponse :: message_type where
  "MsgConnectionResponse = 2"

definition MsgPrepareRequest :: message_type where
  "MsgPrepareRequest = 3"

definition MsgPrepareResponse :: message_type where
  "MsgPrepareResponse = 4"

definition MsgFetchRequest :: message_type where
  "MsgFetchRequest = 7"

definition MsgFetchResponse :: message_type where
  "MsgFetchResponse = 8"

definition MsgAppendRequest :: message_type where
  "MsgAppendRequest = 9"

definition MsgSuccess :: message_type where
  "MsgSuccess = 10"

definition MsgDisconnect :: message_type where
  "MsgDisconnect = 11"

definition MsgError :: message_type where
  "MsgError = 100"

lemmas msg_defs = MsgInvalid_def MsgConnectionRequest_def MsgConnectionResponse_def MsgPrepareRequest_def
  MsgPrepareResponse_def MsgFetchRequest_def MsgFetchResponse_def MsgAppendRequest_def MsgSuccess_def
  MsgDisconnect_def MsgError_def

definition MessageType_String :: "message_type \<Rightarrow> string" where
  "MessageType_String t =
     (if t = MsgConnectionRequest then ''CONNECTION_REQUEST''
      else if t = MsgConnectionResponse then ''CONNECTION_RESPONSE''
      else if t = MsgPrepareRequest then ''PREPARE_REQUEST''
      else if t = MsgPrepareResponse then ''PREPARE_RESPONSE''
      else if t = MsgFetchRequest then ''FETCH_REQUEST''
      else if t = MsgFetchResponse then ''FETCH_RESPONSE''
      else if t = MsgAppendRequest then ''APPEND_REQUEST''
      else if t = MsgSuccess then ''SUCCESS_RESPONSE''
      else if t = MsgDisconnect then ''DISCONNECT_MESSAGE''
      else if t = MsgError then ''ERROR_RESPONSE''
      else ''MESSAGE('' @ nat_dec (unat t) @ '')'')"

definition QueryIDAbsent :: u64 where
  "QueryIDAbsent = OptionalIdxAbsent"

text \<open>The failures of the package \<open>wire\<close>; a transport error carries its text.\<close>

datatype wire_error =
    WHeaderMissingType
  | WBadHeader qser_error
  | WBad string qser_error
  | WServerError int string
  | WClosed
  | WTransport string
  | WContext string
  | WUnexpected string message_type
  | WMissingConnectionID
  | WVersion u64
  | WEmptyEndpoint
  | WUnparseableEndpoint
  | WEndpointScheme

definition wrapErr :: "string \<Rightarrow> 'a \<Rightarrow> reader \<Rightarrow> (wire_error, 'a) go" where
  "wrapErr what m r = (case rerr r of None \<Rightarrow> Ok m | Some e \<Rightarrow> Err (WBad what e))"

section \<open>The envelope\<close>

record header =
  hType :: message_type
  hConnectionID :: string
  hQueryID :: u64

definition EncodeEnvelope :: "header \<Rightarrow> bytes \<Rightarrow> bytes" where
  "EncodeEnvelope h body =
     (let w = FieldUvarint [] 1 (ucast (hType h));
          w = (if hConnectionID h \<noteq> [] then FieldString w 2 (hConnectionID h) else w);
          w = FieldUvarint w 3 (hQueryID h);
          w = Writer_End w
      in Writer_Raw w body)"

definition SplitEnvelope :: "bytes \<Rightarrow> (wire_error, header \<times> bytes) go" where
  "SplitEnvelope buf =
     (let (here, r) = TryField (NewReader buf) 1 in
      if \<not> here then Err WHeaderMissingType
      else
        let (ty, r) = Reader_Uvarint r;
            (cid, r) = opt_field r 2 Reader_String [];
            (qid, r) = opt_field r 3 OptionalIdx QueryIDAbsent;
            r = Reader_End r
        in case rerr r of
             Some e \<Rightarrow> Err (WBadHeader e)
           | None \<Rightarrow> Ok (\<lparr>hType = ucast ty, hConnectionID = cid, hQueryID = qid\<rparr>, Rest r))"

section \<open>Bodies\<close>

record connection_request =
  crAuthString :: string
  crClientVersion :: string
  crPlatform :: string
  crMinVersion :: u64
  crMaxVersion :: u64

text \<open>A string field left out when empty.\<close>

definition opt_string :: "writer \<Rightarrow> u16 \<Rightarrow> string \<Rightarrow> writer" where
  "opt_string w fid s = (if s \<noteq> [] then FieldString w fid s else w)"

definition ConnectionRequest_Encode :: "connection_request \<Rightarrow> bytes" where
  "ConnectionRequest_Encode m =
     (let w = opt_string [] 1 (crAuthString m);
          w = opt_string w 2 (crClientVersion m);
          w = opt_string w 3 (crPlatform m);
          w = FieldUvarint w 4 (crMinVersion m);
          w = FieldUvarint w 5 (crMaxVersion m)
      in Writer_End w)"

definition DecodeConnectionRequest :: "bytes \<Rightarrow> (wire_error, connection_request) go" where
  "DecodeConnectionRequest body =
     (let (auth, r) = opt_field (NewReader body) 1 Reader_String [];
          (ver, r) = opt_field r 2 Reader_String [];
          (plat, r) = opt_field r 3 Reader_String [];
          (mn, r) = opt_field r 4 Reader_Uvarint 0;
          (mx, r) = opt_field r 5 Reader_Uvarint 0;
          r = Reader_End r
      in wrapErr ''connection request''
           \<lparr>crAuthString = auth, crClientVersion = ver, crPlatform = plat, crMinVersion = mn, crMaxVersion = mx\<rparr> r)"

record connection_response =
  csServerVersion :: string
  csPlatform :: string
  csQuackVersion :: u64

definition ConnectionResponse_Encode :: "connection_response \<Rightarrow> bytes" where
  "ConnectionResponse_Encode m =
     (let w = opt_string [] 1 (csServerVersion m);
          w = opt_string w 2 (csPlatform m);
          w = FieldUvarint w 3 (csQuackVersion m)
      in Writer_End w)"

definition DecodeConnectionResponse :: "bytes \<Rightarrow> (wire_error, connection_response) go" where
  "DecodeConnectionResponse body =
     (let (ver, r) = opt_field (NewReader body) 1 Reader_String [];
          (plat, r) = opt_field r 2 Reader_String [];
          (qv, r) = opt_field r 3 Reader_Uvarint 0;
          r = Reader_End r
      in wrapErr ''connection response'' \<lparr>csServerVersion = ver, csPlatform = plat, csQuackVersion = qv\<rparr> r)"

text \<open>A PREPARE request holds its SQL, an ERROR response its message, a FETCH request its uuid.\<close>

definition PrepareRequest_Encode :: "string \<Rightarrow> bytes" where
  "PrepareRequest_Encode sql = Writer_End (opt_string [] 1 sql)"

definition DecodePrepareRequest :: "bytes \<Rightarrow> (wire_error, string) go" where
  "DecodePrepareRequest body =
     (let (sql, r) = opt_field (NewReader body) 1 Reader_String []; r = Reader_End r
      in wrapErr ''prepare request'' sql r)"

definition FetchRequest_Encode :: "hugeint \<Rightarrow> bytes" where
  "FetchRequest_Encode uuid = Writer_End (FieldHugeint [] 1 uuid)"

definition DecodeFetchRequest :: "bytes \<Rightarrow> (wire_error, hugeint) go" where
  "DecodeFetchRequest body =
     (let (uuid, r) = opt_field (NewReader body) 1 Reader_Hugeint \<lparr>Upper = 0, Lower = 0\<rparr>; r = Reader_End r
      in wrapErr ''fetch request'' uuid r)"

definition EncodeEmptyBody :: bytes where
  "EncodeEmptyBody = Writer_End []"

definition ErrorMessage_Encode :: "string \<Rightarrow> bytes" where
  "ErrorMessage_Encode message = Writer_End (opt_string [] 1 message)"

definition DecodeErrorMessage :: "bytes \<Rightarrow> (wire_error, string) go" where
  "DecodeErrorMessage body =
     (let (message, r) = opt_field (NewReader body) 1 Reader_String []; r = Reader_End r
      in wrapErr ''error response'' message r)"

section \<open>Reading back\<close>

definition put_opt_string :: "u16 \<Rightarrow> string \<Rightarrow> bytes" where
  "put_opt_string fid s = (if s \<noteq> [] then le_put 2 fid @ put_string s else [])"

lemma opt_string_put [writer_simps]: "opt_string w fid s = w @ put_opt_string fid s"
  by (simp add: opt_string_def put_opt_string_def writer_appends)

text \<open>What follows an optional string starts with a field id other than its own.\<close>

definition next_field :: "u16 \<Rightarrow> bytes \<Rightarrow> bool" where
  "next_field fid bs \<longleftrightarrow> (\<exists>f rest. bs = le_put 2 f @ rest \<and> f > fid)"

lemma next_field_put [simp]: "fid < f \<Longrightarrow> next_field fid (le_put 2 f @ rest)" "fid < f \<Longrightarrow> next_field fid (le_put 2 f)"
  by (auto simp: next_field_def)

lemma next_field_opt [simp]: "fid < f \<Longrightarrow> next_field f bs \<Longrightarrow> next_field fid (put_opt_string f s @ bs)"
  by (auto simp: next_field_def put_opt_string_def intro: less_trans)

lemma opt_string_rd:
  assumes "go_len s" "next_field fid bs"
  shows "opt_field (rd pre (put_opt_string fid s @ bs)) fid Reader_String [] = (s, rd (pre @ put_opt_string fid s) bs)"
proof (cases "s = []")
  case True
  obtain f rest where "bs = le_put 2 f @ rest" "f > fid"
    using assms(2) by (auto simp: next_field_def)
  then show ?thesis
    using True by (auto simp: put_opt_string_def wire_simps)
next
  case False
  then show ?thesis
    using assms(1) by (simp add: put_opt_string_def wire_simps)
qed

lemma less_EndID [simp]: "1 < EndID" "2 < EndID" "3 < EndID"
  by (simp_all add: EndID_def)

lemma wrapErr_rd [simp]: "wrapErr what m (rd pre bs) = Ok m"
  by (simp add: wrapErr_def)

lemma split_envelope_rd:
  assumes "go_len (hConnectionID h)"
  shows "SplitEnvelope (EncodeEnvelope h body) = Ok (h, body)"
proof -
  have "EncodeEnvelope h body = le_put 2 (1 :: u16) @ put_uvarint (ucast (hType h)) @ put_opt_string 2 (hConnectionID h) @
      le_put 2 (3 :: u16) @ put_uvarint (hQueryID h) @ le_put 2 EndID @ body"
    by (simp add: EncodeEnvelope_def put_opt_string_def writer_appends Let_def)
  then show ?thesis
    using assms by (simp add: SplitEnvelope_def NewReader_rd wire_simps opt_string_rd)
qed

lemma connection_request_rd [wire_simps]:
  "go_len (crAuthString q) \<Longrightarrow> go_len (crClientVersion q) \<Longrightarrow> go_len (crPlatform q) \<Longrightarrow>
    DecodeConnectionRequest (ConnectionRequest_Encode q) = Ok q"
  by (simp add: ConnectionRequest_Encode_def DecodeConnectionRequest_def Let_def writer_simps NewReader_rd opt_string_rd wire_simps)

lemma connection_response_rd [wire_simps]:
  "go_len (csServerVersion s) \<Longrightarrow> go_len (csPlatform s) \<Longrightarrow>
    DecodeConnectionResponse (ConnectionResponse_Encode s) = Ok s"
  by (simp add: ConnectionResponse_Encode_def DecodeConnectionResponse_def Let_def writer_simps NewReader_rd opt_string_rd wire_simps)

lemma prepare_request_rd [wire_simps]: "go_len sql \<Longrightarrow> DecodePrepareRequest (PrepareRequest_Encode sql) = Ok sql"
  by (simp add: PrepareRequest_Encode_def DecodePrepareRequest_def Let_def writer_simps NewReader_rd opt_string_rd wire_simps)

lemma fetch_request_rd [wire_simps]: "DecodeFetchRequest (FetchRequest_Encode uuid) = Ok uuid"
  by (simp add: FetchRequest_Encode_def DecodeFetchRequest_def Let_def writer_simps NewReader_rd wire_simps)

lemma error_message_rd [wire_simps]: "go_len message \<Longrightarrow> DecodeErrorMessage (ErrorMessage_Encode message) = Ok message"
  by (simp add: ErrorMessage_Encode_def DecodeErrorMessage_def Let_def writer_simps NewReader_rd opt_string_rd wire_simps)

section \<open>Properties\<close>

text \<open>C19: splitting an envelope returns the header that was framed and the body untouched, byte for
  byte, for any body and any query id.\<close>

theorem SplitEnvelope_EncodeEnvelope:
  assumes "go_len (hConnectionID h)"
  shows "SplitEnvelope (EncodeEnvelope h body) = Ok (h, body)"
  using assms by (rule split_envelope_rd)

theorem SplitEnvelope_EncodeEnvelope_witness:
  "SplitEnvelope (EncodeEnvelope \<lparr>hType = MsgFetchRequest, hConnectionID = ''ab'', hQueryID = 3\<rparr> [1, 2])
    = Ok (\<lparr>hType = MsgFetchRequest, hConnectionID = ''ab'', hQueryID = 3\<rparr>, [1, 2])"
  by (rule SplitEnvelope_EncodeEnvelope) (simp add: go_len_def)

text \<open>C20: every body the transport writes reads back as it was written: connection requests and
  responses, SQL, fetch uuids and error messages, empty strings included.\<close>

theorem message_roundtrips:
  assumes "go_len (crAuthString q)" and "go_len (crClientVersion q)" and "go_len (crPlatform q)"
    and "go_len (csServerVersion s)" and "go_len (csPlatform s)" and "go_len sql" and "go_len message"
  shows "DecodeConnectionRequest (ConnectionRequest_Encode q) = Ok q \<and>
    DecodeConnectionResponse (ConnectionResponse_Encode s) = Ok s \<and>
    DecodePrepareRequest (PrepareRequest_Encode sql) = Ok sql \<and>
    DecodeFetchRequest (FetchRequest_Encode uuid) = Ok uuid \<and>
    DecodeErrorMessage (ErrorMessage_Encode message) = Ok message"
  using assms by (simp add: wire_simps)

theorem message_roundtrips_witness:
  "DecodePrepareRequest (PrepareRequest_Encode ''SELECT 1'') = Ok ''SELECT 1''"
  using message_roundtrips [of "\<lparr>crAuthString = [], crClientVersion = ''c'', crPlatform = [], crMinVersion = 1, crMaxVersion = 1\<rparr>"
      "\<lparr>csServerVersion = ''v'', csPlatform = [], csQuackVersion = 1\<rparr>" "''SELECT 1''" "''m''" "\<lparr>Upper = 0, Lower = 1\<rparr>"]
  by (simp add: go_len_def)

end
