(* ===== verification/Wire_Client.thy ===== *)
theory Wire_Client
  imports Wire_Messages "HOL-Library.Sublist"
begin

text \<open>
  The transport client: \<^verbatim>\<open>src/wire/config.go\<close>, \<^verbatim>\<open>errors.go\<close>, \<^verbatim>\<open>retry.go\<close>,
  \<^verbatim>\<open>versions.go\<close> and \<^verbatim>\<open>client.go\<close>.  Go's HTTP client, clock and context are parameters
  over a world \<open>'w\<close>: \<open>post\<close> sends one request to a URL and returns what came back, \<open>ctx_err\<close>
  is \<open>ctx.Err() != nil\<close>, \<open>wait\<close> is the select between the timer and the context.  URL
  parsing is the parameter \<open>parse_scheme\<close>.  Durations are \<open>int64\<close> nanoseconds.

  Lemmas: the connect handshake makes at most \<open>MaxRetries + 1\<close> requests and backs off by
  doubling; nothing else is retried; a closed client sends nothing; what a client sends is
  given by an abstract trace; what redaction leaves of a text does not contain the token.
\<close>

section \<open>Configuration\<close>

record config =
  cfEndpoint :: string
  cfToken :: string
  cfFetchWorkers :: int
  cfConnectTimeout :: u64
  cfMaxRetries :: int
  cfRetryBaseDelay :: u64

text \<open>\<open>None\<close> from \<open>parse_scheme\<close> is a URL that does not parse.\<close>

definition withDefaults :: "(string \<Rightarrow> string option) \<Rightarrow> config \<Rightarrow> (wire_error, config) go" where
  "withDefaults parse_scheme c =
     (if cfEndpoint c = [] then Err WEmptyEndpoint
      else case parse_scheme (cfEndpoint c) of
        None \<Rightarrow> Err WUnparseableEndpoint
      | Some scheme \<Rightarrow>
          if scheme \<noteq> ''http'' \<and> scheme \<noteq> ''https'' then Err WEndpointScheme
          else
            let c = (if cfFetchWorkers c \<le> 0 then c\<lparr>cfFetchWorkers := 4\<rparr> else c);
                c = (if sint (cfConnectTimeout c) \<le> 0 then c\<lparr>cfConnectTimeout := 10 * 1000000000\<rparr> else c);
                c = (if cfMaxRetries c = 0 then c\<lparr>cfMaxRetries := 3\<rparr> else c);
                c = (if sint (cfRetryBaseDelay c) \<le> 0 then c\<lparr>cfRetryBaseDelay := 100 * 1000000\<rparr> else c)
            in Ok c)"

definition quackVersionMin :: u64 where
  "quackVersionMin = 1"

definition quackVersionMax :: u64 where
  "quackVersionMax = 1"

definition pathRPC :: string where
  "pathRPC = ''/quack''"

definition clientVersion :: string where
  "clientVersion = ''duckcall/0.4''"

definition contentType :: string where
  "contentType = ''application/octet-stream''"

section \<open>Errors\<close>

text \<open>\<open>strings.Contains\<close>, and \<open>strings.ReplaceAll\<close> for a non-empty old string.\<close>

fun contains :: "string \<Rightarrow> string \<Rightarrow> bool" where
  "contains [] sub = (sub = [])"
| "contains (c # s) sub = (prefix sub (c # s) \<or> contains s sub)"

function replace_all :: "string \<Rightarrow> string \<Rightarrow> string \<Rightarrow> string" where
  "replace_all old new [] = []"
| "replace_all old new (c # s) =
     (if old \<noteq> [] \<and> prefix old (c # s) then new @ replace_all old new (drop (length old) (c # s))
      else c # replace_all old new s)"
  by pat_completeness auto
termination
  by (relation "measure (\<lambda>(old, new, s). length s)") auto

definition redacted :: string where
  "redacted = ''[redacted]''"

definition redactToken :: "string \<Rightarrow> string \<Rightarrow> string" where
  "redactToken token s = (if token = [] then s else replace_all token redacted s)"

definition connectionExpired :: "string \<Rightarrow> bool" where
  "connectionExpired m \<longleftrightarrow>
     contains m ''Invalid connection id'' \<or> contains m ''Connection does not exist / already disconnected''"

text \<open>\<open>errors.Is(err, ErrConnectionExpired)\<close> of a server error.\<close>

definition is_connection_expired :: "wire_error \<Rightarrow> bool" where
  "is_connection_expired e = (case e of WServerError status m \<Rightarrow> status = 0 \<and> connectionExpired m | _ \<Rightarrow> False)"

definition ServerError_Error :: "int \<Rightarrow> string \<Rightarrow> string" where
  "ServerError_Error status message =
     (if status = 0 then ''wire: server error: '' @ message
      else if message = [] then ''wire: server returned HTTP '' @ int_dec status
      else ''wire: server returned HTTP '' @ int_dec status @ '': '' @ message)"

text \<open>The text of an error, as \<open>Error()\<close> builds it; the causes of a transport error bring their own.\<close>

definition qser_error_text :: "qser_error \<Rightarrow> string" where
  "qser_error_text e = (case e of
     ErrTruncated \<Rightarrow> ''qser: truncated input''
   | ErrOverflow \<Rightarrow> ''qser: varint overflow''
   | ErrUnexpectedField fid \<Rightarrow> ''qser: unexpected field '' @ nat_dec (unat fid) @ '' where object should end'')"

definition wire_error_text :: "wire_error \<Rightarrow> string" where
  "wire_error_text e = (case e of
     WHeaderMissingType \<Rightarrow> ''wire: message header missing type''
   | WBadHeader q \<Rightarrow> ''wire: bad message header: '' @ qser_error_text q
   | WBad what q \<Rightarrow> ''wire: bad '' @ what @ '': '' @ qser_error_text q
   | WServerError status m \<Rightarrow> ServerError_Error status m
   | WClosed \<Rightarrow> ''wire: client is closed''
   | WTransport m \<Rightarrow> m
   | WContext m \<Rightarrow> m
   | WUnexpected op t \<Rightarrow> ''wire: '' @ op @ '' answered with '' @ MessageType_String t
   | WMissingConnectionID \<Rightarrow> ''wire: connection response missing connection id''
   | WVersion v \<Rightarrow> ''wire: server speaks quack version '' @ nat_dec (unat v) @ '', this build speaks '' @
       nat_dec (unat quackVersionMin) @ ''..'' @ nat_dec (unat quackVersionMax)
   | WEmptyEndpoint \<Rightarrow> ''wire: empty endpoint''
   | WUnparseableEndpoint \<Rightarrow> ''wire: unparseable endpoint''
   | WEndpointScheme \<Rightarrow> ''wire: endpoint scheme must be http or https'')"

section \<open>One exchange\<close>

text \<open>
  A transport error with its text, or a response: the status, the body as far as it was read,
  and the error that ended the reading, if one did.
\<close>

datatype http_result = HTTPFail string | HTTPResp int bytes "string option"

type_synonym 'w post = "string \<Rightarrow> string \<Rightarrow> bytes \<Rightarrow> 'w \<Rightarrow> http_result \<times> 'w"

definition redactErr :: "config \<Rightarrow> string \<Rightarrow> wire_error" where
  "redactErr cfg err = WTransport (redactToken (cfToken cfg) err)"

definition roundTrip ::
  "'w post \<Rightarrow> config \<Rightarrow> bytes \<Rightarrow> 'w \<Rightarrow> ((wire_error, header \<times> bytes) go \<times> int) \<times> 'w" where
  "roundTrip post cfg m w =
     (case post (cfEndpoint cfg @ pathRPC) contentType m w of
        (HTTPFail err, w) \<Rightarrow> ((Err (redactErr cfg err), 0), w)
      | (HTTPResp status body readErr, w) \<Rightarrow>
          (if status \<noteq> 200
           then ((Err (WServerError status (redactToken (cfToken cfg) (go_string (take 4096 body)))), status), w)
           else case readErr of
             Some err \<Rightarrow> ((Err (redactErr cfg err), status), w)
           | None \<Rightarrow> ((SplitEnvelope body, status), w)))"

definition serverError :: "config \<Rightarrow> bytes \<Rightarrow> (wire_error, 'a) go" where
  "serverError cfg body =
     (case DecodeErrorMessage body of
        Ok m \<Rightarrow> Err (WServerError 0 (redactToken (cfToken cfg) m))
      | Err e \<Rightarrow> Err e
      | Panic \<Rightarrow> Panic)"

definition retryableStatus :: "int \<Rightarrow> bool" where
  "retryableStatus code \<longleftrightarrow> code = 429 \<or> (code \<ge> 500 \<and> code \<noteq> 501)"

text \<open>The retry loop: \<open>attempt\<close> counts from 0, \<open>delay\<close> doubles (and wraps as \<open>int64\<close> does).\<close>

function retry_loop ::
  "('w \<Rightarrow> bool) \<Rightarrow> (u64 \<Rightarrow> 'w \<Rightarrow> string option \<times> 'w) \<Rightarrow> int \<Rightarrow>
   ('w \<Rightarrow> (bool \<times> (wire_error, 'a) go) \<times> 'w) \<Rightarrow> nat \<Rightarrow> u64 \<Rightarrow> 'w \<Rightarrow> (wire_error, 'a) go \<times> 'w" where
  "retry_loop ctx_err wait maxRetries fn attempt delay w =
     (case fn w of
        ((retryable, Ok x), w) \<Rightarrow> (Ok x, w)
      | ((retryable, Panic), w) \<Rightarrow> (Panic, w)
      | ((retryable, Err e), w) \<Rightarrow>
          (if \<not> retryable \<or> int attempt \<ge> maxRetries \<or> ctx_err w then (Err e, w)
           else case wait delay w of
             (Some cause, w) \<Rightarrow> (Err (WContext cause), w)
           | (None, w) \<Rightarrow> retry_loop ctx_err wait maxRetries fn (attempt + 1) (delay * 2) w))"
  by pat_completeness auto
termination
  by (relation "measure (\<lambda>(ce, wt, maxRetries, fn, attempt, delay, w). nat (maxRetries - int attempt))") auto

declare retry_loop.simps [simp del]

definition retry where
  "retry ctx_err wait cfg fn w = retry_loop ctx_err wait (cfMaxRetries cfg) fn 0 (cfRetryBaseDelay cfg) w"

section \<open>The client\<close>

record client =
  clCfg :: config
  clConnID :: string
  clServer :: connection_response
  clQid :: u64
  clClosed :: bool

definition connect_message :: "string \<Rightarrow> config \<Rightarrow> bytes" where
  "connect_message platform cfg =
     EncodeEnvelope \<lparr>hType = MsgConnectionRequest, hConnectionID = [], hQueryID = QueryIDAbsent\<rparr>
       (ConnectionRequest_Encode \<lparr>crAuthString = cfToken cfg, crClientVersion = clientVersion,
          crPlatform = platform, crMinVersion = quackVersionMin, crMaxVersion = quackVersionMax\<rparr>)"

text \<open>What \<open>Connect\<close> makes of the answer to its request.\<close>

definition accept_connection :: "config \<Rightarrow> header \<Rightarrow> bytes \<Rightarrow> (wire_error, client) go" where
  "accept_connection cfg hdr body =
     (if hType hdr = MsgError then serverError cfg body
      else if hType hdr \<noteq> MsgConnectionResponse then Err (WUnexpected ''connect'' (hType hdr))
      else if hConnectionID hdr = [] then Err WMissingConnectionID
      else go_bind (DecodeConnectionResponse body) (\<lambda>resp.
        if csQuackVersion resp < quackVersionMin \<or> csQuackVersion resp > quackVersionMax
        then Err (WVersion (csQuackVersion resp))
        else Ok \<lparr>clCfg = cfg, clConnID = hConnectionID hdr, clServer = resp, clQid = 0, clClosed = False\<rparr>))"

definition connect_attempt ::
  "'w post \<Rightarrow> config \<Rightarrow> bytes \<Rightarrow> 'w \<Rightarrow> (bool \<times> (wire_error, header \<times> bytes) go) \<times> 'w" where
  "connect_attempt post cfg m w =
     (case roundTrip post cfg m w of ((res, status), w) \<Rightarrow> ((status = 0 \<or> retryableStatus status, res), w))"

definition Connect where
  "Connect parse_scheme platform post ctx_err wait cfg w =
     (case withDefaults parse_scheme cfg of
        Err e \<Rightarrow> (Err e, w)
      | Panic \<Rightarrow> (Panic, w)
      | Ok cfg \<Rightarrow>
          (case retry ctx_err wait cfg (connect_attempt post cfg (connect_message platform cfg)) w of
             (Ok (hdr, body), w) \<Rightarrow> (accept_connection cfg hdr body, w)
           | (Err e, w) \<Rightarrow> (Err e, w)
           | (Panic, w) \<Rightarrow> (Panic, w)))"

definition call ::
  "'w post \<Rightarrow> client \<Rightarrow> message_type \<Rightarrow> bytes \<Rightarrow> message_type \<Rightarrow> 'w \<Rightarrow> (wire_error, bytes) go \<times> client \<times> 'w" where
  "call post c req body want w =
     (if clClosed c then (Err WClosed, c, w)
      else
        let c = c\<lparr>clQid := clQid c + 1\<rparr> in
        case roundTrip post (clCfg c)
               (EncodeEnvelope \<lparr>hType = req, hConnectionID = clConnID c, hQueryID = clQid c\<rparr> body) w of
          ((Ok (hdr, respBody), _), w) \<Rightarrow>
            (if hType hdr = want then Ok respBody
             else if hType hdr = MsgError then serverError (clCfg c) respBody
             else Err (WUnexpected (MessageType_String req) (hType hdr)), c, w)
        | ((Err e, _), w) \<Rightarrow> (Err e, c, w)
        | ((Panic, _), w) \<Rightarrow> (Panic, c, w))"

definition Prepare :: "'w post \<Rightarrow> client \<Rightarrow> string \<Rightarrow> 'w \<Rightarrow> (wire_error, bytes) go \<times> client \<times> 'w" where
  "Prepare post c sql w = call post c MsgPrepareRequest (PrepareRequest_Encode sql) MsgPrepareResponse w"

definition Fetch :: "'w post \<Rightarrow> client \<Rightarrow> hugeint \<Rightarrow> 'w \<Rightarrow> (wire_error, bytes) go \<times> client \<times> 'w" where
  "Fetch post c uuid w = call post c MsgFetchRequest (FetchRequest_Encode uuid) MsgFetchResponse w"

definition Client_Close :: "'w post \<Rightarrow> client \<Rightarrow> 'w \<Rightarrow> (wire_error, unit) go \<times> client \<times> 'w" where
  "Client_Close post c w =
     (if clClosed c then (Ok (), c, w)
      else
        let c = c\<lparr>clClosed := True\<rparr> in
        case roundTrip post (clCfg c)
               (EncodeEnvelope \<lparr>hType = MsgDisconnect, hConnectionID = clConnID c, hQueryID = QueryIDAbsent\<rparr>
                  EncodeEmptyBody) w of
          ((Ok (hdr, body), _), w) \<Rightarrow>
            (if hType hdr = MsgSuccess then Ok ()
             else if hType hdr = MsgError then serverError (clCfg c) body
             else Err (WUnexpected ''disconnect'' (hType hdr)), c, w)
        | ((Err e, _), w) \<Rightarrow> (Err e, c, w)
        | ((Panic, _), w) \<Rightarrow> (Panic, c, w))"

definition RoundTripRaw :: "'w post \<Rightarrow> client \<Rightarrow> bytes \<Rightarrow> 'w \<Rightarrow> (wire_error, header \<times> bytes) go \<times> 'w" where
  "RoundTripRaw post c m w =
     (if clClosed c then (Err WClosed, w) else apfst fst (roundTrip post (clCfg c) m w))"

section \<open>What goes over the wire\<close>

text \<open>
  An observer of the client: the world is paired with the events so far, a request with its
  body or a pause of the backoff.  Any server and any clock can be observed.
\<close>

datatype event = Sent bytes | Waited u64

definition seen_post :: "'w post \<Rightarrow> ('w \<times> event list) post" where
  "seen_post post url ct m = (\<lambda>(w, l). case post url ct m w of (r, w) \<Rightarrow> (r, w, l @ [Sent m]))"

definition seen_wait :: "(u64 \<Rightarrow> 'w \<Rightarrow> string option \<times> 'w) \<Rightarrow> u64 \<Rightarrow> 'w \<times> event list \<Rightarrow> string option \<times> 'w \<times> event list" where
  "seen_wait wait d = (\<lambda>(w, l). case wait d w of (r, w) \<Rightarrow> (r, w, l @ [Waited d]))"

text \<open>
  The interface between the client and the network, as the client's code relies on it: posting
  records exactly the message it was given, pausing records the pause.
\<close>

locale observed =
  fixes post :: "'w post" and wait :: "u64 \<Rightarrow> 'w \<Rightarrow> string option \<times> 'w" and events :: "'w \<Rightarrow> event list"
  assumes post_events: "events (snd (post url ct m w)) = events w @ [Sent m]"
    and wait_events: "events (snd (wait d w)) = events w @ [Waited d]"
begin

lemma roundTrip_events: "events (snd (roundTrip post cfg m w)) = events w @ [Sent m]"
  using post_events [of "cfEndpoint cfg @ pathRPC" contentType m w]
  by (auto simp: roundTrip_def split: prod.splits http_result.splits option.splits)

lemma call_events:
  "events (snd (snd (call post c req body want w))) =
     events w @ (if clClosed c then []
                 else [Sent (EncodeEnvelope \<lparr>hType = req, hConnectionID = clConnID c, hQueryID = clQid c + 1\<rparr> body)])"
  using roundTrip_events [of "clCfg c" "EncodeEnvelope \<lparr>hType = req, hConnectionID = clConnID c, hQueryID = clQid c + 1\<rparr> body" w]
  by (auto simp: call_def Let_def split: prod.splits go.splits)

lemma call_client:
  "fst (snd (call post c req body want w)) = (if clClosed c then c else c\<lparr>clQid := clQid c + 1\<rparr>)"
  by (auto simp: call_def Let_def split: prod.splits go.splits)

lemma close_events:
  "events (snd (snd (Client_Close post c w))) =
     events w @ (if clClosed c then []
                 else [Sent (EncodeEnvelope \<lparr>hType = MsgDisconnect, hConnectionID = clConnID c, hQueryID = QueryIDAbsent\<rparr> EncodeEmptyBody)])"
  using roundTrip_events [of "clCfg c" "EncodeEnvelope \<lparr>hType = MsgDisconnect, hConnectionID = clConnID c, hQueryID = QueryIDAbsent\<rparr> EncodeEmptyBody" w]
  by (auto simp: Client_Close_def Let_def split: prod.splits go.splits)

lemma close_client: "fst (snd (Client_Close post c w)) = c\<lparr>clClosed := True\<rparr>"
  by (auto simp: Client_Close_def Let_def split: prod.splits go.splits)

lemma raw_events:
  "events (snd (RoundTripRaw post c m w)) = events w @ (if clClosed c then [] else [Sent m])"
  using roundTrip_events [of "clCfg c" m w]
  by (auto simp: RoundTripRaw_def apfst_def map_prod_def split: prod.splits)

end

fun attempts :: "bytes \<Rightarrow> u64 \<Rightarrow> nat \<Rightarrow> event list" where
  "attempts m d 0 = [Sent m]"
| "attempts m d (Suc n) = Sent m # Waited d # attempts m (2 * d) n"

lemma attempts_count: "length (filter (\<lambda>e. e = Sent m) (attempts m d n)) = n + 1"
  by (induction n arbitrary: d) auto

context observed begin

lemma connect_attempt_events: "events (snd (connect_attempt post cfg m w)) = events w @ [Sent m]"
  using roundTrip_events [of cfg m w] by (auto simp: connect_attempt_def split: prod.splits)

lemma retry_loop_events:
  "\<exists>t. t \<noteq> [] \<and> prefix t (attempts m d (nat (maxRetries - int n)))
     \<and> events (snd (retry_loop ctx_err wait maxRetries (connect_attempt post cfg m) n d w)) = events w @ t"
proof (induction "nat (maxRetries - int n)" arbitrary: n d w)
  case 0
  have "events (snd (retry_loop ctx_err wait maxRetries (connect_attempt post cfg m) n d w)) = events w @ [Sent m]"
    using 0 connect_attempt_events [of cfg m w]
    by (subst retry_loop.simps) (auto split: prod.splits go.splits)
  then show ?case using 0 by (intro exI [of _ "[Sent m]"]) auto
next
  case (Suc k)
  have k: "k = nat (maxRetries - int (Suc n))" using Suc.hyps(2) by simp
  obtain rt r w1 where a: "connect_attempt post cfg m w = ((rt, r), w1)" by (metis surj_pair)
  then have e1: "events w1 = events w @ [Sent m]" using connect_attempt_events [of cfg m w] by simp
  obtain s w2 where b: "wait d w1 = (s, w2)" by (metis surj_pair)
  then have e2: "events w2 = events w @ [Sent m, Waited d]" using wait_events [of d w1] e1 by simp
  obtain t where t: "t \<noteq> []" "prefix t (attempts m (2 * d) k)"
    "events (snd (retry_loop ctx_err wait maxRetries (connect_attempt post cfg m) (Suc n) (d * 2) w2)) = events w2 @ t"
    using Suc.hyps(1) [OF k, of "d * 2" w2] unfolding k [symmetric] by (auto simp: mult.commute)
  have unf: "retry_loop ctx_err wait maxRetries (connect_attempt post cfg m) n d w =
     (case r of Ok x \<Rightarrow> (Ok x, w1) | Panic \<Rightarrow> (Panic, w1)
      | Err e \<Rightarrow> if \<not> rt \<or> int n \<ge> maxRetries \<or> ctx_err w1 then (Err e, w1)
         else case s of Some cause \<Rightarrow> (Err (WContext cause), w2)
           | None \<Rightarrow> retry_loop ctx_err wait maxRetries (connect_attempt post cfg m) (Suc n) (d * 2) w2)"
    by (subst retry_loop.simps) (simp add: a b split: go.split option.split)
  show ?case
    unfolding unf Suc.hyps(2) [symmetric]
  proof (cases r)
    case (Err e)
    have "prefix (Sent m # Waited d # t) (attempts m d (Suc k))"
      "prefix [Sent m] (attempts m d (Suc k))" "prefix [Sent m, Waited d] (attempts m d (Suc k))"
      using t(2) by auto
    moreover have "events w2 @ t = events w @ (Sent m # Waited d # t)" using e2 by simp
    ultimately show "\<exists>t. t \<noteq> [] \<and> prefix t (attempts m d (Suc k)) \<and> events (snd (case r of Ok x \<Rightarrow> (Ok x, w1) | Panic \<Rightarrow> (Panic, w1)
      | Err e \<Rightarrow> if \<not> rt \<or> int n \<ge> maxRetries \<or> ctx_err w1 then (Err e, w1)
         else case s of Some cause \<Rightarrow> (Err (WContext cause), w2)
           | None \<Rightarrow> retry_loop ctx_err wait maxRetries (connect_attempt post cfg m) (Suc n) (d * 2) w2)) = events w @ t"
      using Err e1 e2 t(3) by (cases s) (auto 0 3 intro: exI [of _ "[Sent m]"] exI [of _ "[Sent m, Waited d]"] exI [of _ "Sent m # Waited d # t"])
  qed (use e1 in \<open>auto intro!: exI [of _ "[Sent m]"]\<close>)
qed

end

interpretation seen: observed "seen_post post" "seen_wait wait" snd for post wait
  by unfold_locales (auto simp: seen_post_def seen_wait_def split: prod.splits)

text \<open>A use of the client: the calls a program makes on one connection, in their order.\<close>

datatype client_op = OpPrepare string | OpFetch hugeint | OpRaw bytes | OpClose

definition client_step :: "'w post \<Rightarrow> client_op \<Rightarrow> client \<times> 'w \<Rightarrow> client \<times> 'w" where
  "client_step post op = (\<lambda>(c, w).
     case op of
       OpPrepare sql \<Rightarrow> snd (Prepare post c sql w)
     | OpFetch u \<Rightarrow> snd (Fetch post c u w)
     | OpRaw m \<Rightarrow> (c, snd (RoundTripRaw post c m w))
     | OpClose \<Rightarrow> snd (Client_Close post c w))"

text \<open>
  What a connection promises to send: one message per call, calls numbered on from the last
  query id, a disconnect at the first close and nothing after it.
\<close>

fun session :: "string \<Rightarrow> u64 \<Rightarrow> client_op list \<Rightarrow> bytes list" where
  "session cid qid [] = []"
| "session cid qid (OpPrepare sql # ops) =
     EncodeEnvelope \<lparr>hType = MsgPrepareRequest, hConnectionID = cid, hQueryID = qid + 1\<rparr> (PrepareRequest_Encode sql)
     # session cid (qid + 1) ops"
| "session cid qid (OpFetch u # ops) =
     EncodeEnvelope \<lparr>hType = MsgFetchRequest, hConnectionID = cid, hQueryID = qid + 1\<rparr> (FetchRequest_Encode u)
     # session cid (qid + 1) ops"
| "session cid qid (OpRaw m # ops) = m # session cid qid ops"
| "session cid qid (OpClose # ops) =
     [EncodeEnvelope \<lparr>hType = MsgDisconnect, hConnectionID = cid, hQueryID = QueryIDAbsent\<rparr> EncodeEmptyBody]"

context observed begin

lemma call_state:
  assumes "snd (call post c req body want w) = (c', w')"
  shows "c' = (if clClosed c then c else c\<lparr>clQid := clQid c + 1\<rparr>)
      \<and> events w' = events w @ (if clClosed c then []
           else [Sent (EncodeEnvelope \<lparr>hType = req, hConnectionID = clConnID c, hQueryID = clQid c + 1\<rparr> body)])"
  using call_client [of c req body want w] call_events [of c req body want w] assms by simp_all

lemma close_state:
  assumes "snd (Client_Close post c w) = (c', w')"
  shows "c' = c\<lparr>clClosed := True\<rparr>
      \<and> events w' = events w @ (if clClosed c then []
           else [Sent (EncodeEnvelope \<lparr>hType = MsgDisconnect, hConnectionID = clConnID c, hQueryID = QueryIDAbsent\<rparr> EncodeEmptyBody)])"
  using close_client [of c w] close_events [of c w] assms by simp_all

lemma client_step_session:
  assumes "client_step post op (c, w) = (c', w')"
  shows "clConnID c' = clConnID c"
    and "events w' @ map Sent (if clClosed c' then [] else session (clConnID c') (clQid c') ops)
       = events w @ map Sent (if clClosed c then [] else session (clConnID c) (clQid c) (op # ops))"
proof -
  show "clConnID c' = clConnID c"
    using assms by (cases op) (auto simp: client_step_def Prepare_def Fetch_def dest!: call_state close_state)
  show "events w' @ map Sent (if clClosed c' then [] else session (clConnID c') (clQid c') ops)
       = events w @ map Sent (if clClosed c then [] else session (clConnID c) (clQid c) (op # ops))"
    using assms raw_events [of c _ w]
    by (cases op; cases "clClosed c") (auto simp: client_step_def Prepare_def Fetch_def dest!: call_state close_state)
qed

lemma session_events:
  "events (snd (fold (client_step post) ops (c, w)))
     = events w @ map Sent (if clClosed c then [] else session (clConnID c) (clQid c) ops)"
proof (induction ops arbitrary: c w)
  case (Cons op ops)
  obtain c' w' where s: "client_step post op (c, w) = (c', w')" by (metis surj_pair)
  show ?case
    using client_step_session(2) [OF s, of ops] Cons [of c' w'] by (simp add: s)
qed auto

end

section \<open>Redaction\<close>

lemma contains_sublist: "contains s sub \<longleftrightarrow> sublist sub s"
  by (induction s) (auto simp: sublist_Cons_right)

definition plain_token :: "string \<Rightarrow> bool" where
  "plain_token tok \<longleftrightarrow> tok \<noteq> [] \<and> CHR ''['' \<notin> set tok \<and> CHR '']'' \<notin> set tok \<and> CHR '' '' \<notin> set tok
     \<and> \<not> contains ''redacted'' tok"

lemma replace_all_prefix:
  assumes "prefix u (replace_all old (CHR ''['' # new) s)" "CHR ''['' \<notin> set u"
  shows "prefix u s"
  using assms
proof (induction s arbitrary: u)
  case (Cons c s)
  then show ?case by (cases u) (auto split: if_splits)
qed simp

lemma not_in_redacted:
  assumes "plain_token tok"
  shows "\<not> sublist tok redacted"
proof
  assume "sublist tok redacted"
  then obtain xs ys where e: "CHR ''['' # ''redacted'' @ '']'' = xs @ tok @ ys"
    by (auto simp: redacted_def sublist_def)
  have "xs \<noteq> []" using e assms by (cases tok) (auto simp: plain_token_def)
  then obtain xs' where x: "xs = CHR ''['' # xs'" "''redacted'' @ '']'' = xs' @ tok @ ys"
    using e by (cases xs) auto
  have "ys \<noteq> []"
  proof
    assume "ys = []"
    then have "last (''redacted'' @ '']'') = last tok" using x(2) assms by (simp add: plain_token_def)
    then have "CHR '']'' \<in> set tok" using assms last_in_set [of tok] by (simp add: plain_token_def)
    then show False using assms by (simp add: plain_token_def)
  qed
  then obtain ys' y where "ys = ys' @ [y]" using rev_exhaust by blast
  then have "''redacted'' = xs' @ tok @ ys'" using x(2) by (metis append.assoc append1_eq_conv)
  then have "sublist tok ''redacted''" by (simp only: sublist_def) blast
  then show False using assms by (simp add: plain_token_def contains_sublist)
qed

lemma suffix_redacted: "suffix x redacted \<Longrightarrow> x \<noteq> [] \<Longrightarrow> CHR '']'' \<in> set x"
  by (auto simp: suffix_def redacted_def append_eq_Cons_conv Cons_eq_append_conv)

lemma redacted_clean:
  assumes "plain_token tok"
  shows "\<not> sublist tok (replace_all tok redacted s)"
proof (induction s rule: length_induct)
  case (1 s)
  have ne: "tok \<noteq> []" "CHR ''['' \<notin> set tok" "CHR '']'' \<notin> set tok" using assms by (auto simp: plain_token_def)
  have r: "redacted = CHR ''['' # ''redacted]''" by (simp add: redacted_def)
  show ?case
  proof (cases s)
    case (Cons c s')
    show ?thesis
    proof (cases "prefix tok s")
      case True
      define rest where "rest = replace_all tok redacted (drop (length tok) s)"
      have IH: "\<not> sublist tok rest" using 1 ne Cons by (simp add: rest_def)
      have "\<not> sublist tok (redacted @ rest)"
      proof
        assume "sublist tok (redacted @ rest)"
        then consider "sublist tok redacted" | "sublist tok rest"
          | x y where "tok = x @ y" "suffix x redacted" "prefix y rest"
          by (auto simp: sublist_append)
        then show False
        proof cases
          case 3
          show ?thesis
          proof (cases "x = []")
            case True
            then show ?thesis using 3 IH by (simp add: prefix_imp_sublist)
          next
            case False
            then show ?thesis using 3 ne suffix_redacted by auto
          qed
        qed (use not_in_redacted [OF assms] IH in auto)
      qed
      then show ?thesis using True ne Cons by (simp add: rest_def)
    next
      case False
      have IH: "\<not> sublist tok (replace_all tok redacted s')" using 1 Cons by simp
      have "\<not> prefix tok (c # replace_all tok redacted s')"
      proof
        assume a: "prefix tok (c # replace_all tok redacted s')"
        then obtain u where u: "tok = c # u" "prefix u (replace_all tok redacted s')"
          using ne by (cases tok) auto
        then have "prefix u s'" using replace_all_prefix [of u tok "''redacted]''" s'] ne r by simp
        then show False using False u Cons by simp
      qed
      then show ?thesis using False IH Cons by (simp add: sublist_Cons_right)
    qed
  qed (use ne in simp)
qed

text \<open>
  What an error's text says by itself: the words of the program and the numbers it prints, without
  what a server, the network or the context put into it.  Three kinds of errors carry a text from
  outside; the others print fixed words, message types, versions and positions only.  A text keeps the token secret if the token
  occurs in it no more than the program's own words spell it anyway.
\<close>

definition own_text :: "wire_error \<Rightarrow> string" where
  "own_text e =
     (case e of
        WServerError status m \<Rightarrow>
          (if status = 0 then ''wire: server error: '' else ''wire: server returned HTTP '' @ int_dec status @ '': '')
      | WTransport m \<Rightarrow> []
      | WContext m \<Rightarrow> []
      | _ \<Rightarrow> wire_error_text e)"

definition clean_error :: "string \<Rightarrow> wire_error \<Rightarrow> bool" where
  "clean_error tok e \<longleftrightarrow> (contains (wire_error_text e) tok \<longrightarrow> contains (own_text e) tok)"

primrec clean_result :: "string \<Rightarrow> (wire_error, 'a) go \<Rightarrow> bool" where
  "clean_result tok (Ok x) = True"
| "clean_result tok (Err e) = clean_error tok e"
| "clean_result tok Panic = True"

lemma clean_error_simps [simp]:
  "clean_error tok (WBadHeader q)" "clean_error tok WHeaderMissingType" "clean_error tok (WBad what q)"
  "clean_error tok WClosed" "clean_error tok (WUnexpected op t)" "clean_error tok WMissingConnectionID"
  "clean_error tok (WVersion v)" "clean_error tok WEmptyEndpoint" "clean_error tok WUnparseableEndpoint"
  "clean_error tok WEndpointScheme"
  "\<not> contains m tok \<Longrightarrow> clean_error tok (WTransport m)" "\<not> contains m tok \<Longrightarrow> clean_error tok (WContext m)"
  by (simp_all add: clean_error_def own_text_def wire_error_text_def)

text \<open>A token without a space cannot straddle the space behind the program's words.\<close>

lemma no_straddle:
  assumes "sublist tok (u @ CHR '' '' # m)" "CHR '' '' \<notin> set tok" "\<not> sublist tok m"
  shows "sublist tok u"
proof -
  from assms(1) consider "sublist tok u" | "sublist tok (CHR '' '' # m)"
    | x y where "tok = x @ y" "suffix x u" "prefix y (CHR '' '' # m)"
    by (auto simp: sublist_append)
  then show ?thesis
  proof cases
    case 2
    then have "prefix tok (CHR '' '' # m)" using assms(3) by (simp add: sublist_Cons_right)
    then have "tok = []" using assms(2) by (cases tok) auto
    then show ?thesis by simp
  next
    case 3
    then have "y = []" using assms(2) by (cases y) auto
    then show ?thesis using 3 by (simp add: suffix_imp_sublist)
  qed
qed

lemma clean_server_error:
  assumes "CHR '' '' \<notin> set tok" "\<not> contains m tok"
  shows "clean_error tok (WServerError status m)"
proof -
  have own: "sublist tok (u @ '' '')" if t: "sublist tok (u @ CHR '' '' # m)" for u
  proof -
    have "sublist tok u" using t assms by (intro no_straddle [of tok u m]) (simp_all add: contains_sublist)
    then show ?thesis unfolding sublist_def by (metis append.assoc)
  qed
  have bare: "sublist tok (u @ '': '')" if "sublist tok u" for u
    using that unfolding sublist_def by (metis append.assoc)
  show ?thesis
    using own [of "''wire: server error:''"] own [of "''wire: server returned HTTP '' @ int_dec status @ '':''"]
      bare [of "''wire: server returned HTTP '' @ int_dec status"]
    by (auto simp: clean_error_def own_text_def wire_error_text_def contains_sublist ServerError_Error_def)
qed

lemma redactToken_clean: "plain_token tok \<Longrightarrow> \<not> contains (redactToken tok s) tok"
  using redacted_clean [of tok s] by (simp add: redactToken_def contains_sublist plain_token_def)

lemma redacted_server_error: "plain_token tok \<Longrightarrow> clean_error tok (WServerError status (redactToken tok s))"
  using redactToken_clean by (intro clean_server_error) (auto simp: plain_token_def)

lemma SplitEnvelope_clean [simp]: "clean_result tok (SplitEnvelope b)"
  by (simp add: SplitEnvelope_def Let_def split: prod.splits option.splits)

lemma wrapErr_clean [simp]: "clean_result tok (wrapErr what m r)"
  by (simp add: wrapErr_def split: option.splits)

lemma DecodeErrorMessage_clean [simp]: "clean_result tok (DecodeErrorMessage b)"
  by (simp add: DecodeErrorMessage_def Let_def split: prod.split)

lemma serverError_clean:
  assumes "plain_token (cfToken cfg)"
  shows "clean_result (cfToken cfg) (serverError cfg b)"
  using redacted_server_error [OF assms] DecodeErrorMessage_clean [of "cfToken cfg" b]
  by (cases "DecodeErrorMessage b") (simp_all add: serverError_def)

lemma roundTrip_clean:
  assumes "plain_token (cfToken cfg)"
  shows "clean_result (cfToken cfg) (fst (fst (roundTrip post cfg m w)))"
  using redactToken_clean [OF assms] redacted_server_error [OF assms]
  by (simp add: roundTrip_def redactErr_def split: prod.splits http_result.splits option.splits)

lemma call_clean:
  assumes "plain_token (cfToken (clCfg c))"
  shows "clean_result (cfToken (clCfg c)) (fst (call post c req body want w))"
proof -
  define msg where "msg = EncodeEnvelope \<lparr>hType = req, hConnectionID = clConnID c, hQueryID = clQid c + 1\<rparr> body"
  obtain r st w' where e: "roundTrip post (clCfg c) msg w = ((r, st), w')" by (metis surj_pair)
  have "clean_result (cfToken (clCfg c)) r" using roundTrip_clean [OF assms, of post msg w] e by simp
  then show ?thesis
    using e serverError_clean [OF assms]
    by (cases r) (auto simp: call_def Let_def msg_def)
qed

lemma close_clean:
  assumes "plain_token (cfToken (clCfg c))"
  shows "clean_result (cfToken (clCfg c)) (fst (Client_Close post c w))"
proof -
  define msg where "msg = EncodeEnvelope \<lparr>hType = MsgDisconnect, hConnectionID = clConnID c, hQueryID = QueryIDAbsent\<rparr> EncodeEmptyBody"
  obtain r st w' where e: "roundTrip post (clCfg c) msg w = ((r, st), w')" by (metis surj_pair)
  have "clean_result (cfToken (clCfg c)) r" using roundTrip_clean [OF assms, of post msg w] e by simp
  then show ?thesis
    using e serverError_clean [OF assms]
    by (cases r) (auto simp: Client_Close_def Let_def msg_def)
qed

lemma raw_clean:
  assumes "plain_token (cfToken (clCfg c))"
  shows "clean_result (cfToken (clCfg c)) (fst (RoundTripRaw post c m w))"
proof -
  obtain r st w' where e: "roundTrip post (clCfg c) m w = ((r, st), w')" by (metis surj_pair)
  then show ?thesis
    using roundTrip_clean [OF assms, of post m w] by (auto simp: RoundTripRaw_def)
qed

lemma retry_loop_result:
  assumes fn: "\<And>w. P (snd (fst (fn w)))" and ctx: "\<And>d w cause. fst (wait d w) = Some cause \<Longrightarrow> P (Err (WContext cause))"
  shows "P (fst (retry_loop ctx_err wait mx fn n d w))"
proof (induction "nat (mx - int n)" arbitrary: n d w rule: less_induct)
  case less
  obtain rt r w1 where a: "fn w = ((rt, r), w1)" by (metis surj_pair)
  have r: "P r" using fn [of w] a by simp
  show ?case
  proof (cases "\<exists>e. r = Err e \<and> rt \<and> int n < mx \<and> \<not> ctx_err w1")
    case True
    obtain s w2 where b: "wait d w1 = (s, w2)" by (metis surj_pair)
    have "P (fst (retry_loop ctx_err wait mx fn (Suc n) (d * 2) w2))"
      using True by (intro less) auto
    moreover have "retry_loop ctx_err wait mx fn n d w =
        (case s of Some cause \<Rightarrow> (Err (WContext cause), w2) | None \<Rightarrow> retry_loop ctx_err wait mx fn (Suc n) (d * 2) w2)"
      using True a b by (subst retry_loop.simps) (auto split: option.split)
    moreover have "P (Err (WContext cause))" if "s = Some cause" for cause
      using ctx [of d w1 cause] b that by simp
    ultimately show ?thesis by (cases s) simp_all
  next
    case False
    then show ?thesis
      using r a by (subst retry_loop.simps) (auto split: go.split)
  qed
qed

lemma accept_connection_clean:
  assumes "plain_token (cfToken cfg)"
  shows "clean_result (cfToken cfg) (accept_connection cfg hdr b)"
proof -
  have "clean_result (cfToken cfg) (DecodeConnectionResponse b)"
    by (simp add: DecodeConnectionResponse_def Let_def split: prod.split)
  then show ?thesis
    using serverError_clean [OF assms]
    by (cases "DecodeConnectionResponse b") (auto simp: accept_connection_def)
qed

lemma withDefaults_token: "withDefaults p cfg = Ok cfg' \<Longrightarrow> cfToken cfg' = cfToken cfg"
  by (auto simp: withDefaults_def Let_def split: if_splits option.splits)

lemma withDefaults_endpoint: "withDefaults p cfg = Ok cfg' \<Longrightarrow> cfEndpoint cfg' = cfEndpoint cfg"
  by (auto simp: withDefaults_def Let_def split: if_splits option.splits)

lemma withDefaults_clean: "clean_result tok (withDefaults p cfg)"
  by (simp add: withDefaults_def Let_def split: option.splits)

lemma withDefaults_Panic [simp]: "withDefaults p cfg \<noteq> Panic"
  by (simp add: withDefaults_def Let_def split: option.splits)

lemma Connect_clean:
  assumes "plain_token (cfToken cfg)" and "\<And>d w cause. fst (wait d w) = Some cause \<Longrightarrow> \<not> contains cause (cfToken cfg)"
  shows "clean_result (cfToken cfg) (fst (Connect p platform post ctx_err wait cfg w))"
proof (cases "withDefaults p cfg")
  case (Ok cfg')
  define m where "m = connect_message platform cfg'"
  have tok: "cfToken cfg' = cfToken cfg" using withDefaults_token [OF Ok] .
  have "clean_result (cfToken cfg) (snd (fst (connect_attempt post cfg' m w)))" for w
    using roundTrip_clean [of cfg' post m w] assms(1) tok
    by (auto simp: connect_attempt_def split: prod.splits)
  then have "clean_result (cfToken cfg) (fst (retry ctx_err wait cfg' (connect_attempt post cfg' m) w))"
    unfolding retry_def
  proof (rule retry_loop_result)
    show "clean_result (cfToken cfg) (Err (WContext cause))" if "fst (wait d w) = Some cause" for d w cause
      using assms(2) [OF that] by simp
  qed
  moreover obtain r w1 where "retry ctx_err wait cfg' (connect_attempt post cfg' m) w = (r, w1)" by (metis surj_pair)
  ultimately show ?thesis
    using accept_connection_clean [of cfg'] assms(1) tok Ok
    by (cases r) (auto simp: Connect_def m_def split: prod.splits)
qed (use withDefaults_clean [of "cfToken cfg" p cfg] in \<open>auto simp: Connect_def\<close>)

section \<open>Properties\<close>

definition sample_config :: config where
  "sample_config = \<lparr>cfEndpoint = ''http://h:8888'', cfToken = ''s3cret'', cfFetchWorkers = 0,
     cfConnectTimeout = 0, cfMaxRetries = 0, cfRetryBaseDelay = 0\<rparr>"

definition sample_resolved :: config where
  "sample_resolved = \<lparr>cfEndpoint = ''http://h:8888'', cfToken = ''s3cret'', cfFetchWorkers = 4,
     cfConnectTimeout = 10000000000, cfMaxRetries = 3, cfRetryBaseDelay = 100000000\<rparr>"

definition sample_server :: "connection_response" where
  "sample_server = \<lparr>csServerVersion = ''v1.5.3'', csPlatform = [], csQuackVersion = 1\<rparr>"

lemma sample_defaults: "withDefaults (\<lambda>_. Some ''http'') sample_config = Ok sample_resolved"
  by (simp add: withDefaults_def sample_config_def sample_resolved_def)

text \<open>C22: connecting is the one operation that retries, and within its budget: whatever the server,
  the clock and the context do, the requests and pauses of \<open>Connect\<close> are a non-empty prefix of
  \<open>MaxRetries + 1\<close> identical connection requests with a pause between each two, the pause
  starting at \<open>RetryBaseDelay\<close> and doubling; a configuration that is refused sends nothing.\<close>

theorem Connect_requests:
  "case withDefaults p cfg of
     Ok cfg' \<Rightarrow> \<exists>t. t \<noteq> [] \<and> prefix t (attempts (connect_message platform cfg') (cfRetryBaseDelay cfg') (nat (cfMaxRetries cfg')))
        \<and> snd (snd (Connect p platform (seen_post post) ctx_err (seen_wait wait) cfg (w, l))) = l @ t
   | _ \<Rightarrow> snd (snd (Connect p platform (seen_post post) ctx_err (seen_wait wait) cfg (w, l))) = l"
proof (cases "withDefaults p cfg")
  case (Ok cfg')
  obtain t where "t \<noteq> []" "prefix t (attempts (connect_message platform cfg') (cfRetryBaseDelay cfg') (nat (cfMaxRetries cfg')))"
    "snd (snd (retry ctx_err (seen_wait wait) cfg'
       (connect_attempt (seen_post post) cfg' (connect_message platform cfg')) (w, l))) = l @ t"
    using seen.retry_loop_events [where m = "connect_message platform cfg'" and d = "cfRetryBaseDelay cfg'"
        and maxRetries = "cfMaxRetries cfg'" and n = 0 and wait = wait and ctx_err = ctx_err and post = post
        and cfg = cfg' and w = "(w, l)"]
    by (auto simp: retry_def)
  then show ?thesis
    using Ok by (auto simp: Connect_def split: prod.splits go.splits)
qed (simp_all add: Connect_def)

lemma retry_loop_exhausts:
  assumes "\<And>w. \<exists>e. fst (fn w) = (True, Err e)" "\<And>w. events (snd (fn w)) = events w @ [Sent m]"
    and "\<And>w. \<not> ctx_err w" and "\<And>d w. fst (wait d w) = None \<and> events (snd (wait d w)) = events w @ [Waited d]"
  shows "events (snd (retry_loop ctx_err wait mx fn n d w)) = events w @ attempts m d (nat (mx - int n))
    \<and> (\<exists>e. fst (retry_loop ctx_err wait mx fn n d w) = Err e)"
proof (induction "nat (mx - int n)" arbitrary: n d w)
  case 0
  then show ?case
    using assms(1,2) [of w] assms(3) by (subst retry_loop.simps, subst retry_loop.simps) (auto split: prod.splits)
next
  case (Suc k)
  have k: "k = nat (mx - int (Suc n))" using Suc.hyps(2) by simp
  obtain e w1 where a: "fn w = ((True, Err e), w1)" using assms(1) [of w] by (metis prod.collapse)
  have e1: "events w1 = events w @ [Sent m]" using assms(2) [of w] a by simp
  obtain w2 where b: "wait d w1 = (None, w2)" using assms(4) [of d w1] by (metis prod.collapse)
  have e2: "events w2 = events w1 @ [Waited d]" using assms(4) [of d w1] b by simp
  have "retry_loop ctx_err wait mx fn n d w = retry_loop ctx_err wait mx fn (Suc n) (d * 2) w2"
    using Suc.hyps(2) assms(3) a b by (subst retry_loop.simps) auto
  then show ?case
    using Suc.hyps(1) [OF k, of "d * 2" w2] e1 e2 unfolding Suc.hyps(2) [symmetric] k [symmetric] by (simp add: mult.commute)
qed

text \<open>C23: a failure that may pass is retried until the budget is spent: if every exchange fails in the
  network or with a status a later try may cure, and the context stays alive, all
  \<open>MaxRetries + 1\<close> requests are made and the last failure is returned.\<close>

theorem Connect_exhausts:
  assumes "withDefaults p cfg = Ok cfg'"
    and "\<And>url ct m w. case fst (post url ct m w) of HTTPFail e \<Rightarrow> True | HTTPResp status b e \<Rightarrow> retryableStatus status"
    and "\<And>w. \<not> ctx_err w" and "\<And>d w. fst (wait d w) = None"
  shows "snd (snd (Connect p platform (seen_post post) ctx_err (seen_wait wait) cfg (w, l)))
           = l @ attempts (connect_message platform cfg') (cfRetryBaseDelay cfg') (nat (cfMaxRetries cfg'))
         \<and> (\<exists>e. fst (Connect p platform (seen_post post) ctx_err (seen_wait wait) cfg (w, l)) = Err e)"
proof -
  let ?m = "connect_message platform cfg'" and ?fn = "connect_attempt (seen_post post) cfg' (connect_message platform cfg')"
  have "\<exists>e. fst (?fn w) = (True, Err e)" for w
  proof -
    obtain w0 l0 where w: "w = (w0, l0)" by fastforce
    obtain r w1 where "post (cfEndpoint cfg' @ pathRPC) contentType ?m w0 = (r, w1)" by fastforce
    then show ?thesis
      using assms(2) [of "cfEndpoint cfg' @ pathRPC" contentType ?m w0] w
      by (cases r) (auto simp: connect_attempt_def roundTrip_def seen_post_def retryableStatus_def)
  qed
  moreover have "fst (seen_wait wait d v) = None \<and> snd (snd (seen_wait wait d v)) = snd v @ [Waited d]" for d v
    using assms(4) by (simp add: seen_wait_def split: prod.splits) (metis fst_conv)
  ultimately have "snd (snd (retry_loop ctx_err (seen_wait wait) mx ?fn n d v)) = snd v @ attempts ?m d (nat (mx - int n))
     \<and> (\<exists>e. fst (retry_loop ctx_err (seen_wait wait) mx ?fn n d v) = Err e)" for mx n d v
    using assms(3) by (intro retry_loop_exhausts seen.connect_attempt_events)
  from this [of "cfMaxRetries cfg'" 0 "cfRetryBaseDelay cfg'" "(w, l)"]
  have "snd (snd (retry ctx_err (seen_wait wait) cfg' ?fn (w, l)))
       = l @ attempts ?m (cfRetryBaseDelay cfg') (nat (cfMaxRetries cfg'))
     \<and> (\<exists>e. fst (retry ctx_err (seen_wait wait) cfg' ?fn (w, l)) = Err e)"
    by (simp add: retry_def)
  then show ?thesis
    using assms(1) by (auto simp: Connect_def split: prod.splits go.splits)
qed

theorem Connect_exhausts_witness:
  "snd (snd (Connect (\<lambda>_. Some ''http'') ''linux_amd64'' (seen_post (\<lambda>url ct m w. (HTTPFail ''refused'', w)))
       (\<lambda>w. False) (seen_wait (\<lambda>d w. (None, w))) sample_config ((), [])))
     = attempts (connect_message ''linux_amd64'' sample_resolved) 100000000 3"
  using Connect_exhausts [OF sample_defaults, of "\<lambda>url ct m w. (HTTPFail ''refused'', w)" "\<lambda>w. False" "\<lambda>d w. (None, w)"
      "''linux_amd64''" "()" "[]"]
  by (simp add: sample_resolved_def)

lemma only_version: "(v :: u64) \<noteq> 0 \<Longrightarrow> v \<le> 1 \<Longrightarrow> v = 1"
  by unat_arith

text \<open>C24: a client comes out of \<open>Connect\<close> only from a server that speaks this version and named the
  connection; it starts open, with no query numbered yet and the defaults filled in.\<close>

theorem Connect_accepts:
  assumes "Connect p platform post ctx_err wait cfg w = (Ok c, w')"
  shows "withDefaults p cfg = Ok (clCfg c) \<and> csQuackVersion (clServer c) = 1 \<and> clConnID c \<noteq> []
    \<and> \<not> clClosed c \<and> clQid c = 0"
proof -
  obtain cfg' hdr b where d: "withDefaults p cfg = Ok cfg'" and a: "accept_connection cfg' hdr b = Ok c"
    using assms by (auto simp: Connect_def split: prod.splits go.splits)
  show ?thesis
    using d a by (auto simp: accept_connection_def serverError_def quackVersionMin_def quackVersionMax_def go_bind_eq_Ok
        not_less intro: only_version split: go.splits if_splits)
qed

theorem Connect_accepts_witness:
  "withDefaults (\<lambda>_. Some ''http'') sample_config = Ok sample_resolved \<and> csQuackVersion sample_server = 1"
proof -
  have "Connect (\<lambda>_. Some ''http'') ''linux_amd64''
      (\<lambda>url ct m w. (HTTPResp 200 (EncodeEnvelope \<lparr>hType = MsgConnectionResponse, hConnectionID = ''c1'', hQueryID = QueryIDAbsent\<rparr>
          (ConnectionResponse_Encode sample_server)) None, w))
      (\<lambda>w. False) (\<lambda>d w. (None, w)) sample_config ()
     = (Ok \<lparr>clCfg = sample_resolved, clConnID = ''c1'', clServer = sample_server, clQid = 0, clClosed = False\<rparr>, ())"
    by code_simp
  from Connect_accepts [OF this] show ?thesis by simp
qed

text \<open>C21: on an established connection every call sends exactly one request: whatever the server
  answers, a sequence of calls sends the messages of the abstract \<open>session\<close>, query ids counting up
  by one, one disconnect at the first close and nothing after it; on a closed client, nothing.\<close>

theorem client_sends_session:
  "snd (snd (fold (client_step (seen_post post)) ops (c, w, l)))
     = l @ map Sent (if clClosed c then [] else session (clConnID c) (clQid c) ops)"
  by (simp add: seen.session_events)

text \<open>C25: redaction keeps the token out of error texts: whatever the server or the network put into
  it, the text that a failing connect, call, raw exchange or close prints contains the token only
  where the program's own words and numbers (\<open>own_text\<close>) spell it, for every non-empty token without
  brackets and spaces that is not part of the word \<open>redacted\<close> itself.  The cause with which the
  caller's own context ends the pauses of \<open>Connect\<close> is passed on as it is, so it must not name
  the token.\<close>

theorem errors_redacted:
  assumes "plain_token (cfToken cfg)" and "plain_token (cfToken (clCfg c))"
    and "\<And>d w cause. fst (wait d w) = Some cause \<Longrightarrow> \<not> contains cause (cfToken cfg)"
  shows "(fst (Connect p platform post ctx_err wait cfg w) = Err e
            \<longrightarrow> contains (wire_error_text e) (cfToken cfg) \<longrightarrow> contains (own_text e) (cfToken cfg))
     \<and> (fst (call post c req body want w) = Err e \<or> fst (RoundTripRaw post c m w) = Err e \<or> fst (Client_Close post c w) = Err e
            \<longrightarrow> contains (wire_error_text e) (cfToken (clCfg c)) \<longrightarrow> contains (own_text e) (cfToken (clCfg c)))"
  using Connect_clean [of cfg wait p platform post ctx_err w] call_clean [of c post req body want w]
    raw_clean [of c post m w] close_clean [of c post w] assms
  by (auto simp: clean_error_def)

lemma config_if [simp]:
  "(if b then c\<lparr>cfFetchWorkers := i\<rparr> else c) = c\<lparr>cfFetchWorkers := if b then i else cfFetchWorkers c\<rparr>"
  "(if b then c\<lparr>cfConnectTimeout := d\<rparr> else c) = c\<lparr>cfConnectTimeout := if b then d else cfConnectTimeout c\<rparr>"
  "(if b then c\<lparr>cfMaxRetries := i\<rparr> else c) = c\<lparr>cfMaxRetries := if b then i else cfMaxRetries c\<rparr>"
  "(if b then c\<lparr>cfRetryBaseDelay := d\<rparr> else c) = c\<lparr>cfRetryBaseDelay := if b then d else cfRetryBaseDelay c\<rparr>"
  by simp_all

theorem errors_redacted_witness:
  "\<exists>m. fst (Connect (\<lambda>_. Some ''http'') [] (\<lambda>url ct m w. (HTTPResp 403 (go_bytes ''no s3cret'') None, w))
       (\<lambda>w. False) (\<lambda>d w. (Some ''deadline'', w)) sample_config ()) = Err (WServerError 403 m)
     \<and> \<not> contains (wire_error_text (WServerError 403 m)) ''s3cret''"
proof -
  define c where "c = \<lparr>clCfg = sample_config, clConnID = ''c1'', clServer = sample_server, clQid = 0, clClosed = False\<rparr>"
  have a: "plain_token (cfToken sample_config)" by code_simp
  then have b: "plain_token (cfToken (clCfg c))" by (simp add: c_def)
  have run: "fst (Connect (\<lambda>_. Some ''http'') [] (\<lambda>url ct m w. (HTTPResp 403 (go_bytes ''no s3cret'') None, w))
       (\<lambda>w. False) (\<lambda>d w. (Some ''deadline'', w)) sample_config ()) = Err (WServerError 403 ''no [redacted]'')"
    by code_simp
  have own: "\<not> contains (own_text (WServerError 403 ''no [redacted]'')) (cfToken sample_config)" by code_simp
  have "\<not> contains (wire_error_text (WServerError 403 ''no [redacted]'')) (cfToken sample_config)"
    using own run errors_redacted [OF a b, where wait = "\<lambda>d w. (Some ''deadline'', w)" and w = "()" and p = "\<lambda>_. Some ''http''"
        and platform = "[]" and post = "\<lambda>url ct m w. (HTTPResp 403 (go_bytes ''no s3cret'') None, w)" and ctx_err = "\<lambda>w. False"
        and e = "WServerError 403 ''no [redacted]''" and req = MsgPrepareRequest and body = "[]" and want = MsgPrepareResponse and m = "[]"]
    by (force simp: sample_config_def)
  then show ?thesis using run by (auto simp: sample_config_def)
qed

text \<open>The resolved configuration is usable: at least one worker, positive timeouts and delays, the
  endpoint and the token as given, and resolving it again changes nothing.\<close>

theorem withDefaults_resolved:
  assumes "withDefaults p cfg = Ok cfg'"
  shows "cfFetchWorkers cfg' \<ge> 1 \<and> sint (cfConnectTimeout cfg') > 0 \<and> sint (cfRetryBaseDelay cfg') > 0 \<and> cfMaxRetries cfg' \<noteq> 0
     \<and> cfEndpoint cfg' = cfEndpoint cfg \<and> cfToken cfg' = cfToken cfg \<and> withDefaults p cfg' = Ok cfg'"
proof -
  obtain s where s: "cfEndpoint cfg \<noteq> []" "p (cfEndpoint cfg) = Some s" "\<not> (s \<noteq> ''http'' \<and> s \<noteq> ''https'')"
    using assms by (auto simp: withDefaults_def simp del: de_Morgan_conj split: option.splits if_split_asm)
  let ?c = "cfg\<lparr>cfFetchWorkers := if cfFetchWorkers cfg \<le> 0 then 4 else cfFetchWorkers cfg,
      cfConnectTimeout := if sint (cfConnectTimeout cfg) \<le> 0 then 10000000000 else cfConnectTimeout cfg,
      cfMaxRetries := if cfMaxRetries cfg = 0 then 3 else cfMaxRetries cfg,
      cfRetryBaseDelay := if sint (cfRetryBaseDelay cfg) \<le> 0 then 100000000 else cfRetryBaseDelay cfg\<rparr>"
  have c: "cfg' = ?c"
    using assms s(1,3) by (simp add: withDefaults_def Let_def s(2) cong: if_cong split del: if_split)
  have "sint (cfConnectTimeout cfg') > 0" "sint (cfRetryBaseDelay cfg') > 0" "cfFetchWorkers cfg' \<ge> 1" "cfMaxRetries cfg' \<noteq> 0"
    and same: "cfEndpoint cfg' = cfEndpoint cfg" "cfToken cfg' = cfToken cfg"
    by (simp_all add: c)
  then show ?thesis
    using s by (simp add: withDefaults_def Let_def)
qed

theorem withDefaults_resolved_witness:
  "cfFetchWorkers sample_resolved \<ge> 1 \<and> withDefaults (\<lambda>_. Some ''http'') sample_resolved = Ok sample_resolved"
  using withDefaults_resolved [OF sample_defaults] by simp

end
