(* ===== verification/Stream_Fetch.thy ===== *)
theory Stream_Fetch
  imports Main "HOL-Library.Multiset" "HOL-Library.Sublist" Duck_Prelude
begin

text \<open>
  The streaming of a result: \<open>Result.Chunks\<close> and \<open>Result.Close\<close> of \<^verbatim>\<open>src/duckcall.go\<close>.

  The iterator, its fetch workers, the channel between them, the \<open>done\<close> and \<open>stop\<close> channels and the
  context are one state; every atomic action of a goroutine is a step, and the scheduler, the
  caller (who may break off, cancel or close) and the random choice of a \<open>select\<close> are the
  \<open>action\<close> that picks the next step.  A fetch (request, answer, decoding) is one call of the
  parameter \<open>fetch\<close> on the state \<open>'s\<close> of the connection and the server behind it: requests of
  different workers reach the server one after another, and the time an answer takes to come back
  is the time its worker is at \<open>WSend\<close>.

  Lemmas: nothing is delivered twice or made up; a stream that ends without error and was not
  closed delivered everything; every run is finite, with an explicit bound, and no state short of
  the end is stuck, so no worker outlives the iteration.
\<close>

section \<open>The state\<close>

datatype ('c, 'e) batch = Batch "'c list" | Failed 'e

text \<open>A worker: at the \<open>select\<close>, past it, sending, returned.\<close>

datatype ('c, 'e) worker = WTop | WFetch | WSend "('c, 'e) batch" | WDone

text \<open>How the iteration ends: at the end of the result, by the caller, with an error, with the context.\<close>

datatype 'e outcome = Complete | Broken | StreamError 'e | Cancelled

text \<open>The iterator: yielding inlined chunks, receiving, yielding a batch, ended.\<close>

datatype ('c, 'e) consumer = CInline "'c list" | CRange | CBatch "'c list" | CEnd "'e outcome"

record ('s, 'c, 'e) stream =
  stSource :: 's
  stWorkers :: "('c, 'e) worker list"
  stOut :: "('c, 'e) batch list"
  stDone :: bool
  stStop :: bool
  stCtx :: bool
  stIter :: "('c, 'e) consumer"
  stDelivered :: "'c list"

type_synonym ('s, 'c, 'e) fetcher = "'s \<Rightarrow> ('e, 'c list) go \<times> 's"

definition stream_init :: "'s \<Rightarrow> 'c list \<Rightarrow> ('s, 'c, 'e) stream" where
  "stream_init s inlined =
     \<lparr>stSource = s, stWorkers = [], stOut = [], stDone = False, stStop = False, stCtx = False,
      stIter = CInline inlined, stDelivered = []\<rparr>"

section \<open>The steps\<close>

text \<open>
  One step of a worker.  \<open>pick\<close> is the choice of the \<open>select\<close> around a send when both the channel
  has room and the context is done; \<open>None\<close> is a blocked worker.
\<close>

fun worker_step ::
  "('s, 'c, 'e) fetcher \<Rightarrow> nat \<Rightarrow> bool \<Rightarrow> ('c, 'e) worker \<Rightarrow> ('s, 'c, 'e) stream \<Rightarrow>
   (('c, 'e) worker \<times> ('s, 'c, 'e) stream) option" where
  "worker_step fetch cap pick WTop st =
     Some (if stCtx st \<or> stDone st \<or> stStop st then WDone else WFetch, st)"
| "worker_step fetch cap pick WFetch st =
     (case fetch (stSource st) of
        (Err e, s) \<Rightarrow> Some (WSend (Failed e), st\<lparr>stSource := s\<rparr>)
      | (Ok [], s) \<Rightarrow> Some (WDone, st\<lparr>stSource := s, stDone := True\<rparr>)
      | (Ok (c # cs), s) \<Rightarrow> Some (WSend (Batch (c # cs)), st\<lparr>stSource := s\<rparr>)
      | (Panic, s) \<Rightarrow> None)"
| "worker_step fetch cap pick (WSend b) st =
     (if stCtx st \<and> (pick \<or> cap \<le> length (stOut st)) then Some (WDone, st)
      else if length (stOut st) < cap
      then Some (case b of Batch cs \<Rightarrow> WTop | Failed e \<Rightarrow> WDone, st\<lparr>stOut := stOut st @ [b]\<rparr>)
      else None)"
| "worker_step fetch cap pick WDone st = None"

text \<open>
  One step of the iterator; \<open>go_on\<close> is what the caller's \<open>yield\<close> returns.  Returning runs the
  deferred cancel.  The channel is closed once every worker has returned.
\<close>

definition finish :: "'e outcome \<Rightarrow> ('s, 'c, 'e) stream \<Rightarrow> ('s, 'c, 'e) stream" where
  "finish r st = st\<lparr>stIter := CEnd r, stCtx := True\<rparr>"

fun iter_step :: "nat \<Rightarrow> bool \<Rightarrow> bool \<Rightarrow> ('s, 'c, 'e) stream \<Rightarrow> ('s, 'c, 'e) stream option" where
  "iter_step workers needs_more go_on st =
     (case stIter st of
        CInline (c # cs) \<Rightarrow>
          Some (let st = st\<lparr>stDelivered := stDelivered st @ [c]\<rparr> in
                if go_on then st\<lparr>stIter := CInline cs\<rparr> else st\<lparr>stIter := CEnd Broken\<rparr>)
      | CInline [] \<Rightarrow>
          Some (if needs_more then st\<lparr>stIter := CRange, stWorkers := replicate workers WTop\<rparr>
                else st\<lparr>stIter := CEnd Complete\<rparr>)
      | CRange \<Rightarrow>
          (case stOut st of
             Failed e # out \<Rightarrow> Some (finish (StreamError e) (st\<lparr>stOut := out\<rparr>))
           | Batch cs # out \<Rightarrow> Some (st\<lparr>stOut := out, stIter := CBatch cs\<rparr>)
           | [] \<Rightarrow> if list_all (\<lambda>w. w = WDone) (stWorkers st)
                    then Some (finish (if stCtx st then Cancelled else Complete) st) else None)
      | CBatch (c # cs) \<Rightarrow>
          Some (let st = st\<lparr>stDelivered := stDelivered st @ [c]\<rparr> in
                if go_on then st\<lparr>stIter := CBatch cs\<rparr> else finish Broken st)
      | CBatch [] \<Rightarrow> Some (st\<lparr>stIter := CRange\<rparr>)
      | CEnd r \<Rightarrow> None)"

declare iter_step.simps [simp del]

text \<open>The caller may also cancel the context or close the result, at any time.\<close>

datatype action = Worker nat bool | Iter bool | Cancel | Close_result

fun act :: "('s, 'c, 'e) fetcher \<Rightarrow> nat \<Rightarrow> bool \<Rightarrow> action \<Rightarrow> ('s, 'c, 'e) stream \<Rightarrow> ('s, 'c, 'e) stream option" where
  "act fetch workers needs_more (Worker i pick) st =
     (if i < length (stWorkers st)
      then map_option (\<lambda>(w, st'). st'\<lparr>stWorkers := (stWorkers st)[i := w]\<rparr>)
             (worker_step fetch workers pick (stWorkers st ! i) st)
      else None)"
| "act fetch workers needs_more (Iter go_on) st = iter_step workers needs_more go_on st"
| "act fetch workers needs_more Cancel st = (if stCtx st then None else Some (st\<lparr>stCtx := True\<rparr>))"
| "act fetch workers needs_more Close_result st = (if stStop st then None else Some (st\<lparr>stStop := True\<rparr>))"

text \<open>A schedule: the actions taken, in order.\<close>

inductive stream_run ::
  "('s, 'c, 'e) fetcher \<Rightarrow> nat \<Rightarrow> bool \<Rightarrow> ('s, 'c, 'e) stream \<Rightarrow> action list \<Rightarrow> ('s, 'c, 'e) stream \<Rightarrow> bool"
  for fetch workers needs_more st0 where
  run_nil: "stream_run fetch workers needs_more st0 [] st0"
| run_step: "stream_run fetch workers needs_more st0 as st \<Longrightarrow> act fetch workers needs_more a st = Some st' \<Longrightarrow>
    stream_run fetch workers needs_more st0 (as @ [a]) st'"

inductive_cases stream_run_snocE: "stream_run fetch workers needs_more st0 (as @ [a]) st"

section \<open>What the stream relies on\<close>

text \<open>
  The contract of a fetch: \<open>left\<close> is what the server still holds.  An answer hands out what it takes
  away, an empty answer comes only when nothing is left, a failure may lose a batch, nothing
  panics.
\<close>

locale batch_source =
  fixes fetch :: "('s, 'c, 'e) fetcher" and good :: "'s \<Rightarrow> bool" and left :: "'s \<Rightarrow> 'c multiset"
  assumes fetch_good: "good s \<Longrightarrow> good (snd (fetch s))"
    and fetch_some: "good s \<Longrightarrow> fetch s = (Ok cs, s') \<Longrightarrow> left s = mset cs + left s'"
    and fetch_drained: "good s \<Longrightarrow> fetch s = (Ok [], s') \<Longrightarrow> left s = {#}"
    and fetch_fail: "good s \<Longrightarrow> fetch s = (Err e, s') \<Longrightarrow> left s' \<subseteq># left s"
    and fetch_returns: "good s \<Longrightarrow> fst (fetch s) \<noteq> Panic"

primrec batch_chunks :: "('c, 'e) batch \<Rightarrow> 'c multiset" where
  "batch_chunks (Batch cs) = mset cs"
| "batch_chunks (Failed e) = {#}"

primrec worker_chunks :: "('c, 'e) worker \<Rightarrow> 'c multiset" where
  "worker_chunks WTop = {#}"
| "worker_chunks WFetch = {#}"
| "worker_chunks (WSend b) = batch_chunks b"
| "worker_chunks WDone = {#}"

primrec iter_chunks :: "('c, 'e) consumer \<Rightarrow> 'c multiset" where
  "iter_chunks (CInline cs) = mset cs"
| "iter_chunks CRange = {#}"
| "iter_chunks (CBatch cs) = mset cs"
| "iter_chunks (CEnd r) = {#}"

definition accounted :: "('s, 'c, 'e) stream \<Rightarrow> 'c multiset" where
  "accounted st = mset (stDelivered st) + iter_chunks (stIter st)
     + sum_list (map batch_chunks (stOut st)) + sum_list (map worker_chunks (stWorkers st))"

definition failing :: "('s, 'c, 'e) stream \<Rightarrow> bool" where
  "failing st \<longleftrightarrow> stCtx st \<or> stIter st = CEnd Broken
     \<or> (\<exists>e. Failed e \<in> set (stOut st)) \<or> (\<exists>e. WSend (Failed e) \<in> set (stWorkers st))"

lemma worker_stepE:
  assumes "worker_step fetch cap pick w st = Some (w', st')"
  obtains (leave) "w = WTop" "stCtx st \<or> stDone st \<or> stStop st" "w' = WDone" "st' = st"
  | (go_on) "w = WTop" "w' = WFetch" "st' = st"
  | (error) e s where "w = WFetch" "fetch (stSource st) = (Err e, s)" "w' = WSend (Failed e)" "st' = st\<lparr>stSource := s\<rparr>"
  | (drained) s where "w = WFetch" "fetch (stSource st) = (Ok [], s)" "w' = WDone" "st' = st\<lparr>stSource := s, stDone := True\<rparr>"
  | (got) cs s where "w = WFetch" "cs \<noteq> []" "fetch (stSource st) = (Ok cs, s)" "w' = WSend (Batch cs)" "st' = st\<lparr>stSource := s\<rparr>"
  | (dropped) b where "w = WSend b" "stCtx st" "w' = WDone" "st' = st"
  | (sent) b where "w = WSend b" "length (stOut st) < cap" "w' = (case b of Batch cs \<Rightarrow> WTop | Failed e \<Rightarrow> WDone)"
      "st' = st\<lparr>stOut := stOut st @ [b]\<rparr>"
proof (cases w)
  case WTop
  show ?thesis
  proof (cases "stCtx st \<or> stDone st \<or> stStop st")
    case True
    then show ?thesis using assms WTop by (intro leave) simp_all
  next
    case False
    then show ?thesis using assms WTop by (intro go_on) simp_all
  qed
next
  case WFetch
  obtain r s where r: "fetch (stSource st) = (r, s)" by fastforce
  show ?thesis
  proof (cases r)
    case (Ok cs)
    show ?thesis
    proof (cases cs)
      case Nil
      then show ?thesis using assms WFetch r Ok by (intro drained) auto
    next
      case (Cons c cs')
      then show ?thesis using assms WFetch r Ok by (intro got) auto
    qed
  next
    case (Err e)
    then show ?thesis using assms WFetch r by (intro error) auto
  next
    case Panic
    have False using assms WFetch r Panic by simp
    then show ?thesis ..
  qed
next
  case (WSend b)
  show ?thesis
  proof (cases "stCtx st \<and> (pick \<or> cap \<le> length (stOut st))")
    case True
    then show ?thesis using assms WSend by (intro dropped) simp_all
  next
    case False
    then have "length (stOut st) < cap" using assms WSend by (simp split: if_splits)
    then show ?thesis using assms WSend False by (intro sent) (auto split: if_splits)
  qed
next
  case WDone
  have False using assms WDone by simp
  then show ?thesis ..
qed

lemma iter_stepE:
  assumes "iter_step n needs_more go_on st = Some st'"
  obtains (inline) c cs where "stIter st = CInline (c # cs)" "st' = st\<lparr>stDelivered := stDelivered st @ [c], stIter := CInline cs\<rparr>"
  | (inline_break) c cs where "stIter st = CInline (c # cs)" "st' = st\<lparr>stDelivered := stDelivered st @ [c], stIter := CEnd Broken\<rparr>"
  | (start) "stIter st = CInline []" "needs_more" "st' = st\<lparr>stIter := CRange, stWorkers := replicate n WTop\<rparr>"
  | (whole) "stIter st = CInline []" "\<not> needs_more" "st' = st\<lparr>stIter := CEnd Complete\<rparr>"
  | (failed) e out where "stIter st = CRange" "stOut st = Failed e # out" "st' = st\<lparr>stOut := out, stIter := CEnd (StreamError e), stCtx := True\<rparr>"
  | (received) cs out where "stIter st = CRange" "stOut st = Batch cs # out" "st' = st\<lparr>stOut := out, stIter := CBatch cs\<rparr>"
  | (closed) "stIter st = CRange" "stOut st = []" "\<forall>w \<in> set (stWorkers st). w = WDone"
      "st' = st\<lparr>stIter := CEnd (if stCtx st then Cancelled else Complete), stCtx := True\<rparr>"
  | (yield) c cs where "stIter st = CBatch (c # cs)" "st' = st\<lparr>stDelivered := stDelivered st @ [c], stIter := CBatch cs\<rparr>"
  | (batch_break) c cs where "stIter st = CBatch (c # cs)" "st' = st\<lparr>stDelivered := stDelivered st @ [c], stIter := CEnd Broken, stCtx := True\<rparr>"
  | (batch_end) "stIter st = CBatch []" "st' = st\<lparr>stIter := CRange\<rparr>"
proof (cases "stIter st")
  case (CInline cs)
  show ?thesis
  proof (cases cs)
    case Nil
    show ?thesis
    proof (cases needs_more)
      case True
      then show ?thesis using assms CInline Nil by (intro start) (auto simp: iter_step.simps)
    next
      case False
      then show ?thesis using assms CInline Nil by (intro whole) (simp_all add: iter_step.simps)
    qed
  next
    case (Cons c cs')
    show ?thesis
    proof (cases go_on)
      case True
      then show ?thesis using assms CInline Cons by (intro inline) (auto simp: iter_step.simps)
    next
      case False
      then show ?thesis using assms CInline Cons by (intro inline_break) (auto simp: iter_step.simps)
    qed
  qed
next
  case CRange
  show ?thesis
  proof (cases "stOut st")
    case Nil
    then have "list_all (\<lambda>w. w = WDone) (stWorkers st)"
      using assms CRange by (simp add: iter_step.simps split: if_splits)
    then show ?thesis
      using assms CRange Nil by (intro closed) (auto simp: iter_step.simps finish_def list_all_iff)
  next
    case (Cons b out)
    show ?thesis
    proof (cases b)
      case (Batch cs)
      then show ?thesis using assms CRange Cons by (intro received) (auto simp: iter_step.simps)
    next
      case (Failed e)
      then show ?thesis using assms CRange Cons by (intro failed) (auto simp: iter_step.simps finish_def)
    qed
  qed
next
  case (CBatch cs)
  show ?thesis
  proof (cases cs)
    case Nil
    then show ?thesis using assms CBatch by (intro batch_end) (simp_all add: iter_step.simps)
  next
    case (Cons c cs')
    show ?thesis
    proof (cases go_on)
      case True
      then show ?thesis using assms CBatch Cons by (intro yield) (auto simp: iter_step.simps)
    next
      case False
      then show ?thesis using assms CBatch Cons by (intro batch_break) (auto simp: iter_step.simps finish_def)
    qed
  qed
next
  case (CEnd r)
  have False using assms CEnd by (simp add: iter_step.simps)
  then show ?thesis ..
qed

context batch_source begin

definition total :: "('s, 'c, 'e) stream \<Rightarrow> 'c multiset" where
  "total st = accounted st + left (stSource st)"

lemma worker_total:
  assumes "good (stSource st)" and "worker_step fetch cap pick (stWorkers st ! i) st = Some (w', st')" and "i < length (stWorkers st)"
    and st'': "st'' = st'\<lparr>stWorkers := (stWorkers st)[i := w']\<rparr>"
  shows "\<exists>lost. total st'' + lost = total st \<and> (lost \<noteq> {#} \<longrightarrow> failing st'')"
proof -
  have key: "sum_list (map worker_chunks ((stWorkers st)[i := w'])) + worker_chunks (stWorkers st ! i)
      = sum_list (map worker_chunks (stWorkers st)) + worker_chunks w'"
    using assms(3) by (rule sum_list_update_add)
  have upd: "w' \<in> set ((stWorkers st)[i := w'])" using assms(3) by (rule set_update_memI)
  from assms(2) show ?thesis
  proof (cases rule: worker_stepE)
    case (error e s)
    then obtain lost where "left s + lost = left (stSource st)" using fetch_fail [OF assms(1)] by (metis subset_mset.le_iff_add)
    then show ?thesis
      using error key upd unfolding st'' total_def accounted_def failing_def
      by (intro exI [of _ lost]) (auto simp: ac_simps)
  next
    case (drained s)
    then show ?thesis
      using key fetch_some [OF assms(1) drained(2)] unfolding st'' total_def accounted_def failing_def
      by (intro exI [of _ "{#}"]) (auto simp: ac_simps)
  next
    case (got cs s)
    then show ?thesis
      using key fetch_some [OF assms(1) got(3)] unfolding st'' total_def accounted_def failing_def
      by (intro exI [of _ "{#}"]) (auto simp: ac_simps)
  next
    case (dropped b)
    then show ?thesis
      using key unfolding st'' total_def accounted_def failing_def
      by (intro exI [of _ "batch_chunks b"]) (auto simp: ac_simps)
  next
    case (sent b)
    then show ?thesis
      using key unfolding st'' total_def accounted_def failing_def
      by (intro exI [of _ "{#}"]) (auto simp: ac_simps split: batch.splits)
  qed (use key in \<open>auto intro!: exI [of _ "{#}"] simp: st'' total_def accounted_def\<close>)
qed


text \<open>What holds in every state reached from \<open>stream_init s0 inlined\<close> with \<open>n\<close> workers.\<close>

definition conserved :: "'c multiset \<Rightarrow> ('s, 'c, 'e) stream \<Rightarrow> bool" where
  "conserved whole st \<longleftrightarrow>
     good (stSource st) \<and> total st \<subseteq># whole
     \<and> (failing st \<or> (\<exists>r. stIter st = CEnd r) \<or> total st = whole)
     \<and> (stDone st \<longrightarrow> left (stSource st) = {#})"

definition shaped :: "'c list \<Rightarrow> nat \<Rightarrow> bool \<Rightarrow> ('s, 'c, 'e) stream \<Rightarrow> bool" where
  "shaped inlined n needs_more st \<longleftrightarrow>
     length (stOut st) \<le> n
     \<and> (WDone \<in> set (stWorkers st) \<longrightarrow> stDone st \<or> stStop st \<or> failing st)
     \<and> (case stIter st of
          CInline cs \<Rightarrow> stWorkers st = [] \<and> stOut st = [] \<and> stDelivered st @ cs = inlined
        | CEnd r \<Rightarrow> (stCtx st \<or> stWorkers st = []) \<and> (r \<noteq> Broken \<longrightarrow> prefix inlined (stDelivered st))
        | _ \<Rightarrow> length (stWorkers st) = n \<and> needs_more \<and> prefix inlined (stDelivered st))"

lemma sum_list_empties [simp]: "sum_list (replicate n {#}) = {#}"
  by (induction n) auto

lemma returned_empty: "\<forall>w \<in> set ws. w = WDone \<Longrightarrow> sum_list (map worker_chunks ws) = {#}"
  by (induction ws) auto

lemma act_workerE:
  assumes "act fetch n needs_more (Worker i pick) st = Some st'"
  obtains w' st1 where "i < length (stWorkers st)" "worker_step fetch n pick (stWorkers st ! i) st = Some (w', st1)"
    "st' = st1\<lparr>stWorkers := (stWorkers st)[i := w']\<rparr>"
  using assms by (auto split: if_splits)

lemma worker_step_frame:
  assumes "worker_step fetch cap pick w st = Some (w', st')"
  shows "stIter st' = stIter st \<and> stDelivered st' = stDelivered st \<and> stCtx st' = stCtx st \<and> stStop st' = stStop st
    \<and> set (stOut st) \<subseteq> set (stOut st') \<and> (stDone st \<longrightarrow> stDone st')
    \<and> (length (stOut st) \<le> cap \<longrightarrow> length (stOut st') \<le> cap)
    \<and> (w = WSend (Failed e) \<longrightarrow> stCtx st' \<or> Failed e \<in> set (stOut st'))
    \<and> (w' = WDone \<longrightarrow> stCtx st' \<or> stDone st' \<or> stStop st' \<or> (\<exists>e. Failed e \<in> set (stOut st')))"
  using assms by (cases rule: worker_stepE) (auto split: batch.splits)

lemma set_update_cases: "i < length xs \<Longrightarrow> x \<in> set xs \<Longrightarrow> x \<in> set (xs[i := y]) \<or> x = xs ! i"
  by (metis in_set_conv_nth length_list_update nth_list_update_neq)

lemma worker_failing:
  assumes "failing st" and "i < length (stWorkers st)" "worker_step fetch cap pick (stWorkers st ! i) st = Some (w', st1)"
    "st' = st1\<lparr>stWorkers := (stWorkers st)[i := w']\<rparr>"
  shows "failing st'"
  using assms(1) unfolding failing_def
proof (elim disjE exE)
  fix e assume "WSend (Failed e) \<in> set (stWorkers st)"
  then consider "WSend (Failed e) \<in> set (stWorkers st')" | "stWorkers st ! i = WSend (Failed e)"
    using set_update_cases [OF assms(2)] assms(4) by force
  then show "stCtx st' \<or> stIter st' = CEnd Broken \<or> (\<exists>e. Failed e \<in> set (stOut st')) \<or> (\<exists>e. WSend (Failed e) \<in> set (stWorkers st'))"
    using worker_step_frame [OF assms(3), of e] assms(4) by cases auto
qed (use worker_step_frame [OF assms(3)] assms(4) in auto)

lemma worker_conserved:
  assumes "conserved whole st" and "act fetch n needs_more (Worker i pick) st = Some st'"
  shows "conserved whole st'"
  using assms(2)
proof (cases rule: act_workerE)
  case (1 w' st1)
  have g: "good (stSource st)" using assms(1) by (simp add: conserved_def)
  obtain lost where lost: "total st' + lost = total st" "lost \<noteq> {#} \<longrightarrow> failing st'"
    using worker_total [OF g 1(2,1,3)] by blast
  have "good (stSource st')"
    using 1(2) g fetch_good [OF g] by (cases rule: worker_stepE) (auto simp: 1(3))
  moreover have "stDone st' \<longrightarrow> left (stSource st') = {#}"
    using 1(2) assms(1) fetch_drained [OF g] fetch_some [OF g] fetch_fail [OF g]
    by (cases rule: worker_stepE) (auto simp: 1(3) conserved_def)
  moreover have "stIter st' = stIter st" using worker_step_frame [OF 1(2)] 1(3) by simp
  moreover have "total st' \<subseteq># whole"
    using lost(1) assms(1) unfolding conserved_def by (metis mset_subset_eq_add_left subset_mset.order_trans)
  ultimately show ?thesis
    using assms(1) lost worker_failing [OF _ 1] unfolding conserved_def by (cases "lost = {#}") auto
qed

lemma worker_shaped:
  assumes "shaped inlined n needs_more st" and "act fetch n needs_more (Worker i pick) st = Some st'"
  shows "shaped inlined n needs_more st'"
  using assms(2)
proof (cases rule: act_workerE)
  case (1 w' st1)
  have frame: "stIter st' = stIter st" "stDelivered st' = stDelivered st" "stCtx st' = stCtx st" "stStop st' = stStop st"
    "stDone st \<longrightarrow> stDone st'" "length (stOut st) \<le> n \<longrightarrow> length (stOut st') \<le> n" "length (stWorkers st') = length (stWorkers st)"
    using worker_step_frame [OF 1(2)] 1(3) by simp_all
  have "WDone \<in> set (stWorkers st') \<longrightarrow> WDone \<in> set (stWorkers st) \<or> w' = WDone"
    using 1(3) set_update_subset_insert [of "stWorkers st" i w'] by auto
  then have "WDone \<in> set (stWorkers st') \<longrightarrow> stDone st' \<or> stStop st' \<or> failing st'"
    using assms(1) frame worker_failing [OF _ 1] worker_step_frame [OF 1(2)] 1(3)
    by (auto simp: shaped_def failing_def)
  moreover have "stWorkers st \<noteq> []" using 1(1) by auto
  ultimately show ?thesis
    using assms(1) frame by (auto simp: shaped_def split: consumer.splits)
qed

lemma iter_step_frame:
  assumes "shaped inlined n needs_more st" and "iter_step n needs_more go_on st = Some st'"
  shows "stSource st' = stSource st \<and> stDone st' = stDone st \<and> (failing st \<longrightarrow> failing st' \<or> (\<exists>r. stIter st' = CEnd r))"
  using assms(2) by (cases rule: iter_stepE) (use assms(1) in \<open>auto simp: failing_def shaped_def\<close>)

lemma iter_total:
  assumes "shaped inlined n needs_more st" and "iter_step n needs_more go_on st = Some st'"
  shows "\<exists>lost. total st' + lost = total st \<and> (lost \<noteq> {#} \<longrightarrow> (\<exists>r. stIter st' = CEnd r))"
  using assms(2)
proof (cases rule: iter_stepE)
  case (inline_break c cs)
  then show ?thesis by (intro exI [of _ "mset cs"]) (simp add: total_def accounted_def ac_simps)
next
  case (batch_break c cs)
  then show ?thesis by (intro exI [of _ "mset cs"]) (simp add: total_def accounted_def ac_simps)
qed (use assms(1) in \<open>auto intro!: exI [of _ "{#}"] simp: total_def accounted_def shaped_def\<close>)

lemma iter_conserved:
  assumes "conserved whole st" and "shaped inlined n needs_more st" and "iter_step n needs_more go_on st = Some st'"
  shows "conserved whole st'"
proof -
  obtain lost where lost: "total st' + lost = total st" "lost \<noteq> {#} \<longrightarrow> (\<exists>r. stIter st' = CEnd r)"
    using iter_total [OF assms(2,3)] by blast
  have "total st' \<subseteq># whole"
    using lost(1) assms(1) unfolding conserved_def by (metis mset_subset_eq_add_left subset_mset.order_trans)
  moreover have "(\<exists>r. stIter st = CEnd r) \<longrightarrow> False"
    using assms(3) by (auto simp: iter_step.simps)
  ultimately show ?thesis
    using assms(1) lost iter_step_frame [OF assms(2,3)] unfolding conserved_def by (cases "lost = {#}") auto
qed

lemma iter_shaped:
  assumes "shaped inlined n needs_more st" and "iter_step n needs_more go_on st = Some st'"
  shows "shaped inlined n needs_more st'"
  using assms(2)
  by (cases rule: iter_stepE) (use assms(1) in \<open>auto simp: shaped_def failing_def\<close>)


text \<open>A stream that ended without error and was not closed delivered everything.\<close>

lemma closed_complete:
  assumes "0 < n" "conserved whole st" "shaped inlined n needs_more st"
    and "stIter st = CRange" "stOut st = []" "\<forall>w \<in> set (stWorkers st). w = WDone" "\<not> stCtx st" "\<not> stStop st"
  shows "mset (stDelivered st) = whole"
proof -
  have "stWorkers st \<noteq> []" using assms by (auto simp: shaped_def)
  then have "WDone \<in> set (stWorkers st)" using assms(6) by (metis last_in_set)
  moreover have nf: "\<not> failing st" using assms by (auto simp: failing_def)
  ultimately have "stDone st" using assms by (auto simp: shaped_def)
  moreover have "sum_list (map worker_chunks (stWorkers st)) = {#}" using assms(6) by (rule returned_empty)
  ultimately show ?thesis
    using nf assms by (auto simp: conserved_def total_def accounted_def)
qed


definition stream_sound :: "'s \<Rightarrow> 'c list \<Rightarrow> nat \<Rightarrow> bool \<Rightarrow> ('s, 'c, 'e) stream \<Rightarrow> bool" where
  "stream_sound s0 inlined n needs_more st \<longleftrightarrow>
     conserved (mset inlined + left s0) st \<and> shaped inlined n needs_more st
     \<and> (stIter st = CEnd Complete \<longrightarrow> stStop st
          \<or> mset (stDelivered st) = mset inlined + (if needs_more then left s0 else {#}))"

lemma stream_sound_act:
  assumes n: "0 < n" and inv: "stream_sound s0 inlined n needs_more st" and a: "act fetch n needs_more a st = Some st'"
  shows "stream_sound s0 inlined n needs_more st'"
proof (cases a)
  case (Worker i pick)
  have "stIter st' = stIter st \<and> stStop st' = stStop st \<and> stDelivered st' = stDelivered st"
    using a unfolding Worker by (cases rule: act_workerE) (use worker_step_frame in force)
  then show ?thesis
    using inv a worker_conserved worker_shaped unfolding Worker stream_sound_def by metis
next
  case (Iter go_on)
  have i: "iter_step n needs_more go_on st = Some st'" using a Iter by simp
  have c: "stIter st' = CEnd Complete \<longrightarrow> stStop st' \<or> mset (stDelivered st') = mset inlined + (if needs_more then left s0 else {#})"
    using i
  proof (cases rule: iter_stepE)
    case closed
    have s: "conserved (mset inlined + left s0) st" "shaped inlined n needs_more st" using inv by (simp_all add: stream_sound_def)
    then have "needs_more" using closed(1) by (simp add: shaped_def)
    then show ?thesis
      using closed_complete [OF n s closed(1-3)] closed(4) by auto
  qed (use inv in \<open>auto simp: stream_sound_def shaped_def\<close>)
  then show ?thesis
    using inv iter_conserved [OF _ _ i] iter_shaped [OF _ i] unfolding stream_sound_def by blast
next
  case Cancel
  have st': "st' = st\<lparr>stCtx := True\<rparr>" using a Cancel by (simp split: if_splits)
  have "conserved w st'" if "conserved w st" for w
    using that unfolding conserved_def by (auto simp: st' total_def accounted_def failing_def)
  moreover have "shaped inlined n needs_more st'" if "shaped inlined n needs_more st"
    using that unfolding shaped_def by (cases "stIter st") (auto simp: st' failing_def)
  moreover have "stIter st' = stIter st" "stStop st' = stStop st" "stDelivered st' = stDelivered st" by (simp_all add: st')
  ultimately show ?thesis using inv unfolding stream_sound_def by metis
next
  case Close_result
  have st': "st' = st\<lparr>stStop := True\<rparr>" using a Close_result by (simp split: if_splits)
  have "conserved w st'" if "conserved w st" for w
    using that unfolding conserved_def by (auto simp: st' total_def accounted_def failing_def)
  moreover have "shaped inlined n needs_more st'" if "shaped inlined n needs_more st"
    using that unfolding shaped_def by (cases "stIter st") (auto simp: st' failing_def)
  moreover have "stStop st'" by (simp add: st')
  ultimately show ?thesis using inv unfolding stream_sound_def by metis
qed

lemma stream_sound_run:
  assumes "0 < n" "good s0" and "stream_run fetch n needs_more (stream_init s0 inlined) as st"
  shows "stream_sound s0 inlined n needs_more st"
  using assms(3)
proof (induction rule: stream_run.induct)
  case run_nil
  then show ?case
    using assms(2) by (simp add: stream_sound_def conserved_def shaped_def stream_init_def total_def accounted_def)
next
  case (run_step as st a st')
  then show ?case using stream_sound_act [OF assms(1)] by blast
qed

end


section \<open>Termination and progress\<close>

primrec batch_weight :: "('c, 'e) batch \<Rightarrow> nat" where
  "batch_weight (Batch cs) = 2 + length cs"
| "batch_weight (Failed e) = 1"

primrec worker_weight :: "('c, 'e) worker \<Rightarrow> nat" where
  "worker_weight WTop = 5"
| "worker_weight WFetch = 4"
| "worker_weight (WSend b) = (case b of Batch cs \<Rightarrow> 8 + length cs | Failed e \<Rightarrow> 3)"
| "worker_weight WDone = 0"

primrec iter_weight :: "nat \<Rightarrow> ('c, 'e) consumer \<Rightarrow> nat" where
  "iter_weight n (CInline cs) = length cs + 5 * n + 2"
| "iter_weight n CRange = 1"
| "iter_weight n (CBatch cs) = 2 + length cs"
| "iter_weight n (CEnd r) = 0"

context batch_source begin

definition stream_weight :: "nat \<Rightarrow> ('s, 'c, 'e) stream \<Rightarrow> nat" where
  "stream_weight n st = 6 * size (left (stSource st)) + sum_list (map worker_weight (stWorkers st))
     + sum_list (map batch_weight (stOut st)) + iter_weight n (stIter st)
     + (if stCtx st then 0 else 1) + (if stStop st then 0 else 1)"

lemma worker_step_weight:
  assumes "good (stSource st)" and "worker_step fetch cap pick w st = Some (w', st')"
  shows "6 * size (left (stSource st')) + worker_weight w' + sum_list (map batch_weight (stOut st'))
    < 6 * size (left (stSource st)) + worker_weight w + sum_list (map batch_weight (stOut st))"
  using assms(2)
proof (cases rule: worker_stepE)
  case (error e s)
  have "size (left s) \<le> size (left (stSource st))" using fetch_fail [OF assms(1) error(2)] by (rule size_mset_mono)
  then show ?thesis using error by simp
next
  case (drained s)
  then show ?thesis using fetch_some [OF assms(1) drained(2)] by simp
next
  case (got cs s)
  then show ?thesis using fetch_some [OF assms(1) got(3)] by (cases cs) simp_all
next
  case (dropped b)
  then show ?thesis by (cases b) simp_all
next
  case (sent b)
  then show ?thesis by (cases b) simp_all
qed simp_all

lemma act_weight:
  assumes "stream_sound s0 inlined n needs_more st" and a: "act fetch n needs_more a st = Some st'"
  shows "stream_weight n st' < stream_weight n st"
proof (cases a)
  case (Worker i pick)
  have g: "good (stSource st)" using assms(1) by (simp add: stream_sound_def conserved_def)
  show ?thesis
    using a unfolding Worker
  proof (cases rule: act_workerE)
    case (1 w' st1)
    have "sum_list (map worker_weight ((stWorkers st)[i := w'])) + worker_weight (stWorkers st ! i)
        = sum_list (map worker_weight (stWorkers st)) + worker_weight w'"
      using 1(1) by (rule sum_list_update_add)
    then show ?thesis
      using worker_step_weight [OF g 1(2)] worker_step_frame [OF 1(2)] unfolding stream_weight_def 1(3) by simp
  qed
next
  case (Iter go_on)
  then have i: "iter_step n needs_more go_on st = Some st'" using a by simp
  show ?thesis
    using i
  proof (cases rule: iter_stepE)
    case start
    then show ?thesis
      using assms(1) by (auto simp: stream_weight_def stream_sound_def shaped_def sum_list_replicate)
  qed (simp_all add: stream_weight_def)
qed (use a in \<open>auto simp: stream_weight_def split: if_splits\<close>)

lemma stream_run_bounded:
  assumes "0 < n" "good s0" and "stream_run fetch n needs_more (stream_init s0 inlined) as st"
  shows "length as + stream_weight n st \<le> 6 * size (left s0) + length inlined + 5 * n + 4"
  using assms(3)
proof (induction rule: stream_run.induct)
  case run_nil
  then show ?case by (simp add: stream_weight_def stream_init_def)
next
  case (run_step as st a st')
  then show ?case using act_weight [OF stream_sound_run [OF assms(1,2) run_step(1)] run_step(2)] by simp
qed

lemma worker_progress:
  assumes "0 < n" "stream_sound s0 inlined n needs_more st" and i: "i < length (stWorkers st)" "stWorkers st ! i \<noteq> WDone"
  shows "(\<exists>pick st'. act fetch n needs_more (Worker i pick) st = Some st') \<or> (\<exists>st'. act fetch n needs_more (Iter True) st = Some st')"
proof (cases "stWorkers st ! i")
  case WFetch
  have g: "good (stSource st)" using assms(2) by (simp add: stream_sound_def conserved_def)
  obtain r s where r: "fetch (stSource st) = (r, s)" by fastforce
  then have "r \<noteq> Panic" using fetch_returns [OF g] by simp
  then have "worker_step fetch n True WFetch st \<noteq> None" using r by (cases r) (simp_all split: list.split)
  then show ?thesis using WFetch i by auto
next
  case (WSend b)
  have s: "shaped inlined n needs_more st" using assms(2) by (simp add: stream_sound_def)
  consider "stCtx st" | "length (stOut st) < n" | "\<not> stCtx st" "n \<le> length (stOut st)" by linarith
  then show ?thesis
  proof cases
    case 3
    then obtain b' out where "stOut st = b' # out" using assms(1) by (cases "stOut st") auto
    then have "iter_step n needs_more True st \<noteq> None"
      using s i 3 by (cases "stIter st") (auto simp: iter_step.simps shaped_def split: list.splits batch.splits)
    then show ?thesis by auto
  qed (use WSend i in auto)
qed (use i in auto)

lemma stream_progress:
  assumes "0 < n" "stream_sound s0 inlined n needs_more st"
  shows "((\<exists>r. stIter st = CEnd r) \<and> (\<forall>w \<in> set (stWorkers st). w = WDone))
    \<or> (\<exists>i pick st'. act fetch n needs_more (Worker i pick) st = Some st') \<or> (\<exists>st'. act fetch n needs_more (Iter True) st = Some st')"
proof (cases "\<forall>w \<in> set (stWorkers st). w = WDone")
  case True
  have "(\<exists>r. stIter st = CEnd r) \<or> iter_step n needs_more True st \<noteq> None"
    using True by (cases "stIter st") (auto simp: iter_step.simps list_all_iff split: list.splits batch.splits)
  then show ?thesis using True by auto
next
  case False
  then obtain i where "i < length (stWorkers st)" "stWorkers st ! i \<noteq> WDone" by (metis in_set_conv_nth)
  then show ?thesis using worker_progress [OF assms] by blast
qed

lemma stream_complete:
  assumes "0 < n" "good s0" and "stream_run fetch n needs_more (stream_init s0 inlined) as st"
    and "stIter st = CEnd Complete" "\<not> stStop st"
  shows "mset (stDelivered st) = mset inlined + (if needs_more then left s0 else {#})" and "prefix inlined (stDelivered st)"
  using stream_sound_run [OF assms(1-3)] assms(4,5) by (auto simp: stream_sound_def shaped_def)

lemma stream_nothing_extra:
  assumes "0 < n" "good s0" and "stream_run fetch n needs_more (stream_init s0 inlined) as st"
  shows "mset (stDelivered st) \<subseteq># mset inlined + left s0"
proof -
  have "total st \<subseteq># mset inlined + left s0"
    using stream_sound_run [OF assms] by (simp add: stream_sound_def conserved_def)
  then show ?thesis
    unfolding total_def accounted_def by (metis add.assoc mset_subset_eq_add_left subset_mset.order_trans)
qed

lemma stream_can_end:
  assumes "0 < n" "good s0" and "stream_run fetch n needs_more (stream_init s0 inlined) as st"
  shows "\<exists>as' st'. stream_run fetch n needs_more (stream_init s0 inlined) (as @ as') st'
    \<and> (\<forall>a \<in> set as'. a \<noteq> Cancel \<and> a \<noteq> Close_result)
    \<and> (\<exists>r. stIter st' = CEnd r) \<and> (\<forall>w \<in> set (stWorkers st'). w = WDone)"
  using assms(3)
proof (induction "stream_weight n st" arbitrary: as st rule: less_induct)
  case less
  note sound = stream_sound_run [OF assms(1,2) less.prems]
  consider "\<exists>r. stIter st = CEnd r" "\<forall>w \<in> set (stWorkers st). w = WDone"
    | a st' where "act fetch n needs_more a st = Some st'" "a \<noteq> Cancel" "a \<noteq> Close_result"
    using stream_progress [OF assms(1) sound] by blast
  then show ?case
  proof cases
    case 1
    then show ?thesis using less.prems by (intro exI [of _ "[]"] exI [of _ st]) simp
  next
    case (2 a st')
    have run: "stream_run fetch n needs_more (stream_init s0 inlined) (as @ [a]) st'"
      using less.prems 2(1) by (rule run_step)
    obtain as' st'' where "stream_run fetch n needs_more (stream_init s0 inlined) ((as @ [a]) @ as') st''"
      "\<forall>a \<in> set as'. a \<noteq> Cancel \<and> a \<noteq> Close_result" "\<exists>r. stIter st'' = CEnd r" "\<forall>w \<in> set (stWorkers st''). w = WDone"
      using less.hyps [OF act_weight [OF sound 2(1)] run] by blast
    then show ?thesis using 2 by (intro exI [of _ "a # as'"] exI [of _ st'']) simp
  qed
qed

end

text \<open>A schedule can be run.\<close>

fun run_actions :: "('s, 'c, 'e) fetcher \<Rightarrow> nat \<Rightarrow> bool \<Rightarrow> action list \<Rightarrow> ('s, 'c, 'e) stream \<Rightarrow> ('s, 'c, 'e) stream option" where
  "run_actions fetch n needs_more [] st = Some st"
| "run_actions fetch n needs_more (a # as) st =
     (case act fetch n needs_more a st of Some st' \<Rightarrow> run_actions fetch n needs_more as st' | None \<Rightarrow> None)"

lemma run_actions_snoc:
  "run_actions fetch n needs_more (as @ [a]) st = Option.bind (run_actions fetch n needs_more as st) (act fetch n needs_more a)"
  by (induction as arbitrary: st) (auto split: option.split)

lemma run_actions_run: "run_actions fetch n needs_more as st0 = Some st \<longleftrightarrow> stream_run fetch n needs_more st0 as st"
proof
  show "stream_run fetch n needs_more st0 as st" if "run_actions fetch n needs_more as st0 = Some st"
    using that
  proof (induction as arbitrary: st rule: rev_induct)
    case (snoc a as)
    then show ?case by (auto simp: run_actions_snoc bind_eq_Some_conv intro: run_step)
  qed (simp add: run_nil)
  show "run_actions fetch n needs_more as st0 = Some st" if "stream_run fetch n needs_more st0 as st"
    using that by (induction rule: stream_run.induct) (auto simp: run_actions_snoc)
qed

text \<open>The plainest source: a list of batches.\<close>

definition next_batch :: "('c list list, 'c, 'e) fetcher" where
  "next_batch bs = (case bs of [] \<Rightarrow> (Ok [], []) | b # bs \<Rightarrow> (Ok b, bs))"

lemma next_batch_source: "batch_source next_batch (list_all (\<lambda>b. b \<noteq> [])) (\<lambda>bs. mset (concat bs))"
  by unfold_locales (auto simp: next_batch_def split: list.splits)

definition sample_schedule :: "action list" where
  "sample_schedule = [Iter True, Iter True, Worker 0 False, Worker 0 False, Worker 0 False, Worker 0 False, Worker 0 False,
     Iter True, Iter True, Iter True, Iter True, Iter True]"

definition sample_end :: "(nat list list, nat, unit) stream" where
  "sample_end = \<lparr>stSource = [], stWorkers = [WDone], stOut = [], stDone = True, stStop = False, stCtx = True,
     stIter = CEnd Complete, stDelivered = [0, 1, 2]\<rparr>"

lemma sample_run: "stream_run next_batch 1 True (stream_init [[1, 2]] [0]) sample_schedule sample_end"
  unfolding run_actions_run [symmetric] by code_simp

section \<open>Properties\<close>

text \<open>C11: a stream is never silently short and never makes up a chunk: over any source of batches that
  keeps the fetch contract, in any interleaving of the workers, the iterator and the caller, what
  has been delivered is at all times part of the inlined chunks and the source's, and a stream that
  ended without error and was not closed delivered exactly these, the inlined ones first.\<close>

theorem stream_never_short:
  assumes "batch_source fetch good left" and "good s0" and "0 < n"
    and "stream_run fetch n needs_more (stream_init s0 inlined) as st"
  shows "mset (stDelivered st) \<subseteq># mset inlined + left s0 \<and>
    (stIter st = CEnd Complete \<and> \<not> stStop st \<longrightarrow>
       mset (stDelivered st) = mset inlined + (if needs_more then left s0 else {#}) \<and> prefix inlined (stDelivered st))"
  using batch_source.stream_nothing_extra [OF assms(1,3,2,4)] batch_source.stream_complete [OF assms(1,3,2,4)] by blast

theorem stream_never_short_witness:
  "mset (stDelivered sample_end) = mset [0] + mset (concat [[1, 2]]) \<and> prefix [0] (stDelivered sample_end)"
  using stream_never_short [OF next_batch_source _ _ sample_run] by (simp add: sample_end_def)

text \<open>C12: streaming terminates and leaks no worker: the number of steps of any run is bounded by the
  chunks to come and the workers, and from every state a run goes on, with no help from the caller
  but its asking for the next chunk, to a state where the iteration has ended and every worker has
  returned.\<close>

theorem stream_ends:
  assumes "batch_source fetch good left" and "good s0" and "0 < n"
    and "stream_run fetch n needs_more (stream_init s0 inlined) as st"
  shows "length as \<le> 6 * size (left s0) + length inlined + 5 * n + 4 \<and>
    (\<exists>as' st'. stream_run fetch n needs_more (stream_init s0 inlined) (as @ as') st'
       \<and> (\<forall>a \<in> set as'. a \<noteq> Cancel \<and> a \<noteq> Close_result)
       \<and> (\<exists>r. stIter st' = CEnd r) \<and> (\<forall>w \<in> set (stWorkers st'). w = WDone))"
  using batch_source.stream_run_bounded [OF assms(1,3,2,4)] batch_source.stream_can_end [OF assms(1,3,2,4)] by auto

theorem stream_ends_witness: "length sample_schedule \<le> 6 * size (mset (concat [[1, 2 :: nat]])) + length [0 :: nat] + 5 * 1 + 4"
  using stream_ends [OF next_batch_source _ _ sample_run] by simp

end
