(* ===== verification/Duckcall.thy ===== *)
theory Duckcall
  imports Wire_Client Result_Codec Stream_Fetch
begin

text \<open>
  The native API, \<^verbatim>\<open>src/duckcall.go\<close>: \<open>Dial\<close>, \<open>Query\<close>, \<open>Close\<close>, and the fetch its
  streaming workers make.  The iteration itself is \<open>Stream_Fetch\<close>; here its \<open>fetch\<close> is the transport's
  \<open>Fetch\<close> followed by the codec's \<open>DecodeFetch\<close>, on the state of the client and the world.

  Lemmas: a fetch never panics.
\<close>

section \<open>Connections\<close>

record conn =
  dcClient :: client
  dcCodec :: codec

text \<open>The errors of the package: of the transport, of the version registry, and wrapped decode errors.\<close>

datatype duck_error =
    DWire wire_error
  | DCodec codec_error
  | DPrepare codec_error
  | DFetch codec_error

primrec map_err :: "('e \<Rightarrow> 'f) \<Rightarrow> ('e, 'a) go \<Rightarrow> ('f, 'a) go" where
  "map_err f (Ok x) = Ok x"
| "map_err f (Err e) = Err (f e)"
| "map_err f Panic = Panic"

definition Dial where
  "Dial parse_scheme platform post ctx_err wait cfg w =
     (case Connect parse_scheme platform post ctx_err wait cfg w of
        (Err e, w) \<Rightarrow> (Err (DWire e), w)
      | (Panic, w) \<Rightarrow> (Panic, w)
      | (Ok c, w) \<Rightarrow>
          (case For (csQuackVersion (clServer c)) of
             Ok cd \<Rightarrow> (Ok \<lparr>dcClient = c, dcCodec = cd\<rparr>, w)
           | Err e \<Rightarrow> (Err (DCodec e), snd (snd (Client_Close post c w)))
           | Panic \<Rightarrow> (Panic, w)))"

definition Conn_Close :: "'w post \<Rightarrow> conn \<Rightarrow> 'w \<Rightarrow> (wire_error, unit) go \<times> conn \<times> 'w" where
  "Conn_Close post dc w = (case Client_Close post (dcClient dc) w of (r, c, w) \<Rightarrow> (r, dc\<lparr>dcClient := c\<rparr>, w))"

definition ServerVersion :: "conn \<Rightarrow> string" where
  "ServerVersion dc = csServerVersion (clServer (dcClient dc))"

definition Query :: "'w post \<Rightarrow> conn \<Rightarrow> string \<Rightarrow> 'w \<Rightarrow> (duck_error, prepare_result) go \<times> conn \<times> 'w" where
  "Query post dc sql w =
     (case Prepare post (dcClient dc) sql w of
        (Ok body, c, w) \<Rightarrow> (map_err DPrepare (DecodePrepare (dcCodec dc) body), dc\<lparr>dcClient := c\<rparr>, w)
      | (Err e, c, w) \<Rightarrow> (Err (DWire e), dc\<lparr>dcClient := c\<rparr>, w)
      | (Panic, c, w) \<Rightarrow> (Panic, dc\<lparr>dcClient := c\<rparr>, w))"

section \<open>What a worker fetches\<close>

definition fetch_chunks :: "'w post \<Rightarrow> codec \<Rightarrow> hugeint \<Rightarrow> (client \<times> 'w, chunk, duck_error) fetcher" where
  "fetch_chunks post cd uuid = (\<lambda>(c, w).
     case Fetch post c uuid w of
       (Ok body, c, w) \<Rightarrow> (map_err DFetch (go_bind (DecodeFetch cd body) (\<lambda>fr. Ok (frChunks fr))), c, w)
     | (Err e, c, w) \<Rightarrow> (Err (DWire e), c, w)
     | (Panic, c, w) \<Rightarrow> (Panic, c, w))"

text \<open>The iteration \<open>Chunks\<close> starts from: the inlined chunks and the connection; and its workers.\<close>

definition Chunks_init :: "client \<times> 'w \<Rightarrow> prepare_result \<Rightarrow> (client \<times> 'w, chunk, duck_error) stream" where
  "Chunks_init s pr = stream_init s (prChunks pr)"

definition Chunks_workers :: "conn \<Rightarrow> nat" where
  "Chunks_workers dc = nat (cfFetchWorkers (clCfg (dcClient dc)))"

section \<open>No panics\<close>

lemma map_err_Panic [simp]: "map_err f m = Panic \<longleftrightarrow> m = Panic"
  by (cases m) simp_all

lemma SplitEnvelope_returns [simp]: "SplitEnvelope b \<noteq> Panic"
  by (simp add: SplitEnvelope_def Let_def split: prod.split option.split)

lemma wrapErr_returns [simp]: "wrapErr what m r \<noteq> Panic"
  by (simp add: wrapErr_def split: option.split)

lemma serverError_returns [simp]: "serverError cfg b \<noteq> Panic"
proof -
  have "DecodeErrorMessage b \<noteq> Panic" by (simp add: DecodeErrorMessage_def Let_def split: prod.split)
  then show ?thesis by (cases "DecodeErrorMessage b") (simp_all add: serverError_def)
qed

lemma roundTrip_returns [simp]: "fst (fst (roundTrip post cfg m w)) \<noteq> Panic"
  by (simp add: roundTrip_def split: prod.split http_result.split option.split)

lemma call_returns: "fst (call post c req body want w) \<noteq> Panic"
proof -
  define msg where "msg = EncodeEnvelope \<lparr>hType = req, hConnectionID = clConnID c, hQueryID = clQid c + 1\<rparr> body"
  obtain r st w' where e: "roundTrip post (clCfg c) msg w = ((r, st), w')" by (metis surj_pair)
  have "r \<noteq> Panic" using roundTrip_returns [of post "clCfg c" msg w] e by simp
  then show ?thesis using e by (cases r) (auto simp: call_def Let_def msg_def split: if_splits)
qed

lemma fetch_chunks_returns: "fst (fetch_chunks post cd uuid s) \<noteq> Panic"
proof -
  obtain c w where s: "s = (c, w)" by fastforce
  obtain r c' w' where e: "Fetch post c uuid w = (r, c', w')" by (metis surj_pair)
  have "r \<noteq> Panic" using call_returns [of post c] e unfolding Fetch_def by (metis fst_conv)
  moreover have "DecodeFetch cd b \<noteq> Panic" for b by (rule DecodeFetch_returns)
  ultimately show ?thesis using s e by (cases r) (auto simp: fetch_chunks_def go_bind_eq_Panic split: go.splits)
qed

end
