(* ===== verification/Quacktest.thy ===== *)
theory Quacktest
  imports Duckcall Codectest
begin

text \<open>
  The fake server, \<^verbatim>\<open>src/internal/quacktest/quacktest.go\<close>: its state, the registration of
  results, and its handlers.  Each request is handled under the mutex, so a handler is one step on
  the state; the sleep of \<open>FetchDelay\<close> is left out.  A panic of the encoder becomes a broken
  connection, as \<open>net/http\<close> makes it.  \<open>quote\<close> is \<open>strconv.Quote\<close>.
\<close>

section \<open>State\<close>

record quack_result =
  qrCols :: "col list"
  qrBatches :: "col list list list"

record live_result =
  lrRes :: quack_result
  lrNext :: nat

record server =
  svToken :: string
  svQuackVersion :: u64
  svBatchChunks :: nat
  svConnectFails :: int
  svFetchFails :: int
  svResults :: "string \<rightharpoonup> quack_result"
  svConns :: "string \<Rightarrow> bool"
  svLive :: "hugeint \<rightharpoonup> live_result"
  svNextID :: nat
  svFetchCount :: nat
  svActiveConn :: int

definition Server_New :: "string \<Rightarrow> server" where
  "Server_New token =
     \<lparr>svToken = token, svQuackVersion = 1, svBatchChunks = 2, svConnectFails = 0, svFetchFails = 0,
      svResults = (\<lambda>_. None), svConns = (\<lambda>_. False), svLive = (\<lambda>_. None), svNextID = 0, svFetchCount = 0,
      svActiveConn = 0\<rparr>"

section \<open>Registering a result\<close>

text \<open>
  The two loops that cut rows into chunks and chunks into batches: the intervals
  \<open>[at, min (at + step) n)\<close>.  With a step of 0 the loop does not end.
\<close>

partial_function (option) intervals :: "nat \<Rightarrow> nat \<Rightarrow> nat \<Rightarrow> (nat \<times> nat) list option" where
  "intervals pos n step =
     (if pos < n
      then Option.bind (intervals (pos + step) n step) (\<lambda>rest. Some ((pos, min (pos + step) n) # rest))
      else Some [])"

declare intervals.simps [code]

definition chunk_part :: "col list \<Rightarrow> nat \<times> nat \<Rightarrow> (unit, col list) go" where
  "chunk_part cols = (\<lambda>(pos, upto).
     go_map (\<lambda>c. go_bind (go_slice (cVals c) pos upto) (\<lambda>vs. Ok \<lparr>cName = cName c, cType = cType c, cVals = vs\<rparr>)) cols)"

text \<open>\<open>None\<close>: the call does not return.\<close>

definition AddResult :: "string \<Rightarrow> col list \<Rightarrow> nat \<Rightarrow> server \<Rightarrow> (unit, server) go option" where
  "AddResult sql cols chunkRows s =
     (let rows = (case cols of [] \<Rightarrow> 0 | c # _ \<Rightarrow> length (cVals c)) in
      case intervals 0 rows chunkRows of
        None \<Rightarrow> None
      | Some cuts \<Rightarrow>
          (case go_map (chunk_part cols) cuts of
             Ok chunks \<Rightarrow>
               map_option (\<lambda>bs. Ok (s\<lparr>svResults := (svResults s)(sql \<mapsto>
                   \<lparr>qrCols = cols, qrBatches = map (\<lambda>(a, b). take (b - a) (drop a chunks)) bs\<rparr>)\<rparr>))
                 (intervals 0 (length chunks) (svBatchChunks s))
           | Err e \<Rightarrow> Some (Err e)
           | Panic \<Rightarrow> Some Panic))"

section \<open>Replies\<close>

definition http_error :: "string \<Rightarrow> int \<Rightarrow> http_result" where
  "http_error msg code = HTTPResp code (go_bytes (msg @ [char_of (10 :: nat)])) None"

definition Server_reply :: "header \<Rightarrow> bytes \<Rightarrow> http_result" where
  "Server_reply hdr body =
     HTTPResp 200 (EncodeEnvelope (if hQueryID hdr = 0 then hdr\<lparr>hQueryID := QueryIDAbsent\<rparr> else hdr) body) None"

definition Server_errorReply :: "string \<Rightarrow> http_result" where
  "Server_errorReply msg =
     Server_reply \<lparr>hType = MsgError, hConnectionID = [], hQueryID = 0\<rparr> (ErrorMessage_Encode msg)"

definition reply_encoded :: "header \<Rightarrow> bytes option \<Rightarrow> http_result" where
  "reply_encoded hdr body = (case body of Some b \<Rightarrow> Server_reply hdr b | None \<Rightarrow> HTTPFail ''EOF'')"

section \<open>Handlers\<close>

definition withConn :: "server \<Rightarrow> header \<Rightarrow> http_result \<times> server \<Rightarrow> http_result \<times> server" where
  "withConn s hdr h = (if \<not> svConns s (hConnectionID hdr) then (Server_errorReply ''Invalid connection id'', s) else h)"

definition ExpireConnections :: "server \<Rightarrow> server" where
  "ExpireConnections s = s\<lparr>svConns := (\<lambda>_. False), svActiveConn := 0\<rparr>"

definition Server_handleConnect :: "bytes \<Rightarrow> server \<Rightarrow> http_result \<times> server" where
  "Server_handleConnect body s =
     (case DecodeConnectionRequest body of
        Err e \<Rightarrow> (Server_errorReply (wire_error_text e), s)
      | Panic \<Rightarrow> (HTTPFail ''EOF'', s)
      | Ok req \<Rightarrow>
          (if svConnectFails s > 0 then (http_error ''transient'' 503, s\<lparr>svConnectFails := svConnectFails s - 1\<rparr>)
           else if crMinVersion req > 1
           then (Server_errorReply ''Unsupported Quack version - server only supports version 1 of quack'', s)
           else if crAuthString req \<noteq> svToken s
           then (Server_errorReply (''Authentication failed for token '' @ crAuthString req), s)
           else
             let n = svNextID s + 1; cid = ''TESTCONN'' @ nat_dec n in
             (Server_reply \<lparr>hType = MsgConnectionResponse, hConnectionID = cid, hQueryID = 0\<rparr>
                (ConnectionResponse_Encode \<lparr>csServerVersion = ''v1.5.4-quacktest'', csPlatform = ''test'',
                   csQuackVersion = svQuackVersion s\<rparr>),
              s\<lparr>svNextID := n, svConns := (svConns s)(cid := True), svActiveConn := svActiveConn s + 1\<rparr>)))"

definition Server_handleDisconnect :: "header \<Rightarrow> server \<Rightarrow> http_result \<times> server" where
  "Server_handleDisconnect hdr s =
     (if svConns s (hConnectionID hdr)
      then (Server_reply \<lparr>hType = MsgSuccess, hConnectionID = [], hQueryID = 0\<rparr> EncodeEmptyBody,
            s\<lparr>svConns := (svConns s)(hConnectionID hdr := False), svActiveConn := svActiveConn s - 1\<rparr>)
      else (Server_errorReply ''Connection does not exist / already disconnected'', s))"

definition Server_handlePrepare :: "(string \<Rightarrow> string) \<Rightarrow> header \<Rightarrow> bytes \<Rightarrow> server \<Rightarrow> http_result \<times> server" where
  "Server_handlePrepare quote hdr body s =
     (case DecodePrepareRequest body of
        Err e \<Rightarrow> (Server_errorReply (wire_error_text e), s)
      | Panic \<Rightarrow> (HTTPFail ''EOF'', s)
      | Ok sql \<Rightarrow>
          (case svResults s sql of
             None \<Rightarrow> (Server_errorReply (''Parser Error: no canned result for '' @ quote sql), s)
           | Some res \<Rightarrow>
               let n = svNextID s + 1;
                   uuid = \<lparr>Upper = 0x7e57, Lower = word_of_nat n\<rparr>;
                   inlined = (case qrBatches res of b # _ \<Rightarrow> b | [] \<Rightarrow> []);
                   needsMore = (length (qrBatches res) > 1);
                   s = s\<lparr>svNextID := n\<rparr>;
                   s = (if needsMore then s\<lparr>svLive := (svLive s)(uuid \<mapsto> \<lparr>lrRes = res, lrNext = 1\<rparr>)\<rparr> else s)
               in (reply_encoded \<lparr>hType = MsgPrepareResponse, hConnectionID = [], hQueryID = hQueryID hdr\<rparr>
                     (EncodePrepareBody (qrCols res) inlined needsMore uuid), s)))"

definition Server_handleFetch :: "bytes \<Rightarrow> server \<Rightarrow> http_result \<times> server" where
  "Server_handleFetch body s =
     (case DecodeFetchRequest body of
        Err e \<Rightarrow> (Server_errorReply (wire_error_text e), s)
      | Panic \<Rightarrow> (HTTPFail ''EOF'', s)
      | Ok uuid \<Rightarrow>
          (let s = s\<lparr>svFetchCount := svFetchCount s + 1\<rparr> in
           if svFetchFails s > 0 then (http_error ''transient'' 503, s\<lparr>svFetchFails := svFetchFails s - 1\<rparr>)
           else
             let (batch, idx, s) =
               (case svLive s uuid of
                  Some lr \<Rightarrow>
                    (if lrNext lr < length (qrBatches (lrRes lr))
                     then (qrBatches (lrRes lr) ! lrNext lr, word_of_nat (lrNext lr),
                           s\<lparr>svLive := (svLive s)(uuid \<mapsto> lr\<lparr>lrNext := lrNext lr + 1\<rparr>)\<rparr>)
                     else ([], OptionalIdxAbsent, s))
                | None \<Rightarrow> ([], OptionalIdxAbsent, s))
             in (reply_encoded \<lparr>hType = MsgFetchResponse, hConnectionID = [], hQueryID = 0\<rparr> (EncodeFetchBody batch idx), s)))"

definition Server_ServeHTTP ::
  "(string \<Rightarrow> string) \<Rightarrow> string \<Rightarrow> string \<Rightarrow> bytes \<Rightarrow> server \<Rightarrow> http_result \<times> server" where
  "Server_ServeHTTP quote method path raw s =
     (if method \<noteq> ''POST'' \<or> path \<noteq> ''/quack'' then (http_error ''This is a DuckDB Quack RPC endpoint.'' 404, s)
      else case SplitEnvelope raw of
        Err e \<Rightarrow> (Server_errorReply (wire_error_text e), s)
      | Panic \<Rightarrow> (HTTPFail ''EOF'', s)
      | Ok (hdr, body) \<Rightarrow>
          (if hType hdr = MsgConnectionRequest then Server_handleConnect body s
           else if hType hdr = MsgPrepareRequest then withConn s hdr (Server_handlePrepare quote hdr body s)
           else if hType hdr = MsgFetchRequest then withConn s hdr (Server_handleFetch body s)
           else if hType hdr = MsgDisconnect then Server_handleDisconnect hdr s
           else (Server_errorReply (''unhandled message type '' @ MessageType_String (hType hdr)), s)))"

definition FetchCount :: "server \<Rightarrow> nat" where
  "FetchCount s = svFetchCount s"

definition OpenConnections :: "server \<Rightarrow> int" where
  "OpenConnections s = svActiveConn s"

text \<open>The server at the other end of the client's HTTP connection, when its URL is \<open>base\<close>.\<close>

definition quack_post :: "(string \<Rightarrow> string) \<Rightarrow> string \<Rightarrow> server post" where
  "quack_post quote base url ct m s =
     (if prefix base url then Server_ServeHTTP quote ''POST'' (drop (length base) url) m s
      else (HTTPFail ''no such host'', s))"

section \<open>Cutting a result\<close>

definition cut :: "'a list \<Rightarrow> nat \<times> nat \<Rightarrow> 'a list" where
  "cut xs = (\<lambda>(a, b). take (b - a) (drop a xs))"

lemma intervals_cut:
  assumes "0 < step"
  shows "\<exists>is. intervals pos n step = Some is \<and> (\<forall>(a, b) \<in> set is. a < b \<and> b \<le> n \<and> b - a \<le> step)
    \<and> (\<forall>xs :: 'a list. length xs = n \<longrightarrow> concat (map (cut xs) is) = drop pos xs)"
proof (induction "n - pos" arbitrary: pos rule: less_induct)
  case less
  show ?case
  proof (cases "pos < n")
    case True
    then have "n - (pos + step) < n - pos" using assms by simp
    then obtain "is" where i: "intervals (pos + step) n step = Some is" "\<forall>(a, b) \<in> set is. a < b \<and> b \<le> n \<and> b - a \<le> step"
      "\<forall>xs :: 'a list. length xs = n \<longrightarrow> concat (map (cut xs) is) = drop (pos + step) xs"
      using less by blast
    have "cut xs (pos, min (pos + step) n) @ drop (pos + step) xs = drop pos xs" if "length xs = n" for xs :: "'a list"
    proof (cases "pos + step \<le> n")
      case True
      then show ?thesis using append_take_drop_id [of step "drop pos xs"] by (simp add: cut_def min_absorb1 add.commute)
    next
      case False
      then show ?thesis using that by (simp add: cut_def min_absorb2)
    qed
    then show ?thesis
      using True i assms by (subst intervals.simps) auto
  next
    case False
    then show ?thesis by (subst intervals.simps) simp
  qed
qed

lemma intervals_returns:
  assumes "intervals pos n step = Some is"
  shows "0 < step \<or> n \<le> pos"
  using _ assms
proof (rule intervals.raw_induct)
  fix rec :: "nat \<Rightarrow> nat \<Rightarrow> nat \<Rightarrow> (nat \<times> nat) list option" and pos n step y
  assume "\<And>pos n step y. rec pos n step = Some y \<Longrightarrow> 0 < step \<or> n \<le> pos"
    and "(if pos < n then Option.bind (rec (pos + step) n step) (\<lambda>rest. Some ((pos, min (pos + step) n) # rest)) else Some []) = Some y"
  then show "0 < step \<or> n \<le> pos"
    by (cases "pos < n") (fastforce simp: bind_eq_Some_conv)+
qed

definition same_rows :: "col list \<Rightarrow> bool" where
  "same_rows cols \<longleftrightarrow> (\<forall>c \<in> set cols. length (cVals c) = length (cVals (hd cols)))"

definition col_part :: "nat \<times> nat \<Rightarrow> col \<Rightarrow> col" where
  "col_part p c = \<lparr>cName = cName c, cType = cType c, cVals = cut (cVals c) p\<rparr>"

lemma chunk_part_cut:
  assumes "\<forall>c \<in> set cols. length (cVals c) = n" "a \<le> b" "b \<le> n"
  shows "chunk_part cols (a, b) = Ok (map (col_part (a, b)) cols)"
  unfolding chunk_part_def prod.case
  using assms by (intro go_map_Ok) (auto simp: go_slice_def col_part_def cut_def)

lemma concat_col_part:
  "i < length cols \<Longrightarrow> concat (map (\<lambda>ch. cVals (ch ! i)) (map (\<lambda>p. map (col_part p) cols) is)) = concat (map (cut (cVals (cols ! i))) is)"
  by (induction "is") (simp_all add: col_part_def)

section \<open>Properties\<close>

text \<open>Registering a result cuts it without loss: for columns of equal length and positive sizes, the
  batches hold chunks of at most \<open>chunkRows\<close> rows, at most \<open>BatchChunks\<close> chunks each, none empty, of the
  columns' names and types, and each column's values are the concatenation of its parts.\<close>

theorem AddResult_partitions:
  assumes "same_rows cols" and "0 < chunkRows" and "0 < svBatchChunks s"
  shows "\<exists>s' res. AddResult sql cols chunkRows s = Some (Ok s') \<and> svResults s' sql = Some res \<and> qrCols res = cols \<and>
    (\<forall>b \<in> set (qrBatches res). b \<noteq> [] \<and> length b \<le> svBatchChunks s) \<and>
    (\<forall>ch \<in> set (concat (qrBatches res)). map cName ch = map cName cols \<and> map cType ch = map cType cols
        \<and> (\<forall>c \<in> set ch. 0 < length (cVals c) \<and> length (cVals c) \<le> chunkRows)) \<and>
    (\<forall>i < length cols. concat (map (\<lambda>ch. cVals (ch ! i)) (concat (qrBatches res))) = cVals (cols ! i))"
proof -
  define rows where "rows = (case cols of [] \<Rightarrow> 0 | c # _ \<Rightarrow> length (cVals c))"
  have len: "\<forall>c \<in> set cols. length (cVals c) = rows"
    using assms(1) unfolding same_rows_def rows_def by (cases cols) simp_all
  obtain cs where cs: "intervals 0 rows chunkRows = Some cs" "\<forall>(a, b) \<in> set cs. a < b \<and> b \<le> rows \<and> b - a \<le> chunkRows"
    "\<forall>xs :: val list. length xs = rows \<longrightarrow> concat (map (cut xs) cs) = drop 0 xs"
    using intervals_cut [OF assms(2)] by blast
  define chunks where "chunks = map (\<lambda>p. map (col_part p) cols) cs"
  have "chunk_part cols p = Ok (map (col_part p) cols)" if "p \<in> set cs" for p
  proof -
    obtain a b where p: "p = (a, b)" by fastforce
    then have "a < b \<and> b \<le> rows \<and> b - a \<le> chunkRows" using cs(2) that by blast
    then show ?thesis unfolding p by (intro chunk_part_cut [OF len]) simp_all
  qed
  then have "go_map (chunk_part cols) cs = Ok chunks"
    unfolding chunks_def by (intro go_map_Ok) simp
  moreover obtain bs where bs: "intervals 0 (length chunks) (svBatchChunks s) = Some bs"
    "\<forall>(a, b) \<in> set bs. a < b \<and> b \<le> length chunks \<and> b - a \<le> svBatchChunks s"
    "\<forall>xs :: col list list. length xs = length chunks \<longrightarrow> concat (map (cut xs) bs) = drop 0 xs"
    using intervals_cut [OF assms(3)] by blast
  ultimately have add: "AddResult sql cols chunkRows s = Some (Ok (s\<lparr>svResults := (svResults s)(sql \<mapsto> \<lparr>qrCols = cols, qrBatches = map (cut chunks) bs\<rparr>)\<rparr>))"
    using cs(1) by (simp add: AddResult_def Let_def rows_def [symmetric] cut_def [abs_def])
  have cat: "concat (map (cut chunks) bs) = chunks" using bs(3) by simp
  have "\<forall>b \<in> set (map (cut chunks) bs). b \<noteq> [] \<and> length b \<le> svBatchChunks s"
    using bs(2) by (auto simp: cut_def)
  moreover have "\<forall>ch \<in> set chunks. map cName ch = map cName cols \<and> map cType ch = map cType cols
        \<and> (\<forall>c \<in> set ch. 0 < length (cVals c) \<and> length (cVals c) \<le> chunkRows)"
    using cs(2) len by (auto simp: chunks_def col_part_def cut_def)
  moreover have "\<forall>i < length cols. concat (map (\<lambda>ch. cVals (ch ! i)) chunks) = cVals (cols ! i)"
  proof (intro allI impI)
    fix i assume i: "i < length cols"
    then have "concat (map (cut (cVals (cols ! i))) cs) = cVals (cols ! i)" using cs(3) len by simp
    then show "concat (map (\<lambda>ch. cVals (ch ! i)) chunks) = cVals (cols ! i)"
      unfolding chunks_def concat_col_part [OF i] .
  qed
  moreover define res where "res = \<lparr>qrCols = cols, qrBatches = map (cut chunks) bs\<rparr>"
  moreover have "qrBatches res = map (cut chunks) bs" "concat (qrBatches res) = chunks" "qrCols res = cols"
    "svResults (s\<lparr>svResults := (svResults s)(sql \<mapsto> res)\<rparr>) sql = Some res"
    using cat by (simp_all add: res_def)
  ultimately show ?thesis
    using add by metis
qed

theorem AddResult_partitions_witness:
  "\<exists>s'. AddResult ''q'' [\<lparr>cName = ''n'', cType = scalar_type TypeInteger, cVals = [VInt32 1, VInt32 2, VInt32 3]\<rparr>] 2 (Server_New ''t'') = Some (Ok s')"
  using AddResult_partitions [of "[\<lparr>cName = ''n'', cType = scalar_type TypeInteger, cVals = [VInt32 1, VInt32 2, VInt32 3]\<rparr>]" 2
      "Server_New ''t''" "''q''"]
  by (auto simp: same_rows_def Server_New_def)


end
