(* ===== verification/Quack_Session.thy ===== *)
theory Quack_Session
  imports Quacktest Chunk_Roundtrip
begin

text \<open>
  The client against the fake server: the transport of \<open>Wire_Client\<close>, the codec and the streaming of
  \<open>Duckcall\<close>, with the handlers of \<open>Quacktest\<close> at the other end.  The interpretation \<open>quack\<close> shows
  that a fetch through all of these layers keeps the contract \<open>batch_source\<close> the stream relies
  on, so its lemmas hold of the composed program.
\<close>

section \<open>The client against the server\<close>

lemma quack_post_envelope:
  assumes "go_len (hConnectionID h)"
  shows "quack_post quote base (base @ pathRPC) ct (EncodeEnvelope h body) s =
    (if hType h = MsgConnectionRequest then Server_handleConnect body s
     else if hType h = MsgPrepareRequest then withConn s h (Server_handlePrepare quote h body s)
     else if hType h = MsgFetchRequest then withConn s h (Server_handleFetch body s)
     else if hType h = MsgDisconnect then Server_handleDisconnect h s
     else (Server_errorReply (''unhandled message type '' @ MessageType_String (hType h)), s))"
  using split_envelope_rd [OF assms, of body]
  by (simp add: quack_post_def Server_ServeHTTP_def pathRPC_def)

lemma roundTrip_reply:
  assumes "post (cfEndpoint cfg @ pathRPC) contentType m s = (Server_reply h body, s')" "go_len (hConnectionID h)"
  shows "roundTrip post cfg m s =
    ((Ok (if hQueryID h = 0 then h\<lparr>hQueryID := QueryIDAbsent\<rparr> else h, body), 200), s')"
proof -
  have "SplitEnvelope (EncodeEnvelope (if hQueryID h = 0 then h\<lparr>hQueryID := QueryIDAbsent\<rparr> else h) body)
      = Ok (if hQueryID h = 0 then h\<lparr>hQueryID := QueryIDAbsent\<rparr> else h, body)"
    using assms(2) by (intro split_envelope_rd) simp
  then show ?thesis
    using assms(1) by (simp add: roundTrip_def Server_reply_def)
qed

definition batch_codable :: "col list list \<Rightarrow> bool" where
  "batch_codable b \<longleftrightarrow> b \<noteq> [] \<and> go_len b \<and> list_all chunk_codable b"

definition remaining :: "live_result \<Rightarrow> chunk list" where
  "remaining lr = concat (map (map decoded_chunk) (drop (lrNext lr) (qrBatches (lrRes lr))))"

definition quack_left :: "hugeint \<Rightarrow> client \<times> server \<Rightarrow> chunk multiset" where
  "quack_left uuid = (\<lambda>(c, s). case svLive s uuid of None \<Rightarrow> {#} | Some lr \<Rightarrow> mset (remaining lr))"

definition quack_good :: "string \<Rightarrow> hugeint \<Rightarrow> client \<times> server \<Rightarrow> bool" where
  "quack_good base uuid = (\<lambda>(c, s).
     cfEndpoint (clCfg c) = base \<and> \<not> clClosed c \<and> go_len (clConnID c) \<and> svConns s (clConnID c)
     \<and> (case svLive s uuid of None \<Rightarrow> True | Some lr \<Rightarrow> list_all batch_codable (qrBatches (lrRes lr))))"

text \<open>A fetch: it fails on purpose, or hands out the next batch, or says the result is drained.\<close>

definition live_batch :: "server \<Rightarrow> hugeint \<Rightarrow> col list list" where
  "live_batch s uuid = (case svLive s uuid of
     Some lr \<Rightarrow> if lrNext lr < length (qrBatches (lrRes lr)) then qrBatches (lrRes lr) ! lrNext lr else [] | None \<Rightarrow> [])"

definition advance :: "server \<Rightarrow> hugeint \<Rightarrow> server" where
  "advance s uuid = (let s = s\<lparr>svFetchCount := svFetchCount s + 1\<rparr> in case svLive s uuid of
     Some lr \<Rightarrow> if lrNext lr < length (qrBatches (lrRes lr)) then s\<lparr>svLive := (svLive s)(uuid \<mapsto> lr\<lparr>lrNext := lrNext lr + 1\<rparr>)\<rparr> else s
   | None \<Rightarrow> s)"

lemma handleFetch_cases:
  assumes "svFetchFails s \<le> 0"
  shows "\<exists>idx. Server_handleFetch (FetchRequest_Encode uuid) s =
    (reply_encoded \<lparr>hType = MsgFetchResponse, hConnectionID = [], hQueryID = 0\<rparr> (EncodeFetchBody (live_batch s uuid) idx), advance s uuid)"
  using assms
  by (auto simp: Server_handleFetch_def wire_simps live_batch_def advance_def Let_def split: option.split)

lemma fetch_chunks_quack:
  assumes good: "quack_good base uuid (c, s)"
  shows "fetch_chunks (quack_post quote base) cd uuid (c, s) =
    (if svFetchFails s > 0
     then (Err (DWire (WServerError 503 (redactToken (cfToken (clCfg c)) (go_string (go_bytes (''transient'' @ [char_of (10 :: nat)])))))),
           c\<lparr>clQid := clQid c + 1\<rparr>, s\<lparr>svFetchCount := svFetchCount s + 1, svFetchFails := svFetchFails s - 1\<rparr>)
     else (Ok (map decoded_chunk (live_batch s uuid)), c\<lparr>clQid := clQid c + 1\<rparr>, advance s uuid))"
proof -
  let ?h = "\<lparr>hType = MsgFetchRequest, hConnectionID = clConnID c, hQueryID = clQid c + 1\<rparr>"
  have c: "cfEndpoint (clCfg c) = base" "\<not> clClosed c" "go_len (clConnID c)" "svConns s (clConnID c)"
    using good by (simp_all add: quack_good_def)
  have post: "quack_post quote base (cfEndpoint (clCfg c) @ pathRPC) contentType (EncodeEnvelope ?h (FetchRequest_Encode uuid)) s
      = Server_handleFetch (FetchRequest_Encode uuid) s"
    using c by (simp add: quack_post_envelope withConn_def msg_defs)
  show ?thesis
  proof (cases "svFetchFails s > 0")
    case True
    then show ?thesis
      using c post
      by (simp add: fetch_chunks_def Fetch_def call_def Let_def roundTrip_def Server_handleFetch_def wire_simps http_error_def
          go_bytes_def)
  next
    case False
    obtain idx where f: "Server_handleFetch (FetchRequest_Encode uuid) s =
        (reply_encoded \<lparr>hType = MsgFetchResponse, hConnectionID = [], hQueryID = 0\<rparr> (EncodeFetchBody (live_batch s uuid) idx), advance s uuid)"
      using handleFetch_cases False by fastforce
    have "go_len (live_batch s uuid)" "list_all chunk_codable (live_batch s uuid)"
      using good by (auto simp: quack_good_def live_batch_def batch_codable_def list_all_iff go_len_def split: option.splits)
    then obtain b where b: "EncodeFetchBody (live_batch s uuid) idx = Some b"
      "DecodeFetch cd b = Ok \<lparr>frChunks = map decoded_chunk (live_batch s uuid), frBatchIndex = idx\<rparr>"
      using fetch_body_roundtrip by blast
    have "roundTrip (quack_post quote base) (clCfg c) (EncodeEnvelope ?h (FetchRequest_Encode uuid)) s =
      ((Ok (\<lparr>hType = MsgFetchResponse, hConnectionID = [], hQueryID = QueryIDAbsent\<rparr>, b), 200), advance s uuid)"
      using roundTrip_reply [where post = "quack_post quote base" and cfg = "clCfg c" and s = s and s' = "advance s uuid"
          and m = "EncodeEnvelope ?h (FetchRequest_Encode uuid)" and body = b
          and h = "\<lparr>hType = MsgFetchResponse, hConnectionID = [], hQueryID = 0\<rparr>"] post f b(1)
      by (simp add: reply_encoded_def go_len_def)
    then show ?thesis
      using c False b(2) by (simp add: fetch_chunks_def Fetch_def call_def Let_def)
  qed
qed


lemma advance_live: "svLive (advance s uuid) uuid =
    map_option (\<lambda>lr. if lrNext lr < length (qrBatches (lrRes lr)) then lr\<lparr>lrNext := lrNext lr + 1\<rparr> else lr) (svLive s uuid)"
  by (auto simp: advance_def Let_def split: option.split)

lemma advance_frame [simp]: "svConns (advance s uuid) = svConns s"
  by (auto simp: advance_def Let_def split: option.split)

lemma live_batch_left: "quack_left uuid (c, s) = mset (map decoded_chunk (live_batch s uuid)) + quack_left uuid (c', advance s uuid)"
proof (cases "svLive s uuid")
  case (Some lr)
  show ?thesis
  proof (cases "lrNext lr < length (qrBatches (lrRes lr))")
    case True
    then show ?thesis
      using Some by (simp add: quack_left_def live_batch_def advance_live remaining_def Cons_nth_drop_Suc [symmetric])
  next
    case False
    then show ?thesis
      using Some by (simp add: quack_left_def live_batch_def advance_live remaining_def)
  qed
qed (simp add: quack_left_def live_batch_def advance_live)

lemma live_batch_drained:
  assumes "quack_good base uuid (c, s)" "live_batch s uuid = []"
  shows "quack_left uuid (c, s) = {#}"
proof (cases "svLive s uuid")
  case (Some lr)
  have "\<not> lrNext lr < length (qrBatches (lrRes lr))"
  proof
    assume l: "lrNext lr < length (qrBatches (lrRes lr))"
    then have "batch_codable (qrBatches (lrRes lr) ! lrNext lr)"
      using assms(1) Some by (simp add: quack_good_def list_all_length)
    then show False using assms(2) Some l by (simp add: live_batch_def batch_codable_def)
  qed
  then show ?thesis using Some by (simp add: quack_left_def remaining_def)
qed (simp add: quack_left_def)

interpretation quack: batch_source "fetch_chunks (quack_post quote base) cd uuid" "quack_good base uuid" "quack_left uuid"
  for quote base cd uuid
proof unfold_locales
  fix s assume g: "quack_good base uuid s"
  obtain c sv where s: "s = (c, sv)" by fastforce
  note g = g [unfolded s]
  note f = fetch_chunks_quack [OF g, of quote cd]
  show "quack_good base uuid (snd (fetch_chunks (quack_post quote base) cd uuid s))"
    using g unfolding s f by (auto simp: quack_good_def advance_live split: option.splits)
  show "fst (fetch_chunks (quack_post quote base) cd uuid s) \<noteq> Panic"
    by (rule fetch_chunks_returns)
  fix s'
  show "quack_left uuid s = mset cs + quack_left uuid s'" if "fetch_chunks (quack_post quote base) cd uuid s = (Ok cs, s')" for cs
    using that live_batch_left [of uuid c sv] unfolding s f by (auto split: if_splits)
  show "quack_left uuid s = {#}" if "fetch_chunks (quack_post quote base) cd uuid s = (Ok [], s')"
    using that live_batch_drained [OF g] unfolding s f by (auto split: if_splits)
  show "quack_left uuid s' \<subseteq># quack_left uuid s" if "fetch_chunks (quack_post quote base) cd uuid s = (Err e, s')" for e
    using that unfolding s f by (auto simp: quack_left_def split: if_splits)
qed


section \<open>Queries\<close>

definition quack_ready :: "server \<Rightarrow> bool" where
  "quack_ready s \<longleftrightarrow>
     (\<forall>uuid lr. svLive s uuid = Some lr \<longrightarrow> list_all batch_codable (qrBatches (lrRes lr)))
     \<and> (\<forall>sql res. svResults s sql = Some res \<longrightarrow> schema_codable (qrCols res) \<and> list_all batch_codable (qrBatches res))"

definition connected :: "string \<Rightarrow> client \<Rightarrow> server \<Rightarrow> bool" where
  "connected base c s \<longleftrightarrow> cfEndpoint (clCfg c) = base \<and> \<not> clClosed c \<and> go_len (clConnID c) \<and> svConns s (clConnID c)"

definition query_uuid :: "server \<Rightarrow> hugeint" where
  "query_uuid s = \<lparr>Upper = 0x7e57, Lower = word_of_nat (svNextID s + 1)\<rparr>"

definition after_query :: "server \<Rightarrow> quack_result \<Rightarrow> server" where
  "after_query s res = (let s' = s\<lparr>svNextID := svNextID s + 1\<rparr> in
     if length (qrBatches res) > 1 then s'\<lparr>svLive := (svLive s')(query_uuid s \<mapsto> \<lparr>lrRes = res, lrNext = 1\<rparr>)\<rparr> else s')"

definition query_result :: "server \<Rightarrow> quack_result \<Rightarrow> prepare_result" where
  "query_result s res = \<lparr>prSchema = decoded_schema (qrCols res),
     prChunks = map decoded_chunk (case qrBatches res of b # _ \<Rightarrow> b | [] \<Rightarrow> []),
     prNeedsMoreFetch = (length (qrBatches res) > 1), prResultUUID = query_uuid s\<rparr>"

lemma Query_quack:
  assumes ready: "quack_ready s" and conn: "connected base (dcClient dc) s" and sql: "go_len sql" and res: "svResults s sql = Some res"
  shows "Query (quack_post quote base) dc sql s =
    (Ok (query_result s res), dc\<lparr>dcClient := (dcClient dc)\<lparr>clQid := clQid (dcClient dc) + 1\<rparr>\<rparr>, after_query s res)"
proof -
  let ?c = "dcClient dc" and ?inl = "case qrBatches res of b # _ \<Rightarrow> b | [] \<Rightarrow> []"
  let ?h = "\<lparr>hType = MsgPrepareRequest, hConnectionID = clConnID ?c, hQueryID = clQid ?c + 1\<rparr>"
  have codable: "schema_codable (qrCols res)" "list_all batch_codable (qrBatches res)"
    using ready res by (auto simp: quack_ready_def)
  then have inl: "go_len ?inl" "list_all chunk_codable ?inl"
    by (auto simp: batch_codable_def go_len_def split: list.split)
  obtain b where b: "EncodePrepareBody (qrCols res) ?inl (length (qrBatches res) > 1) (query_uuid s) = Some b"
    "DecodePrepare (dcCodec dc) b = Ok (query_result s res)"
    using prepare_body_roundtrip [OF codable(1) inl] unfolding query_result_def by blast
  have c: "cfEndpoint (clCfg ?c) = base" "\<not> clClosed ?c" "go_len (clConnID ?c)" "svConns s (clConnID ?c)"
    using conn by (simp_all add: connected_def)
  have "quack_post quote base (cfEndpoint (clCfg ?c) @ pathRPC) contentType (EncodeEnvelope ?h (PrepareRequest_Encode sql)) s
      = Server_handlePrepare quote ?h (PrepareRequest_Encode sql) s"
    using c by (simp add: quack_post_envelope withConn_def msg_defs)
  also have "\<dots> = (Server_reply \<lparr>hType = MsgPrepareResponse, hConnectionID = [], hQueryID = clQid ?c + 1\<rparr> b, after_query s res)"
    using sql res b(1) by (simp add: Server_handlePrepare_def wire_simps Let_def reply_encoded_def query_uuid_def after_query_def)
  finally have post: "quack_post quote base (cfEndpoint (clCfg ?c) @ pathRPC) contentType (EncodeEnvelope ?h (PrepareRequest_Encode sql)) s
      = (Server_reply \<lparr>hType = MsgPrepareResponse, hConnectionID = [], hQueryID = clQid ?c + 1\<rparr> b, after_query s res)" .
  obtain h where "roundTrip (quack_post quote base) (clCfg ?c) (EncodeEnvelope ?h (PrepareRequest_Encode sql)) s
      = ((Ok (h, b), 200), after_query s res)" "hType h = MsgPrepareResponse"
    using roundTrip_reply [where post = "quack_post quote base", OF post] by (simp add: go_len_def)
  then show ?thesis
    using c b(2) by (simp add: Query_def Prepare_def call_def Let_def)
qed

lemma Query_quack_stream:
  assumes "quack_ready s" "connected base (dcClient dc) s" "svResults s sql = Some res"
  shows "quack_good base (query_uuid s) ((dcClient dc)\<lparr>clQid := q\<rparr>, after_query s res)"
    and "length (qrBatches res) > 1 \<Longrightarrow> quack_left (query_uuid s) (c', after_query s res) = mset (map decoded_chunk (concat (tl (qrBatches res))))"
  using assms by (auto simp: quack_good_def connected_def after_query_def quack_ready_def quack_left_def remaining_def map_concat
      drop_Suc Let_def split: option.split)


lemma query_result_total:
  assumes "length (qrBatches res) > 1 \<Longrightarrow> L = mset (map decoded_chunk (concat (tl (qrBatches res))))"
  shows "mset (prChunks (query_result s res)) + (if prNeedsMoreFetch (query_result s res) then L else {#})
    = mset (map decoded_chunk (concat (qrBatches res)))"
proof (cases "length (qrBatches res) > 1")
  case True
  then obtain b bs where "qrBatches res = b # bs" by (cases "qrBatches res") auto
  then show ?thesis using True assms by (simp add: query_result_def)
next
  case False
  then show ?thesis by (cases "qrBatches res"; cases "tl (qrBatches res)") (auto simp: query_result_def)
qed

definition sample_chunk :: "int \<Rightarrow> col list" where
  "sample_chunk i = [\<lparr>cName = ''n'', cType = scalar_type TypeInteger, cVals = [VInt32 (word_of_int i), VNil]\<rparr>]"

definition sample_quack :: server where
  "sample_quack = (Server_New ''t'')
     \<lparr>svResults := [''q'' \<mapsto> \<lparr>qrCols = sample_chunk 0, qrBatches = [[sample_chunk 0], [sample_chunk 1]]\<rparr>],
      svConns := (\<lambda>_. False)(''c1'' := True)\<rparr>"

definition sample_conn :: conn where
  "sample_conn = \<lparr>dcClient = \<lparr>clCfg = sample_resolved, clConnID = ''c1'', clServer = sample_server, clQid = 0, clClosed = False\<rparr>,
     dcCodec = \<lparr>cVersion = 1\<rparr>\<rparr>"

lemma sample_chunk_codable: "chunk_codable (sample_chunk i)" "schema_codable (sample_chunk i)"
  by (simp_all add: sample_chunk_def chunk_codable_def schema_codable_def col_codable_def chunk_rows_def go_len_def maxChunkRows_def
      maxVectorRows_def maxTypeDepth_def type_depth.simps scalar_type_def vec_codable.simps scalar_codable_def supportedScalar_def
      type_id_defs)

lemma sample_ready: "quack_ready sample_quack"
  by (simp add: quack_ready_def sample_quack_def Server_New_def sample_chunk_codable batch_codable_def go_len_def)

lemma sample_connected: "connected ''http://h:8888'' (dcClient sample_conn) sample_quack"
  by (simp add: connected_def sample_conn_def sample_quack_def sample_resolved_def go_len_def)

lemma query_stream_delivers:
  assumes "quack_ready s" and "connected base (dcClient dc) s" and "go_len sql" and "svResults s sql = Some res" and "0 < Chunks_workers dc"
    and "Query (quack_post quote base) dc sql s = (r, dc', s')"
  shows "\<exists>pr. r = Ok pr \<and> prSchema pr = decoded_schema (qrCols res) \<and>
    (\<forall>as st. stream_run (fetch_chunks (quack_post quote base) (dcCodec dc') (prResultUUID pr)) (Chunks_workers dc') (prNeedsMoreFetch pr)
        (Chunks_init (dcClient dc', s') pr) as st \<and> stIter st = CEnd Complete \<and> \<not> stStop st \<longrightarrow>
      mset (stDelivered st) = mset (map decoded_chunk (concat (qrBatches res)))
      \<and> prefix (prChunks pr) (stDelivered st))"
proof -
  let ?pr = "query_result s res"
  have q: "r = Ok ?pr" "dc' = dc\<lparr>dcClient := (dcClient dc)\<lparr>clQid := clQid (dcClient dc) + 1\<rparr>\<rparr>" "s' = after_query s res"
    using Query_quack [OF assms(1-4), of quote] assms(6) by simp_all
  have workers: "0 < Chunks_workers dc'"
    using assms(5) q by (simp add: Chunks_workers_def)
  have good: "quack_good base (query_uuid s) (dcClient dc', s')"
    using Query_quack_stream(1) [OF assms(1,2,4)] q by simp
  have all: "mset (prChunks ?pr) + (if prNeedsMoreFetch ?pr then quack_left (query_uuid s) (dcClient dc', s') else {#})
      = mset (map decoded_chunk (concat (qrBatches res)))"
    using Query_quack_stream(2) [OF assms(1,2,4)] q by (intro query_result_total) simp
  have "mset (stDelivered st) = mset (map decoded_chunk (concat (qrBatches res))) \<and> prefix (prChunks ?pr) (stDelivered st)"
    if "stream_run (fetch_chunks (quack_post quote base) (dcCodec dc') (prResultUUID ?pr)) (Chunks_workers dc') (prNeedsMoreFetch ?pr) (Chunks_init (dcClient dc', s') ?pr) as st"
      and e: "stIter st = CEnd Complete" "\<not> stStop st" for as st
  proof -
    have "stream_run (fetch_chunks (quack_post quote base) (dcCodec dc') (query_uuid s)) (Chunks_workers dc') (prNeedsMoreFetch ?pr)
        (stream_init (dcClient dc', s') (prChunks ?pr)) as st"
      using that(1) by (simp add: Chunks_init_def query_result_def)
    then show ?thesis
      using quack.stream_complete [OF workers good] e all by metis
  qed
  then show ?thesis using q(1) by (auto simp: query_result_def)
qed

section \<open>Properties\<close>

text \<open>C13: a query through the whole program is answered in full: against a server holding a result
  for \<open>sql\<close>, \<open>Query\<close> returns its schema, and in whatever order the workers, the server and the caller
  interleave, a stream that ends without error and was not closed has delivered every chunk of
  every batch exactly once, the inlined ones first.\<close>

theorem query_streams_result:
  assumes "quack_ready s" and "connected base (dcClient dc) s" and "go_len sql" and "svResults s sql = Some res" and "0 < Chunks_workers dc"
    and "Query (quack_post quote base) dc sql s = (r, dc', s')"
  shows "\<exists>pr. r = Ok pr \<and> prSchema pr = decoded_schema (qrCols res) \<and>
    (\<forall>as st. stream_run (fetch_chunks (quack_post quote base) (dcCodec dc') (prResultUUID pr)) (Chunks_workers dc') (prNeedsMoreFetch pr)
        (Chunks_init (dcClient dc', s') pr) as st \<and> stIter st = CEnd Complete \<and> \<not> stStop st \<longrightarrow>
      mset (stDelivered st) = mset (map decoded_chunk (concat (qrBatches res)))
      \<and> prefix (prChunks pr) (stDelivered st))"
  by (rule query_stream_delivers [OF assms])

theorem query_streams_result_witness:
  "\<exists>pr. fst (Query (quack_post (\<lambda>s. s) ''http://h:8888'') sample_conn ''q'' sample_quack) = Ok pr
     \<and> prSchema pr = [\<lparr>scName = ''n'', scType = scalar_type TypeInteger\<rparr>]"
proof -
  have "svResults sample_quack ''q'' = Some \<lparr>qrCols = sample_chunk 0, qrBatches = [[sample_chunk 0], [sample_chunk 1]]\<rparr>"
    by (simp add: sample_quack_def)
  moreover have "go_len ''q''" by (simp add: go_len_def)
  moreover obtain r dc' s' where q: "Query (quack_post (\<lambda>s. s) ''http://h:8888'') sample_conn ''q'' sample_quack = (r, dc', s')"
    by (metis surj_pair)
  ultimately obtain pr where "r = Ok pr" "prSchema pr = decoded_schema (sample_chunk 0)"
    using query_streams_result [OF sample_ready sample_connected, of "''q''" _ "\<lambda>s. s" r dc' s']
    by (auto simp: Chunks_workers_def sample_conn_def sample_resolved_def)
  then show ?thesis using q by (simp add: decoded_schema_def sample_chunk_def)
qed


section \<open>Connecting\<close>

lemma length_nat_dec: "length (nat_dec n) \<le> n + 1"
proof (induction n rule: nat_dec.induct)
  case (1 n)
  have "n div 10 + 2 \<le> n + 1" if "\<not> n < 10" using that by linarith
  then show ?case using 1 by (subst nat_dec.simps) auto
qed

definition connect_id :: "server \<Rightarrow> string" where
  "connect_id s = ''TESTCONN'' @ nat_dec (svNextID s + 1)"

definition after_connect :: "server \<Rightarrow> server" where
  "after_connect s = s\<lparr>svNextID := svNextID s + 1, svConns := (svConns s)(connect_id s := True), svActiveConn := svActiveConn s + 1\<rparr>"

definition greeting :: "server \<Rightarrow> connection_response" where
  "greeting s = \<lparr>csServerVersion = ''v1.5.4-quacktest'', csPlatform = ''test'', csQuackVersion = svQuackVersion s\<rparr>"

lemma connect_id_len: "svNextID s < 2 ^ 62 \<Longrightarrow> go_len (connect_id s)"
  using length_nat_dec [of "svNextID s + 1"] by (simp add: connect_id_def go_len_def)

lemma post_connect:
  assumes "cfEndpoint cfg = base" "go_len (cfToken cfg)" "go_len platform"
  shows "quack_post quote base (cfEndpoint cfg @ pathRPC) contentType (connect_message platform cfg) s =
    (if svConnectFails s > 0 then (http_error ''transient'' 503, s\<lparr>svConnectFails := svConnectFails s - 1\<rparr>)
     else if cfToken cfg \<noteq> svToken s then (Server_errorReply (''Authentication failed for token '' @ cfToken cfg), s)
     else (Server_reply \<lparr>hType = MsgConnectionResponse, hConnectionID = connect_id s, hQueryID = 0\<rparr>
             (ConnectionResponse_Encode (greeting s)), after_connect s))"
  unfolding connect_message_def assms(1)
  using assms(2,3) by (subst quack_post_envelope)
    (simp_all add: msg_defs Server_handleConnect_def wire_simps go_len_def clientVersion_def quackVersionMin_def
      quackVersionMax_def Let_def connect_id_def after_connect_def greeting_def)

lemma roundTrip_reply0:
  assumes "post (cfEndpoint cfg @ pathRPC) contentType m s = (Server_reply \<lparr>hType = ty, hConnectionID = cid, hQueryID = 0\<rparr> body, s')"
    and "go_len cid"
  shows "roundTrip post cfg m s = ((Ok (\<lparr>hType = ty, hConnectionID = cid, hQueryID = QueryIDAbsent\<rparr>, body), 200), s')"
  using roundTrip_reply [where post = post, OF assms(1)] assms(2) by simp

lemma error_reply_roundTrip:
  assumes "post (cfEndpoint cfg @ pathRPC) contentType m s = (Server_errorReply msg, s')"
  shows "roundTrip post cfg m s = ((Ok (\<lparr>hType = MsgError, hConnectionID = [], hQueryID = QueryIDAbsent\<rparr>, ErrorMessage_Encode msg), 200), s')"
  using assms unfolding Server_errorReply_def by (rule roundTrip_reply0) (simp add: go_len_def)

text \<open>An attempt either meets a failure the server was told to make, or gets its answer.\<close>

definition connect_answer :: "config \<Rightarrow> server \<Rightarrow> (header \<times> bytes) \<times> server" where
  "connect_answer cfg s =
     (if cfToken cfg = svToken s
      then ((\<lparr>hType = MsgConnectionResponse, hConnectionID = connect_id s, hQueryID = QueryIDAbsent\<rparr>,
             ConnectionResponse_Encode (greeting s)), after_connect s)
      else ((\<lparr>hType = MsgError, hConnectionID = [], hQueryID = QueryIDAbsent\<rparr>,
             ErrorMessage_Encode (''Authentication failed for token '' @ cfToken cfg)), s))"

lemma connect_attempt_quack:
  assumes "cfEndpoint cfg = base" "go_len (cfToken cfg)" "go_len platform" "svNextID s < 2 ^ 62"
  shows "svConnectFails s > 0 \<Longrightarrow> \<exists>e. connect_attempt (quack_post quote base) cfg (connect_message platform cfg) s
      = ((True, Err e), s\<lparr>svConnectFails := svConnectFails s - 1\<rparr>)"
    and "svConnectFails s \<le> 0 \<Longrightarrow> connect_attempt (quack_post quote base) cfg (connect_message platform cfg) s
      = ((False, Ok (fst (connect_answer cfg s))), snd (connect_answer cfg s))"
proof -
  note post = post_connect [OF assms(1-3), of quote s]
  show "\<exists>e. connect_attempt (quack_post quote base) cfg (connect_message platform cfg) s
      = ((True, Err e), s\<lparr>svConnectFails := svConnectFails s - 1\<rparr>)" if "svConnectFails s > 0"
    using that post by (simp add: connect_attempt_def roundTrip_def http_error_def retryableStatus_def)
  assume fails: "svConnectFails s \<le> 0"
  show "connect_attempt (quack_post quote base) cfg (connect_message platform cfg) s
      = ((False, Ok (fst (connect_answer cfg s))), snd (connect_answer cfg s))"
  proof (cases "cfToken cfg = svToken s")
    case True
    have "roundTrip (quack_post quote base) cfg (connect_message platform cfg) s =
      ((Ok (\<lparr>hType = MsgConnectionResponse, hConnectionID = connect_id s, hQueryID = QueryIDAbsent\<rparr>,
            ConnectionResponse_Encode (greeting s)), 200), after_connect s)"
      using post fails True connect_id_len [OF assms(4)] by (intro roundTrip_reply0) simp_all
    then show ?thesis using True by (simp add: connect_attempt_def connect_answer_def retryableStatus_def)
  next
    case False
    have "roundTrip (quack_post quote base) cfg (connect_message platform cfg) s =
      ((Ok (\<lparr>hType = MsgError, hConnectionID = [], hQueryID = QueryIDAbsent\<rparr>,
            ErrorMessage_Encode (''Authentication failed for token '' @ cfToken cfg)), 200), s)"
      using post fails False by (intro roundTrip_reply0) (simp_all add: Server_errorReply_def go_len_def)
    then show ?thesis using False by (simp add: connect_attempt_def connect_answer_def retryableStatus_def)
  qed
qed

lemma retry_quack:
  assumes cfg: "cfEndpoint cfg = base" "go_len (cfToken cfg)" "go_len platform" and id: "svNextID s < 2 ^ 62"
    and fails: "svConnectFails s \<le> cfMaxRetries cfg - int attempt"
    and live: "\<And>s. \<not> ctx_err s" "\<And>d s. wait d s = (None, s)"
  shows "retry_loop ctx_err wait (cfMaxRetries cfg) (connect_attempt (quack_post quote base) cfg (connect_message platform cfg)) attempt d s
     = apfst Ok (connect_answer cfg (s\<lparr>svConnectFails := min (svConnectFails s) 0\<rparr>))"
  using id fails
proof (induction "nat (svConnectFails s)" arbitrary: s attempt d)
  case 0
  then have f: "svConnectFails s \<le> 0" by simp
  then show ?case
    using connect_attempt_quack(2) [OF cfg 0(2) f, of quote]
    by (subst retry_loop.simps) (cases "connect_answer cfg s", simp add: apfst_def map_prod_def min_absorb1)
next
  case (Suc k)
  then have f: "svConnectFails s > 0" by simp
  obtain e where e: "connect_attempt (quack_post quote base) cfg (connect_message platform cfg) s
      = ((True, Err e), s\<lparr>svConnectFails := svConnectFails s - 1\<rparr>)"
    using connect_attempt_quack(1) [OF cfg Suc.prems(1) f] by blast
  have "\<not> int attempt \<ge> cfMaxRetries cfg" using f Suc.prems(2) by linarith
  then have step: "retry_loop ctx_err wait (cfMaxRetries cfg) (connect_attempt (quack_post quote base) cfg (connect_message platform cfg)) attempt d s
    = retry_loop ctx_err wait (cfMaxRetries cfg) (connect_attempt (quack_post quote base) cfg (connect_message platform cfg)) (attempt + 1) (d * 2)
        (s\<lparr>svConnectFails := svConnectFails s - 1\<rparr>)"
    using e live by (subst retry_loop.simps) simp
  show ?case
    using Suc.hyps(1) [of "s\<lparr>svConnectFails := svConnectFails s - 1\<rparr>" "attempt + 1" "d * 2"] Suc.hyps(2) Suc.prems f
    unfolding step by (simp add: min_absorb2)
qed

lemma Connect_quack:
  assumes "withDefaults p cfg = Ok cfg'" and "cfEndpoint cfg = base" "go_len (cfToken cfg)" "go_len platform" and "svNextID s < 2 ^ 62"
    and "svConnectFails s \<le> cfMaxRetries cfg'" and "\<And>s. \<not> ctx_err s" and "\<And>d s. wait d s = (None, s)"
    and "svQuackVersion s = 1"
  shows "Connect p platform (quack_post quote base) ctx_err wait cfg s =
    (let s = s\<lparr>svConnectFails := min (svConnectFails s) 0\<rparr> in
     if cfToken cfg = svToken s
     then (Ok \<lparr>clCfg = cfg', clConnID = connect_id s, clServer = greeting s, clQid = 0, clClosed = False\<rparr>, after_connect s)
     else (serverError cfg' (ErrorMessage_Encode (''Authentication failed for token '' @ cfToken cfg)), s))"
proof -
  have cfg': "cfEndpoint cfg' = base" "cfToken cfg' = cfToken cfg"
    using assms(2) withDefaults_token [OF assms(1)] withDefaults_endpoint [OF assms(1)] by simp_all
  have "retry ctx_err wait cfg' (connect_attempt (quack_post quote base) cfg' (connect_message platform cfg')) s
      = apfst Ok (connect_answer cfg' (s\<lparr>svConnectFails := min (svConnectFails s) 0\<rparr>))"
    unfolding retry_def using assms cfg' by (intro retry_quack) simp_all
  then show ?thesis
    using assms(1,9) cfg'
    by (simp add: Connect_def Let_def connect_answer_def accept_connection_def msg_defs connect_id_def greeting_def wire_simps go_len_def
        quackVersionMin_def quackVersionMax_def)
qed


text \<open>C14: dialling the server works exactly with its token: while the failures the server is told to make
  stay within the retries, \<open>Dial\<close> with the server's token returns an open connection the server
  knows, with the codec of its version, and with any other token it returns the server's refusal,
  the credential it echoes redacted, and no connection is opened.\<close>

theorem Dial_quack:
  assumes "withDefaults p cfg = Ok cfg'" and "cfEndpoint cfg = base" and "length (cfToken cfg) < 2 ^ 62" and "go_len platform" and "svNextID s < 2 ^ 62"
    and "svConnectFails s \<le> cfMaxRetries cfg'" and "\<And>s. \<not> ctx_err s" and "\<And>d s. wait d s = (None, s)"
    and "svQuackVersion s = 1" and "Dial p platform (quack_post quote base) ctx_err wait cfg s = (r, s')"
  shows "if cfToken cfg = svToken s
    then \<exists>dc. r = Ok dc \<and> connected base (dcClient dc) s' \<and> dcCodec dc = \<lparr>cVersion = 1\<rparr> \<and> OpenConnections s' = OpenConnections s + 1
    else r = Err (DWire (WServerError 0 (redactToken (cfToken cfg) (''Authentication failed for token '' @ cfToken cfg))))
       \<and> svConns s' = svConns s \<and> OpenConnections s' = OpenConnections s"
proof -
  have cfg': "cfEndpoint cfg' = base" "cfToken cfg' = cfToken cfg"
    using assms(2) withDefaults_token [OF assms(1)] withDefaults_endpoint [OF assms(1)] by simp_all
  have tok: "go_len (cfToken cfg)" using assms(3) by (simp add: go_len_def)
  note c = Connect_quack [OF assms(1,2) tok assms(4-9), of quote]
  define s1 where "s1 = s\<lparr>svConnectFails := min (svConnectFails s) 0\<rparr>"
  show ?thesis
  proof (cases "cfToken cfg = svToken s")
    case True
    let ?c = "\<lparr>clCfg = cfg', clConnID = connect_id s1, clServer = greeting s1, clQid = 0, clClosed = False\<rparr>"
    have "csQuackVersion (greeting s1) = 1" using assms(9) by (simp add: greeting_def s1_def)
    then have "r = Ok \<lparr>dcClient = ?c, dcCodec = \<lparr>cVersion = 1\<rparr>\<rparr>" "s' = after_connect s1"
      using assms(10) c True by (simp_all add: Dial_def Let_def s1_def)
    moreover have "connected base ?c (after_connect s1)"
      using cfg' connect_id_len [of s1] assms(5) by (simp add: connected_def after_connect_def s1_def)
    moreover have "OpenConnections (after_connect s1) = OpenConnections s + 1"
      by (simp add: OpenConnections_def after_connect_def s1_def)
    ultimately show ?thesis using True by simp
  next
    case False
    have "DecodeErrorMessage (ErrorMessage_Encode (''Authentication failed for token '' @ cfToken cfg))
        = Ok (''Authentication failed for token '' @ cfToken cfg)"
      using assms(3) by (intro error_message_rd) (simp add: go_len_def)
    then have "Dial p platform (quack_post quote base) ctx_err wait cfg s
        = (Err (DWire (WServerError 0 (redactToken (cfToken cfg) (''Authentication failed for token '' @ cfToken cfg)))), s1)"
      using c False cfg' by (simp add: Dial_def Let_def serverError_def s1_def)
    then show ?thesis using False assms(10) by (simp add: OpenConnections_def s1_def)
  qed
qed

theorem Dial_quack_witness:
  "\<exists>dc. fst (Dial (\<lambda>_. Some ''http'') ''linux_amd64'' (quack_post (\<lambda>s. s) ''http://h:8888'') (\<lambda>s. False) (\<lambda>d s. (None, s))
     sample_config ((Server_New ''s3cret'')\<lparr>svConnectFails := 2\<rparr>)) = Ok dc"
proof -
  obtain r s' where d: "Dial (\<lambda>_. Some ''http'') ''linux_amd64'' (quack_post (\<lambda>s. s) ''http://h:8888'') (\<lambda>s. False) (\<lambda>d s. (None, s))
     sample_config ((Server_New ''s3cret'')\<lparr>svConnectFails := 2\<rparr>) = (r, s')"
    by fastforce
  have "\<exists>dc. r = Ok dc"
    using Dial_quack [OF sample_defaults _ _ _ _ _ _ _ _ d]
    by (auto simp: sample_config_def sample_resolved_def Server_New_def go_len_def)
  then show ?thesis unfolding d by simp
qed


end
