(* ===== verification/Decimal_Text.thy ===== *)
theory Decimal_Text
  imports Values
begin

text \<open>
  Decimal text: what the strings of \<open>strconv\<close> and of \<open>Decimal.String\<close> (\<^verbatim>\<open>src/codec/values.go\<close>)
  denote.  \<open>dec_val\<close> and \<open>literal_rat\<close> read a string back, independently of how it was printed.
\<close>

section \<open>Digits\<close>

definition digits :: "char set" where
  "digits = set ''0123456789''"

definition digit_val :: "char \<Rightarrow> nat" where
  "digit_val c = of_char c - 48"

text \<open>The number a string of digits denotes.\<close>

definition dec_val :: "string \<Rightarrow> nat" where
  "dec_val s = foldl (\<lambda>n c. 10 * n + digit_val c) 0 s"

lemma digit_chars_list: "list_all (\<lambda>d. digit_char d \<in> set ''0123456789'') [0..<10]"
  by code_simp

lemma digit_char_digit: "d < 10 \<Longrightarrow> digit_char d \<in> digits"
  using digit_chars_list by (simp add: list_all_iff digits_def del: upt_rec_numeral)

lemma digit_val_char: "d < 10 \<Longrightarrow> digit_val (digit_char d) = d"
  by (simp add: digit_val_def digit_char_def)

lemma nat_dec_digits: "set (nat_dec n) \<subseteq> digits"
proof (induction n rule: nat_dec.induct)
  case (1 n)
  then show ?case by (subst nat_dec.simps) (auto simp: digit_char_digit)
qed

lemma nat_dec_nonempty [simp]: "nat_dec n \<noteq> []"
  by (subst nat_dec.simps) simp

lemma dec_val_snoc: "dec_val (s @ [c]) = 10 * dec_val s + digit_val c"
  by (simp add: dec_val_def)

lemma dec_val_nat_dec: "dec_val (nat_dec n) = n"
proof (induction n rule: nat_dec.induct)
  case (1 n)
  show ?case
  proof (cases "n < 10")
    case True
    then show ?thesis by (subst nat_dec.simps) (simp add: dec_val_def digit_val_char)
  next
    case False
    then show ?thesis using 1 by (subst nat_dec.simps) (simp add: dec_val_snoc digit_val_char)
  qed
qed

lemma dec_val_append: "dec_val (s @ t) = dec_val s * 10 ^ length t + dec_val t"
proof (induction t rule: rev_induct)
  case (snoc c t)
  then show ?case by (simp add: dec_val_snoc append.assoc [symmetric] algebra_simps del: append_assoc)
qed (simp add: dec_val_def)

lemma dec_val_zeros: "dec_val (replicate k CHR ''0'') = 0"
  by (induction k) (simp_all add: dec_val_snoc replicate_append_same [symmetric] digit_val_def dec_val_def)

lemma dec_val_pad0: "dec_val (pad0 w s) = dec_val s"
  by (simp add: pad0_def dec_val_append dec_val_zeros)

lemma pad0_digits: "set s \<subseteq> digits \<Longrightarrow> set (pad0 w s) \<subseteq> digits"
  by (auto simp: pad0_def digits_def)

text \<open>The rational a decimal literal denotes: sign, integer part, point, fraction.\<close>

definition unsigned_rat :: "string \<Rightarrow> rat" where
  "unsigned_rat s =
     (let ip = takeWhile (\<lambda>c. c \<noteq> CHR ''.'') s; fp = drop 1 (dropWhile (\<lambda>c. c \<noteq> CHR ''.'') s)
      in of_nat (dec_val ip) + of_nat (dec_val fp) / 10 ^ length fp)"

definition literal_rat :: "string \<Rightarrow> rat" where
  "literal_rat s = (case s of c # t \<Rightarrow> if c = CHR ''-'' then - unsigned_rat t else unsigned_rat s | [] \<Rightarrow> 0)"

text \<open>The scaled digits of a decimal: no point for scale 0, at least one digit before the point else.\<close>

definition scaled :: "nat \<Rightarrow> nat \<Rightarrow> string" where
  "scaled scale n =
     (let s = nat_dec n;
          s = (if scale \<ge> length s then pad0 (scale + 1) s else s)
      in if scale > 0 then (let cut = length s - scale in take cut s @ ''.'' @ drop cut s) else s)"

lemma Decimal_String_scaled:
  "Decimal_String d = (if Decimal_BigInt d < 0 then ''-'' else []) @ scaled (unat (dScale d)) (nat \<bar>Decimal_BigInt d\<bar>)"
  by (simp add: Decimal_String_def scaled_def Let_def)

lemma scaled_parts:
  "\<exists>ip fp. scaled scale n = ip @ (if scale > 0 then ''.'' @ fp else []) \<and> ip \<noteq> [] \<and> set ip \<subseteq> digits \<and> set fp \<subseteq> digits
     \<and> length fp = scale \<and> dec_val ip * 10 ^ scale + dec_val fp = n"
proof -
  define s where "s = (if scale \<ge> length (nat_dec n) then pad0 (scale + 1) (nat_dec n) else nat_dec n)"
  have s: "set s \<subseteq> digits" "dec_val s = n" "scale < length s"
  proof -
    show "set s \<subseteq> digits" using nat_dec_digits [of n] pad0_digits [OF nat_dec_digits] by (simp add: s_def)
    show "dec_val s = n" by (simp add: s_def dec_val_pad0 dec_val_nat_dec)
    show "scale < length s" by (simp add: s_def pad0_def)
  qed
  define ip fp where "ip = take (length s - scale) s" and "fp = drop (length s - scale) s"
  have "s = ip @ fp" "length fp = scale" using s(3) by (simp_all add: ip_def fp_def)
  moreover have "ip \<noteq> []" using s(3) by (auto simp: ip_def)
  moreover have "scaled scale n = ip @ (if scale > 0 then ''.'' @ fp else [])"
  proof (cases "scale > 0")
    case True
    then show ?thesis by (simp add: scaled_def Let_def s_def [symmetric] ip_def fp_def)
  next
    case False
    then have "nat_dec n = s" by (simp add: s_def)
    moreover have "s \<noteq> []" using s(3) by auto
    ultimately show ?thesis using False by (simp add: scaled_def Let_def ip_def)
  qed
  ultimately show ?thesis
    using s by (intro exI [of _ ip] exI [of _ fp]) (auto simp: dec_val_append)
qed

lemma digit_not: "c \<in> digits \<Longrightarrow> c \<noteq> CHR ''.''" "c \<in> digits \<Longrightarrow> c \<noteq> CHR ''-''"
  by (auto simp: digits_def)

section \<open>Properties\<close>

text \<open>C33: a decimal prints exactly: for every width, scale and pair of halves, the string denotes the
  rational number that \<open>Rat\<close> returns, digit for digit, with no rounding and no loss of the sign.\<close>

theorem Decimal_String_denotes: "literal_rat (Decimal_String d) = Decimal_Rat d"
proof -
  define n scale where "n = nat \<bar>Decimal_BigInt d\<bar>" and "scale = unat (dScale d)"
  obtain ip fp where p: "scaled scale n = ip @ (if scale > 0 then ''.'' @ fp else [])" "ip \<noteq> []" "set ip \<subseteq> digits" "set fp \<subseteq> digits"
    "length fp = scale" "dec_val ip * 10 ^ scale + dec_val fp = n"
    using scaled_parts by blast
  have noneg: "hd (scaled scale n) \<noteq> CHR ''-''"
    using p(1,2,3) digit_not(2) [of "hd ip"] by (cases ip) auto
  have tw: "takeWhile (\<lambda>c. c \<noteq> CHR ''.'') (scaled scale n) = ip"
    "drop 1 (dropWhile (\<lambda>c. c \<noteq> CHR ''.'') (scaled scale n)) = (if scale > 0 then fp else [])"
    using p(1,3) digit_not(1) by (auto simp: takeWhile_append2 dropWhile_append2 takeWhile_eq_all_conv dropWhile_eq_Nil_conv subset_iff)
  have v: "(of_nat (dec_val ip) :: rat) + of_nat (dec_val fp) / 10 ^ length fp = of_nat n / 10 ^ scale"
  proof -
    have "(of_nat (dec_val ip) :: rat) * 10 ^ scale + of_nat (dec_val fp) = of_nat n"
      unfolding p(6) [symmetric] by simp
    then show ?thesis using p(5) by (simp add: field_simps)
  qed
  have u: "unsigned_rat (scaled scale n) = of_nat n / 10 ^ scale"
  proof (cases "scale > 0")
    case True
    then show ?thesis unfolding unsigned_rat_def Let_def tw using v by simp
  next
    case False
    then show ?thesis unfolding unsigned_rat_def Let_def tw using p(5,6) by (simp add: dec_val_def)
  qed
  have pos: "literal_rat (scaled scale n) = of_nat n / 10 ^ scale"
  proof (cases "scaled scale n")
    case Nil
    then show ?thesis using p(1,2) by simp
  next
    case (Cons c t)
    then show ?thesis using noneg u by (simp add: literal_rat_def)
  qed
  have neg: "literal_rat (''-'' @ scaled scale n) = - (of_nat n / 10 ^ scale)"
    using u by (simp add: literal_rat_def)
  have abs: "(of_nat n :: rat) = \<bar>of_int (Decimal_BigInt d)\<bar>"
    by (simp add: n_def)
  show ?thesis
    using pos neg abs by (simp add: Decimal_String_scaled Decimal_Rat_def n_def [symmetric] scale_def [symmetric])
qed

end
