(* ===== verification/Driver_Interpolate.thy ===== *)
theory Driver_Interpolate
  imports Decimal_Text
begin

text \<open>
  Client-side interpolation of arguments, \<^verbatim>\<open>src/driver/interpolate.go\<close>.  The scanner walks the
  query byte by byte; the model walks its suffix \<open>query[i:]\<close>, so an index into the query is an
  index into that suffix.  \<open>strconv.FormatFloat(_, 'g', -1, 64)\<close> and \<open>time.Time.Format\<close> are the
  parameters \<open>fmt_float\<close> and \<open>fmt_time\<close>.

  The lemmas read queries with a lexer written apart from the scanner (\<open>lexemes\<close>): interpolation
  replaces exactly the placeholders that lie outside quotes and comments, and what an argument
  becomes stays a token of its own.
\<close>

section \<open>Arguments\<close>

text \<open>The dynamic types \<open>literal\<close> distinguishes; \<open>AOther\<close> is any other.\<close>

datatype driver_value =
    ANil
  | ABool bool
  | AInt64 u64
  | AFloat64 u64
  | AString string
  | ABytes bytes
  | ATime go_time
  | ADecimal decimal
  | AOther

datatype arg_error = NamedParameter | TooFewArgs nat | ArgCount nat nat | CannotInterpolate

record named_value =
  nvName :: string
  nvValue :: driver_value

text \<open>IEEE 754 classes of a bit pattern: \<open>math.IsNaN\<close> and \<open>math.IsInf\<close>.\<close>

definition is_nan64 :: "u64 \<Rightarrow> bool" where
  "is_nan64 f \<longleftrightarrow> drop_bit 52 f AND 0x7ff = 0x7ff \<and> f AND 0xfffffffffffff \<noteq> 0"

definition is_inf64 :: "u64 \<Rightarrow> bool" where
  "is_inf64 f \<longleftrightarrow> drop_bit 52 f AND 0x7ff = 0x7ff \<and> f AND 0xfffffffffffff = 0"

text \<open>\<open>%02X\<close> of a byte.\<close>

definition hex_digit :: "nat \<Rightarrow> char" where
  "hex_digit d = ''0123456789ABCDEF'' ! d"

definition hex_byte :: "byte \<Rightarrow> string" where
  "hex_byte b = [hex_digit (unat b div 16), hex_digit (unat b mod 16)]"

text \<open>The quote character, and \<open>strings.ReplaceAll(x, "'", "''")\<close>.\<close>

definition quote_char :: char where
  "quote_char = CHR 0x27"

definition double_quotes :: "string \<Rightarrow> string" where
  "double_quotes x = concat (map (\<lambda>c. if c = quote_char then [c, c] else [c]) x)"

definition literal :: "(u64 \<Rightarrow> string) \<Rightarrow> (go_time \<Rightarrow> string) \<Rightarrow> driver_value \<Rightarrow> (arg_error, string) go" where
  "literal fmt_float fmt_time v =
     (case v of
        ANil \<Rightarrow> Ok ''NULL''
      | ABool b \<Rightarrow> Ok (if b then ''TRUE'' else ''FALSE'')
      | AInt64 x \<Rightarrow> Ok (int_dec (sint x))
      | AFloat64 x \<Rightarrow>
          Ok (if is_nan64 x then quote_char # ''nan'' @ quote_char # ''::DOUBLE''
              else if is_inf64 x \<and> \<not> bit x 63 then quote_char # ''infinity'' @ quote_char # ''::DOUBLE''
              else if is_inf64 x \<and> bit x 63 then quote_char # ''-infinity'' @ quote_char # ''::DOUBLE''
              else fmt_float x)
      | AString x \<Rightarrow> Ok (quote_char # double_quotes x @ [quote_char])
      | ABytes x \<Rightarrow> Ok (quote_char # concat (map (\<lambda>c. CHR 0x5C # ''x'' @ hex_byte c) x) @ quote_char # ''::BLOB'')
      | ATime x \<Rightarrow> Ok (''TIMESTAMP '' @ quote_char # fmt_time x @ [quote_char])
      | ADecimal x \<Rightarrow> Ok (Decimal_String x)
      | AOther \<Rightarrow> Err CannotInterpolate)"

section \<open>The scanner\<close>

function skip_from :: "string \<Rightarrow> nat \<Rightarrow> char \<Rightarrow> nat" where
  "skip_from s i quote =
     (if i < length s
      then if s ! i = quote
           then if i + 1 < length s \<and> s ! (i + 1) = quote then skip_from s (i + 2) quote else i + 1
           else skip_from s (i + 1) quote
      else length s)"
  by pat_completeness auto
termination
  by (relation "measure (\<lambda>(s, i, quote). length s - i)") auto

declare skip_from.simps [simp del]

definition skipQuoted :: "string \<Rightarrow> nat \<Rightarrow> char \<Rightarrow> nat" where
  "skipQuoted s start quote = skip_from s (start + 1) quote"

text \<open>\<open>strings.IndexByte\<close>, and \<open>strings.Index\<close> of the two bytes that close a comment.\<close>

fun index_byte :: "string \<Rightarrow> char \<Rightarrow> nat option" where
  "index_byte [] c = None"
| "index_byte (x # s) c = (if x = c then Some 0 else map_option Suc (index_byte s c))"

fun index_close :: "string \<Rightarrow> nat option" where
  "index_close (x # y # s) = (if x = CHR ''*'' \<and> y = CHR ''/'' then Some 0 else map_option Suc (index_close (y # s)))"
| "index_close s = None"

definition newline :: char where
  "newline = CHR 0x0A"

text \<open>
  The region the scanner copies in one go, if one starts here: its length.  \<open>s\<close> is the rest of
  the query, its first byte the current one.
\<close>

definition region :: "string \<Rightarrow> nat option" where
  "region s = (case s of
     [] \<Rightarrow> None
   | ch # rest \<Rightarrow>
       if ch = quote_char \<or> ch = CHR 0x22 then Some (skipQuoted s 0 ch)
       else if ch = CHR ''-'' \<and> rest \<noteq> [] \<and> hd rest = CHR ''-''
       then Some (case index_byte s newline of None \<Rightarrow> length s | Some e \<Rightarrow> e)
       else if ch = CHR ''/'' \<and> rest \<noteq> [] \<and> hd rest = CHR ''*''
       then Some (case index_close (drop 2 s) of None \<Rightarrow> length s | Some e \<Rightarrow> e + 4)
       else None)"

lemma skip_from_bounds: "i \<le> length s \<Longrightarrow> i \<le> skip_from s i q \<and> skip_from s i q \<le> length s"
proof (induction s i q rule: skip_from.induct)
  case (1 s i q)
  then show ?case by (subst (1 2) skip_from.simps) auto
qed

lemma index_byte_bounds: "index_byte s c = Some e \<Longrightarrow> e < length s"
  by (induction s arbitrary: e) (auto split: if_splits)

lemma index_close_bounds: "index_close s = Some e \<Longrightarrow> e + 2 \<le> length s"
  by (induction s arbitrary: e rule: index_close.induct) (auto split: if_splits)

lemma region_bounds:
  assumes "region s = Some n"
  shows "0 < n \<and> n \<le> length s"
proof -
  obtain ch rest where s: "s = ch # rest" using assms by (cases s) (simp_all add: region_def)
  consider (quote) "n = skipQuoted s 0 ch"
    | (line) "ch = CHR ''-''" "n = (case index_byte s newline of None \<Rightarrow> length s | Some e \<Rightarrow> e)"
    | (block) "rest \<noteq> []" "n = (case index_close (drop 2 s) of None \<Rightarrow> length s | Some e \<Rightarrow> e + 4)"
    using assms s by (auto simp: region_def split: if_splits)
  then show ?thesis
  proof cases
    case quote
    then show ?thesis using skip_from_bounds [of 1 s ch] s by (simp add: skipQuoted_def)
  next
    case line
    then show ?thesis using s index_byte_bounds [of s newline] by (auto simp: newline_def split: option.splits)
  next
    case block
    then show ?thesis using s index_close_bounds [of "drop 2 s"] by (auto split: option.splits)
  qed
qed

function interp_from ::
  "(driver_value \<Rightarrow> (arg_error, string) go) \<Rightarrow> driver_value list \<Rightarrow> string \<Rightarrow> nat \<Rightarrow> string \<Rightarrow> (arg_error, string) go" where
  "interp_from lit args [] arg out = (if arg \<noteq> length args then Err (ArgCount (length args) arg) else Ok out)"
| "interp_from lit args (ch # rest) arg out =
     (if ch = CHR ''?''
      then if arg \<ge> length args then Err (TooFewArgs (length args))
           else (case lit (args ! arg) of
                   Ok l \<Rightarrow> interp_from lit args rest (arg + 1) (out @ l)
                 | Err e \<Rightarrow> Err e
                 | Panic \<Rightarrow> Panic)
      else case region (ch # rest) of
             Some n \<Rightarrow> interp_from lit args (drop n (ch # rest)) arg (out @ take n (ch # rest))
           | None \<Rightarrow> interp_from lit args rest arg (out @ [ch]))"
  by pat_completeness auto
termination
  by (relation "measure (\<lambda>(lit, args, s, arg, out). length s)") (auto dest!: region_bounds)

definition interpolate ::
  "(u64 \<Rightarrow> string) \<Rightarrow> (go_time \<Rightarrow> string) \<Rightarrow> string \<Rightarrow> named_value list \<Rightarrow> (arg_error, string) go" where
  "interpolate fmt_float fmt_time query args =
     (if list_ex (\<lambda>a. nvName a \<noteq> []) args then Err NamedParameter
      else if args = [] \<and> CHR ''?'' \<notin> set query then Ok query
      else interp_from (literal fmt_float fmt_time) (map nvValue args) query 0 [])"

section \<open>Lexemes\<close>

text \<open>
  Queries as DuckDB's lexer sees them: placeholders, single bytes, quoted regions (a quote inside is
  doubled) and comments.  A region that is not closed runs to the end.
\<close>

datatype lexeme = Hole | Plain char | Quoted string | Comment string

fun quoted_tail :: "char \<Rightarrow> string \<Rightarrow> string \<times> string" where
  "quoted_tail q [] = ([], [])"
| "quoted_tail q [c] = ([c], [])"
| "quoted_tail q (c # d # s) =
     (if c \<noteq> q then apfst (Cons c) (quoted_tail q (d # s))
      else if d = q then apfst (\<lambda>w. c # d # w) (quoted_tail q s)
      else ([c], d # s))"

fun block_tail :: "string \<Rightarrow> string \<times> string" where
  "block_tail (c # d # s) = (if c = CHR ''*'' \<and> d = CHR ''/'' then ([c, d], s) else apfst (Cons c) (block_tail (d # s)))"
| "block_tail [] = ([], [])"
| "block_tail [c] = ([c], [])"

definition line_tail :: "string \<Rightarrow> string \<times> string" where
  "line_tail s = (takeWhile (\<lambda>c. c \<noteq> newline) s, dropWhile (\<lambda>c. c \<noteq> newline) s)"

definition is_quote :: "char \<Rightarrow> bool" where
  "is_quote c \<longleftrightarrow> c = quote_char \<or> c = CHR 0x22"

lemma quoted_tail_append: "fst (quoted_tail q s) @ snd (quoted_tail q s) = s"
  by (induction q s rule: quoted_tail.induct) simp_all

lemma block_tail_append: "fst (block_tail s) @ snd (block_tail s) = s"
  by (induction s rule: block_tail.induct) simp_all

lemma line_tail_append: "fst (line_tail s) @ snd (line_tail s) = s"
  by (simp add: line_tail_def)

lemma tail_shorter:
  "length (snd (quoted_tail q s)) \<le> length s" "length (snd (block_tail s)) \<le> length s" "length (snd (line_tail s)) \<le> length s"
  using quoted_tail_append [of q s] block_tail_append [of s] line_tail_append [of s]
  by (metis le_add2 length_append)+

lemma tail_shorter_tl: "length (snd (block_tail (tl s))) \<le> length s"
  using tail_shorter(2) [of "tl s"] by simp

function lexemes :: "string \<Rightarrow> lexeme list" where
  "lexemes [] = []"
| "lexemes (c # s) =
     (if c = CHR ''?'' then Hole # lexemes s
      else if is_quote c then Quoted (c # fst (quoted_tail c s)) # lexemes (snd (quoted_tail c s))
      else if c = CHR ''-'' \<and> s \<noteq> [] \<and> hd s = CHR ''-'' then Comment (c # fst (line_tail s)) # lexemes (snd (line_tail s))
      else if c = CHR ''/'' \<and> s \<noteq> [] \<and> hd s = CHR ''*''
      then Comment (c # hd s # fst (block_tail (tl s))) # lexemes (snd (block_tail (tl s)))
      else Plain c # lexemes s)"
  by pat_completeness auto
termination
  by (relation "measure length") (auto simp: less_Suc_eq_le tail_shorter tail_shorter_tl)

section \<open>The scanner cuts the query into lexemes\<close>

lemma skip_from_tail:
  "i \<le> length s \<Longrightarrow> skip_from s i q = i + length (fst (quoted_tail q (drop i s)))"
proof (induction s i q rule: skip_from.induct)
  case (1 s i q)
  show ?case
  proof (cases "i < length s")
    case True
    then have d: "drop i s = s ! i # drop (Suc i) s" by (simp add: Cons_nth_drop_Suc)
    show ?thesis
    proof (cases "i + 1 < length s")
      case more: True
      then have d': "drop (Suc i) s = s ! Suc i # drop (Suc (Suc i)) s" by (simp add: Cons_nth_drop_Suc)
      then show ?thesis
        using True more 1 by (subst skip_from.simps) (auto simp: d d' simp del: drop_Suc_Cons)
    next
      case False
      then have "drop (Suc i) s = []" "Suc i = length s" using True by simp_all
      then show ?thesis
        using True by (subst skip_from.simps) (simp add: d skip_from.simps [of s "length s"])
    qed
  next
    case False
    then show ?thesis using 1(3) by (subst skip_from.simps) simp
  qed
qed

lemma skipQuoted_tail: "skipQuoted (c # s) 0 c = Suc (length (fst (quoted_tail c s)))"
  using skip_from_tail [of 1 "c # s" c] by (simp add: skipQuoted_def)

lemma index_byte_tail:
  "(case index_byte s newline of None \<Rightarrow> length s | Some e \<Rightarrow> e) = length (fst (line_tail s))"
  by (induction s) (auto simp: line_tail_def split: option.splits)

lemma index_close_tail:
  "(case index_close s of None \<Rightarrow> length s | Some e \<Rightarrow> e + 2) = length (fst (block_tail s))"
  by (induction s rule: index_close.induct) (auto split: option.splits)

lemma region_tail:
  "c \<noteq> CHR ''?'' \<Longrightarrow> region (c # s) =
    (if is_quote c then Some (Suc (length (fst (quoted_tail c s))))
     else if c = CHR ''-'' \<and> s \<noteq> [] \<and> hd s = CHR ''-'' then Some (Suc (length (fst (line_tail s))))
     else if c = CHR ''/'' \<and> s \<noteq> [] \<and> hd s = CHR ''*'' then Some (2 + length (fst (block_tail (tl s))))
     else None)"
  using index_byte_tail [of "c # s"] index_close_tail [of "tl s"]
  by (cases s) (auto simp: region_def is_quote_def skipQuoted_tail line_tail_def newline_def split: option.splits)


lemma lexemes_region:
  assumes "c \<noteq> CHR ''?''" "region (c # s) = Some n"
  shows "\<exists>p. (p = Quoted (take n (c # s)) \<or> p = Comment (take n (c # s))) \<and> lexemes (c # s) = p # lexemes (drop n (c # s))"
proof -
  have q: "take (length (fst (quoted_tail c s))) s = fst (quoted_tail c s)" "drop (length (fst (quoted_tail c s))) s = snd (quoted_tail c s)"
    using quoted_tail_append [of c s] by (metis append_eq_conv_conj)+
  have l: "take (length (fst (line_tail s))) s = fst (line_tail s)" "drop (length (fst (line_tail s))) s = snd (line_tail s)"
    using line_tail_append [of s] by (metis append_eq_conv_conj)+
  have b: "take (length (fst (block_tail (tl s)))) (tl s) = fst (block_tail (tl s))" "drop (length (fst (block_tail (tl s)))) (tl s) = snd (block_tail (tl s))"
    using block_tail_append [of "tl s"] by (metis append_eq_conv_conj)+
  show ?thesis
    using assms q l b by (cases s) (auto simp: region_tail split: if_splits)
qed

lemma lexemes_no_region:
  "c \<noteq> CHR ''?'' \<Longrightarrow> region (c # s) = None \<Longrightarrow> lexemes (c # s) = Plain c # lexemes s"
  by (auto simp: region_tail split: if_splits)

text \<open>The text with the placeholders filled in from a list of literals.\<close>

primrec lexeme_text :: "lexeme \<Rightarrow> string" where
  "lexeme_text Hole = ''?''"
| "lexeme_text (Plain c) = [c]"
| "lexeme_text (Quoted w) = w"
| "lexeme_text (Comment w) = w"

fun fill :: "string list \<Rightarrow> lexeme list \<Rightarrow> string" where
  "fill ls [] = []"
| "fill ls (p # ps) = (if p = Hole then hd ls @ fill (tl ls) ps else lexeme_text p @ fill ls ps)"

definition holes :: "string \<Rightarrow> nat" where
  "holes s = length (filter (\<lambda>p. p = Hole) (lexemes s))"

lemma interp_from_fill:
  assumes "arg \<le> length args"
  shows "interp_from lit args s arg out =
    (case go_map lit (take (holes s) (drop arg args)) of
       Ok ls \<Rightarrow> if length args < arg + holes s then Err (TooFewArgs (length args))
                else if arg + holes s < length args then Err (ArgCount (length args) (arg + holes s))
                else Ok (out @ fill ls (lexemes s))
     | Err e \<Rightarrow> Err e
     | Panic \<Rightarrow> Panic)"
  using assms
proof (induction lit args s arg out rule: interp_from.induct)
  case (1 lit args arg out)
  then show ?case by (simp add: holes_def)
next
  case (2 lit args ch rest arg out)
  show ?case
  proof (cases "ch = CHR ''?''")
    case True
    then have h: "holes (ch # rest) = Suc (holes rest)" by (simp add: holes_def)
    show ?thesis
    proof (cases "arg < length args")
      case arg: True
      then have "drop arg args = args ! arg # drop (Suc arg) args" by (simp add: Cons_nth_drop_Suc)
      then show ?thesis
        using True arg h 2(1) by (cases "lit (args ! arg)") (auto simp: split: go.split)
    next
      case False
      then show ?thesis using True h by simp
    qed
  next
    case False
    show ?thesis
    proof (cases "region (ch # rest)")
      case None
      have l: "lexemes (ch # rest) = Plain ch # lexemes rest" using False None by (rule lexemes_no_region)
      then have "holes (ch # rest) = holes rest" by (simp add: holes_def)
      then show ?thesis
        using False None l 2(2) [OF False None 2(4)] by (simp del: lexemes.simps(2) split: go.split)
    next
      case (Some n)
      obtain p where p: "p = Quoted (take n (ch # rest)) \<or> p = Comment (take n (ch # rest))"
        "lexemes (ch # rest) = p # lexemes (drop n (ch # rest))"
        using lexemes_region [OF False Some] by blast
      then have "holes (ch # rest) = holes (drop n (ch # rest))" by (auto simp: holes_def)
      then show ?thesis
        using False Some p 2(3) [OF False Some 2(4)] by (auto simp del: lexemes.simps(2) split: go.split)
    qed
  qed
qed


section \<open>Arguments stay tokens of their own\<close>

definition first :: "string \<Rightarrow> char option" where
  "first s = (case s of [] \<Rightarrow> None | c # _ \<Rightarrow> Some c)"

lemma first_simps [simp]: "first [] = None" "first (c # s) = Some c" "first s = None \<longleftrightarrow> s = []"
  by (simp_all add: first_def split: list.split)

lemma first_append: "s \<noteq> [] \<Longrightarrow> first (s @ t) = first s"
  by (cases s) simp_all

lemma first_cong: "first t = first t' \<Longrightarrow> t = [] \<and> t' = [] \<or> (\<exists>c s s'. t = c # s \<and> t' = c # s')"
  by (cases t; cases t') auto

lemma quoted_tail_nonempty: "fst (quoted_tail q (c # s)) \<noteq> []"
  by (cases s) auto

lemma quoted_tail_ext:
  "fst (quoted_tail q (w @ t)) = w \<Longrightarrow> first t = first t' \<Longrightarrow> fst (quoted_tail q (w @ t')) = w"
proof (induction q w rule: quoted_tail.induct)
  case (1 q)
  then show ?case using first_cong [of t t'] quoted_tail_nonempty by fastforce
next
  case (2 q c)
  then show ?case using first_cong [of t t'] quoted_tail_nonempty by (fastforce split: if_splits)
next
  case (3 q c d s)
  then show ?case by (auto split: if_splits)
qed

lemma block_tail_ext:
  "fst (block_tail (w @ t)) = w \<Longrightarrow> first t = first t' \<Longrightarrow> fst (block_tail (w @ t')) = w"
proof (induction w rule: block_tail.induct)
  case (1 c d s)
  then show ?case by (auto split: if_splits)
next
  case 2
  have "fst (block_tail (c # s)) \<noteq> []" for c s by (cases s) auto
  then show ?case using 2 first_cong [of t t'] by fastforce
next
  case (3 c)
  have "fst (block_tail (d # s)) \<noteq> []" for d s by (cases s) auto
  then show ?case using 3 first_cong [of t t'] by (fastforce split: if_splits)
qed

lemma line_tail_ext:
  "fst (line_tail (w @ t)) = w \<Longrightarrow> first t = first t' \<Longrightarrow> fst (line_tail (w @ t')) = w"
proof (induction w)
  case Nil
  then show ?case using first_cong [of t t'] by (auto simp: line_tail_def split: if_splits)
qed (auto simp: line_tail_def split: if_splits)

lemma lexemes_cases:
  obtains (hole) "c = CHR ''?''" "lexemes (c # s) = Hole # lexemes s"
  | (quoted) w r where "is_quote c" "c \<noteq> CHR ''?''" "quoted_tail c s = (w, r)" "s = w @ r" "lexemes (c # s) = Quoted (c # w) # lexemes r"
  | (line) w r where "c = CHR ''-''" "line_tail s = (w, r)" "s = w @ r" "first s = Some (CHR ''-'')" "w \<noteq> []"
      "lexemes (c # s) = Comment (c # w) # lexemes r"
  | (block) s' w r where "c = CHR ''/''" "s = CHR ''*'' # s'" "block_tail s' = (w, r)" "s' = w @ r"
      "lexemes (c # s) = Comment (c # CHR ''*'' # w) # lexemes r"
  | (plain) "c \<noteq> CHR ''?''" "\<not> is_quote c" "\<not> (c = CHR ''-'' \<and> first s = Some (CHR ''-''))"
      "\<not> (c = CHR ''/'' \<and> first s = Some (CHR ''*''))" "lexemes (c # s) = Plain c # lexemes s"
proof -
  have special: "\<not> is_quote (CHR ''-'')" "\<not> is_quote (CHR ''/'')" "\<not> is_quote (CHR ''?'')" by (simp_all add: is_quote_def quote_char_def)
  consider "c = CHR ''?''" | "is_quote c" | "c = CHR ''-''" "first s = Some (CHR ''-'')"
    | "c = CHR ''/''" "first s = Some (CHR ''*'')"
    | "c \<noteq> CHR ''?''" "\<not> is_quote c" "\<not> (c = CHR ''-'' \<and> first s = Some (CHR ''-''))" "\<not> (c = CHR ''/'' \<and> first s = Some (CHR ''*''))"
    by blast
  then show thesis
  proof cases
    case 1
    then show ?thesis by (intro hole) simp_all
  next
    case 2
    then have "c \<noteq> CHR ''?''" using special by auto
    moreover obtain w r where "quoted_tail c s = (w, r)" by fastforce
    ultimately show ?thesis using 2 quoted_tail_append [of c s] by (intro quoted [of w r]) auto
  next
    case 3
    then obtain s' where s: "s = CHR ''-'' # s'" by (cases s) auto
    moreover obtain w r where l: "line_tail s = (w, r)" by fastforce
    moreover have "w \<noteq> []" using s l by (auto simp: line_tail_def newline_def)
    ultimately show ?thesis using 3 line_tail_append [of s] special by (intro line [of w r]) auto
  next
    case 4
    then obtain s' where s: "s = CHR ''*'' # s'" by (cases s) auto
    moreover obtain w r where b: "block_tail s' = (w, r)" by fastforce
    ultimately show ?thesis using 4 block_tail_append [of s'] special by (intro block [of s' w r]) auto
  next
    case 5
    then have "lexemes (c # s) = Plain c # lexemes s" by (cases s) auto
    then show ?thesis using 5 by (intro plain) auto
  qed
qed

lemma lexemes_ConsE:
  assumes "lexemes s = p # ps"
  obtains r where "s = lexeme_text p @ r" "lexemes r = ps" "lexeme_text p \<noteq> []"
proof (cases s)
  case (Cons c s')
  show ?thesis
  proof (cases rule: lexemes_cases [of c s'])
    case hole
    then show ?thesis using assms Cons by (intro that [of s']) auto
  next
    case (quoted w r)
    then show ?thesis using assms Cons by (intro that [of r]) auto
  next
    case (line w r)
    then show ?thesis using assms Cons by (intro that [of r]) auto
  next
    case (block s'' w r)
    then show ?thesis using assms Cons by (intro that [of r]) auto
  next
    case plain
    then show ?thesis using assms Cons by (intro that [of s']) auto
  qed
qed (use assms in simp)

lemma lexemes_quoted: "is_quote c \<Longrightarrow> quoted_tail c s = (w, r) \<Longrightarrow> lexemes (c # s) = Quoted (c # w) # lexemes r"
  by (auto simp: is_quote_def quote_char_def)

lemma lexemes_line: "first s = Some (CHR ''-'') \<Longrightarrow> line_tail s = (w, r) \<Longrightarrow> lexemes (CHR ''-'' # s) = Comment (CHR ''-'' # w) # lexemes r"
  by (cases s) (auto simp: is_quote_def quote_char_def)

lemma lexemes_block: "block_tail s = (w, r) \<Longrightarrow> lexemes (CHR ''/'' # CHR ''*'' # s) = Comment (CHR ''/'' # CHR ''*'' # w) # lexemes r"
  by (auto simp: is_quote_def quote_char_def)

lemma lexemes_plain:
  "c \<noteq> CHR ''?'' \<Longrightarrow> \<not> is_quote c \<Longrightarrow> \<not> (c = CHR ''-'' \<and> first s = Some (CHR ''-'')) \<Longrightarrow>
    \<not> (c = CHR ''/'' \<and> first s = Some (CHR ''*'')) \<Longrightarrow> lexemes (c # s) = Plain c # lexemes s"
  by (cases s) auto

declare lexemes.simps(2) [simp del]

text \<open>Where a lexeme ends depends on nothing but the first byte after it.\<close>

lemma lexemes_ext:
  assumes "lexemes s = p # lexemes r" "s = lexeme_text p @ r" "first r = first r'"
  shows "lexemes (lexeme_text p @ r') = p # lexemes r'"
proof (cases s)
  case (Cons c t)
  show ?thesis
  proof (cases rule: lexemes_cases [of c t])
    case hole
    then have "p = Hole" using assms(1) Cons by simp
    then show ?thesis by (simp add: lexemes.simps(2))
  next
    case (quoted w r1)
    then have p: "p = Quoted (c # w)" using assms(1) Cons by simp
    then have "t = w @ r" using assms(2) Cons by simp
    then have "fst (quoted_tail c (w @ r')) = w" using quoted quoted_tail_ext [of c w r r'] assms(3) by simp
    then have "quoted_tail c (w @ r') = (w, r')" using quoted_tail_append [of c "w @ r'"] by (metis same_append_eq prod.collapse)
    then show ?thesis using p quoted(1) by (simp add: lexemes_quoted)
  next
    case (line w r1)
    then have p: "p = Comment (c # w)" using assms(1) Cons by simp
    then have "t = w @ r" using assms(2) Cons by simp
    then have "fst (line_tail (w @ r')) = w" using line line_tail_ext [of w r r'] assms(3) by simp
    then have "line_tail (w @ r') = (w, r')" using line_tail_append [of "w @ r'"] by (metis same_append_eq prod.collapse)
    moreover have "first (w @ r') = Some (CHR ''-'')" using line \<open>t = w @ r\<close> by (simp add: first_append)
    ultimately show ?thesis using p line(1) by (simp add: lexemes_line)
  next
    case (block t' w r1)
    then have p: "p = Comment (c # CHR ''*'' # w)" using assms(1) Cons by simp
    then have "t' = w @ r" using assms(2) Cons block by simp
    then have "fst (block_tail (w @ r')) = w" using block block_tail_ext [of w r r'] assms(3) by simp
    then have "block_tail (w @ r') = (w, r')" using block_tail_append [of "w @ r'"] by (metis same_append_eq prod.collapse)
    then show ?thesis using p block(1) by (simp add: lexemes_block)
  next
    case plain
    then have "p = Plain c" "t = r" using assms Cons by simp_all
    then show ?thesis using plain assms(3) by (simp add: lexemes_plain)
  qed
qed (use assms in simp)


lemma lexemes_Nil [simp]: "lexemes s = [] \<longleftrightarrow> s = []"
proof (cases s)
  case (Cons c t)
  show ?thesis by (cases rule: lexemes_cases [of c t]) (use Cons in auto)
qed simp

text \<open>A literal that stands for itself: what follows it does not change how it reads.\<close>

definition token :: "string \<Rightarrow> bool" where
  "token l \<longleftrightarrow> l \<noteq> [] \<and> hd l \<noteq> CHR ''*'' \<and> Hole \<notin> set (lexemes l)
     \<and> (\<forall>t. first t \<noteq> Some quote_char \<longrightarrow> lexemes (l @ t) = lexemes l @ lexemes t)"

text \<open>Placeholders stand alone: after a byte other than a dash, before the end or a byte.\<close>

fun separated :: "lexeme list \<Rightarrow> bool" where
  "separated (p # q # ps) \<longleftrightarrow>
     (q = Hole \<longrightarrow> (\<exists>c. p = Plain c \<and> c \<noteq> CHR ''-''))
     \<and> (p = Hole \<longrightarrow> (\<exists>c. q = Plain c))
     \<and> separated (q # ps)"
| "separated ps = True"

fun fill_lexemes :: "string list \<Rightarrow> lexeme list \<Rightarrow> lexeme list" where
  "fill_lexemes ls [] = []"
| "fill_lexemes ls (p # ps) = (if p = Hole then lexemes (hd ls) @ fill_lexemes (tl ls) ps else p # fill_lexemes ls ps)"

lemma lexemes_PlainD:
  assumes "lexemes s = Plain c # ps"
  shows "\<exists>s'. s = c # s' \<and> lexemes s' = ps \<and> c \<noteq> CHR ''?'' \<and> \<not> is_quote c"
proof (cases s)
  case (Cons d s')
  show ?thesis by (cases rule: lexemes_cases [of d s']) (use assms Cons in auto)
qed (use assms in simp)

text \<open>
  The prefix \<open>ps\<close> of a query's lexemes reads the same whatever replaces the rest of the query, if the
  rest goes on with the same byte.
\<close>

lemma fill_tokens_before:
  assumes "s = concat (map lexeme_text ps) @ r" "lexemes s = ps @ lexemes r" "first t = first r" "first t \<noteq> Some quote_char"
    "separated ps" "list_all token ls" "length ls = length (filter (\<lambda>p. p = Hole) ps)"
  shows "lexemes (fill ls ps @ t) = fill_lexemes ls ps @ lexemes t \<and> (ps \<noteq> [] \<and> hd ps \<noteq> Hole \<longrightarrow> first (fill ls ps @ t) = first s)"
  using assms(1,2,5-)
proof (induction ps arbitrary: s ls)
  case (Cons p ps)
  obtain r' where r': "s = lexeme_text p @ r'" "lexemes r' = ps @ lexemes r" "lexeme_text p \<noteq> []"
    using Cons.prems(2) lexemes_ConsE [of s p "ps @ lexemes r"] by auto
  then have s': "r' = concat (map lexeme_text ps) @ r" using Cons.prems(1) by simp
  have sep: "separated ps" using Cons.prems(3) by (cases ps) auto
  show ?case
  proof (cases "p = Hole")
    case True
    then obtain l ls' where ls: "ls = l # ls'" using Cons.prems(5) by (cases ls) auto
    have IH: "lexemes (fill ls' ps @ t) = fill_lexemes ls' ps @ lexemes t" "ps \<noteq> [] \<and> hd ps \<noteq> Hole \<longrightarrow> first (fill ls' ps @ t) = first r'"
      using Cons.IH [OF s' r'(2) sep, of ls'] Cons.prems(4,5) True ls by auto
    have "first (fill ls' ps @ t) \<noteq> Some quote_char"
    proof (cases ps)
      case (Cons q ps')
      then obtain c where "q = Plain c" using Cons.prems(3) True by auto
      then have "first r' = Some c" "\<not> is_quote c" using lexemes_PlainD [of r' c "ps' @ lexemes r"] r'(2) Cons by auto
      then show ?thesis using IH(2) Cons \<open>q = Plain c\<close> by (auto simp: is_quote_def)
    qed (use assms(4) in simp)
    then show ?thesis
      using True ls IH(1) Cons.prems(4) by (simp add: token_def)
  next
    case False
    then have IH: "lexemes (fill ls ps @ t) = fill_lexemes ls ps @ lexemes t" "ps \<noteq> [] \<and> hd ps \<noteq> Hole \<longrightarrow> first (fill ls ps @ t) = first r'"
      using Cons.IH [OF s' r'(2) sep, of ls] Cons.prems(4,5) by auto
    have "lexemes (lexeme_text p @ fill ls ps @ t) = p # lexemes (fill ls ps @ t)"
    proof (cases "ps \<noteq> [] \<and> hd ps = Hole")
      case True
      then obtain c where c: "p = Plain c" "c \<noteq> CHR ''-''" using Cons.prems(3) by (cases ps) auto
      have "ls \<noteq> []" using True Cons.prems(5) False by (cases ps) auto
      then obtain l ls' where "ls = l # ls'" by (cases ls) auto
      then have "first (fill ls ps @ t) = first l" "hd l \<noteq> CHR ''*''" "l \<noteq> []"
        using True Cons.prems(4) by (cases ps; auto simp: token_def first_append)+
      then have "first (fill ls ps @ t) \<noteq> Some (CHR ''*'')" by (cases l) auto
      then show ?thesis using c lexemes_PlainD [of s c "ps @ lexemes r"] Cons.prems(2) by (auto intro!: lexemes_plain)
    next
      case False
      have "first r' = first (fill ls ps @ t)"
      proof (cases ps)
        case Nil
        then show ?thesis using s' assms(3) by simp
      qed (use False IH(2) in auto)
      then show ?thesis using lexemes_ext [of s p r' "fill ls ps @ t"] r' Cons.prems(2) by simp
    qed
    then show ?thesis using False IH(1) r' by (simp add: first_append)
  qed
qed simp

lemma lexemes_text: "concat (map lexeme_text (lexemes s)) = s"
proof (induction "lexemes s" arbitrary: s)
  case (Cons p ps)
  obtain r where "s = lexeme_text p @ r" "lexemes r = ps" using lexemes_ConsE [OF Cons(2) [symmetric]] by blast
  then show ?case using Cons by (metis concat.simps(2) list.simps(9))
next
  case Nil
  then have "lexemes s = []" by simp
  then show ?case by simp
qed

lemma lexemes_appendE:
  assumes "lexemes s = ps @ qs"
  shows "\<exists>r. s = concat (map lexeme_text ps) @ r \<and> lexemes r = qs"
  using assms
proof (induction ps arbitrary: s)
  case (Cons p ps)
  obtain r where "s = lexeme_text p @ r" "lexemes r = ps @ qs" using Cons.prems lexemes_ConsE [of s p "ps @ qs"] by auto
  then show ?case using Cons.IH [of r] by auto
qed simp

lemma fill_tokens:
  assumes "lexemes s = ps" "separated ps" "list_all token ls" "length ls = length (filter (\<lambda>p. p = Hole) ps)"
  shows "lexemes (fill ls ps) = fill_lexemes ls ps"
  using fill_tokens_before [of s ps "[]" "[]" ls] assms lexemes_text [of s] by simp

lemma fill_append:
  "length ls = length (filter (\<lambda>p. p = Hole) ps) \<Longrightarrow> fill (ls @ ls') (ps @ qs) = fill ls ps @ fill ls' qs"
proof (induction ps arbitrary: ls)
  case (Cons p ps)
  show ?case
  proof (cases "p = Hole")
    case True
    then show ?thesis using Cons by (cases ls) auto
  next
    case False
    then show ?thesis using Cons.IH [of ls] Cons.prems by simp
  qed
qed simp

section \<open>Every literal is a token\<close>

definition calm :: "char \<Rightarrow> bool" where
  "calm c \<longleftrightarrow> c \<noteq> CHR ''?'' \<and> \<not> is_quote c \<and> c \<noteq> CHR ''-'' \<and> c \<noteq> CHR ''/'' \<and> c \<noteq> CHR ''*''"

lemma lexemes_calm: "list_all calm l \<Longrightarrow> lexemes (l @ t) = map Plain l @ lexemes t"
  by (induction l) (auto simp: calm_def lexemes_plain)

lemma lexemes_calm': "list_all calm l \<Longrightarrow> lexemes l = map Plain l"
  using lexemes_calm [of l "[]"] by simp

lemma token_calm:
  assumes "list_all calm l" "l \<noteq> []"
  shows "token l"
proof -
  have "hd l \<noteq> CHR ''*''" using assms by (cases l) (auto simp: calm_def)
  then show ?thesis using assms(2) lexemes_calm [OF assms(1)] lexemes_calm' [OF assms(1)] by (auto simp: token_def)
qed

lemma token_minus:
  assumes "list_all calm l" "l \<noteq> []"
  shows "token (CHR ''-'' # l)"
proof -
  have "first (l @ t) \<noteq> Some (CHR ''-'')" for t using assms by (cases l) (auto simp: calm_def)
  then have "lexemes (CHR ''-'' # l @ t) = Plain (CHR ''-'') # map Plain l @ lexemes t" for t
    using lexemes_calm [OF assms(1)] by (simp add: lexemes_plain is_quote_def quote_char_def)
  from this this [of "[]"] show ?thesis by (auto simp: token_def)
qed

lemma token_prefix:
  assumes "list_all calm l" "token m"
  shows "token (l @ m)"
proof -
  have "hd (l @ m) \<noteq> CHR ''*''" using assms by (cases l) (auto simp: calm_def token_def)
  then show ?thesis using assms(2) lexemes_calm [OF assms(1)] by (auto simp: token_def)
qed

lemma quoted_doubled:
  "first t \<noteq> Some quote_char \<Longrightarrow> quoted_tail quote_char (double_quotes x @ quote_char # t) = (double_quotes x @ [quote_char], t)"
proof (induction x)
  case Nil
  then show ?case by (cases t) (auto simp: double_quotes_def)
next
  case (Cons c x)
  have ne: "\<exists>d s. double_quotes x @ quote_char # t = d # s" by (cases "double_quotes x") auto
  then show ?case
    using Cons by (auto simp: double_quotes_def)
qed

lemma double_quotes_none: "quote_char \<notin> set w \<Longrightarrow> double_quotes w = w"
  by (induction w) (auto simp: double_quotes_def)

lemma token_quoted:
  assumes "list_all calm suf" 
  shows "token (quote_char # double_quotes x @ quote_char # suf)"
proof -
  have q: "is_quote quote_char" "quote_char \<noteq> CHR ''*''" "quote_char \<noteq> CHR ''?''" by (simp_all add: is_quote_def quote_char_def)
  have "lexemes (quote_char # double_quotes x @ quote_char # suf @ t)
      = Quoted (quote_char # double_quotes x @ [quote_char]) # map Plain suf @ lexemes t" if "first t \<noteq> Some quote_char" for t
  proof -
    have "first (suf @ t) \<noteq> Some quote_char" using that assms q by (cases suf) (auto simp: calm_def)
    then have "quoted_tail quote_char (double_quotes x @ quote_char # suf @ t) = (double_quotes x @ [quote_char], suf @ t)"
      by (rule quoted_doubled)
    then show ?thesis using q(1) lexemes_calm [OF assms] by (simp add: lexemes_quoted)
  qed
  from this this [of "[]"] show ?thesis using q(2) by (auto simp: token_def)
qed

lemma digits_calm: "c \<in> digits \<Longrightarrow> calm c"
  by (auto simp: digits_def calm_def is_quote_def quote_char_def)

lemma nat_dec_calm: "list_all calm (nat_dec n)"
  using nat_dec_digits [of n] digits_calm by (auto simp: list_all_iff)

lemma token_int_dec: "token (int_dec i)"
  using token_calm [OF nat_dec_calm] token_minus [OF nat_dec_calm] by (simp add: int_dec_def)

lemma token_decimal: "token (Decimal_String d)"
proof -
  obtain ip fp where p: "scaled (unat (dScale d)) (nat \<bar>Decimal_BigInt d\<bar>) = ip @ (if unat (dScale d) > 0 then ''.'' @ fp else [])"
    "ip \<noteq> []" "set ip \<subseteq> digits" "set fp \<subseteq> digits"
    using scaled_parts by blast
  have "list_all calm (scaled (unat (dScale d)) (nat \<bar>Decimal_BigInt d\<bar>))" "scaled (unat (dScale d)) (nat \<bar>Decimal_BigInt d\<bar>) \<noteq> []"
    using p digits_calm by (auto simp: list_all_iff calm_def is_quote_def quote_char_def)
  then show ?thesis by (auto simp: Decimal_String_scaled intro: token_calm token_minus)
qed

lemma hex_digits_list: "list_all (\<lambda>d. hex_digit d \<noteq> quote_char) [0..<16]"
  by code_simp

lemma hex_byte_plain: "quote_char \<notin> set (hex_byte b)"
proof -
  have d: "d < 16 \<Longrightarrow> hex_digit d \<noteq> quote_char" for d
    using hex_digits_list by (simp add: list_all_iff del: upt_rec_numeral)
  have "unat b < 256" using unsigned_less [of b, where 'a = nat] by simp
  then have "unat b div 16 < 16" by simp
  then show ?thesis using d [of "unat b div 16"] d [of "unat b mod 16"] by (simp add: hex_byte_def)
qed

lemma calm_words:
  "list_all calm ''::DOUBLE''" "list_all calm ''::BLOB''" "list_all calm ''TIMESTAMP ''"
  "list_all calm ''NULL''" "list_all calm ''TRUE''" "list_all calm ''FALSE''"
  by (simp_all add: calm_def is_quote_def quote_char_def)

lemma token_plain_quoted: "quote_char \<notin> set w \<Longrightarrow> list_all calm s \<Longrightarrow> token (quote_char # w @ quote_char # s)"
  using token_quoted [of s w] by (simp add: double_quotes_none)

lemma literal_token:
  assumes "literal fmt_float fmt_time v = Ok l" "\<And>f. token (fmt_float f)" "\<And>t. quote_char \<notin> set (fmt_time t)"
  shows "token l"
proof (cases v)
  case ANil
  then show ?thesis using assms(1) token_calm [OF calm_words(4)] by (auto simp: literal_def)
next
  case (ABool b)
  then show ?thesis using assms(1) token_calm [OF calm_words(5)] token_calm [OF calm_words(6)] by (auto simp: literal_def)
next
  case (AInt64 x)
  then show ?thesis using assms(1) token_int_dec by (auto simp: literal_def)
next
  case (AFloat64 x)
  have "quote_char \<notin> set ''nan''" "quote_char \<notin> set ''infinity''" "quote_char \<notin> set ''-infinity''" by (simp_all add: quote_char_def)
  then have "token (quote_char # ''nan'' @ quote_char # ''::DOUBLE'')" "token (quote_char # ''infinity'' @ quote_char # ''::DOUBLE'')"
    "token (quote_char # ''-infinity'' @ quote_char # ''::DOUBLE'')"
    using calm_words(1) by (intro token_plain_quoted; simp)+
  then show ?thesis using assms(1,2) AFloat64 by (auto simp: literal_def split: if_splits)
next
  case (AString x)
  then show ?thesis using assms(1) token_quoted [of "[]" x] by (simp add: literal_def)
next
  case (ABytes x)
  have "quote_char \<notin> set (concat (map (\<lambda>c. CHR 0x5C # ''x'' @ hex_byte c) x))"
    using hex_byte_plain by (auto simp: quote_char_def)
  then have "token (quote_char # concat (map (\<lambda>c. CHR 0x5C # ''x'' @ hex_byte c) x) @ quote_char # ''::BLOB'')"
    using calm_words(2) by (rule token_plain_quoted)
  then show ?thesis using assms(1) ABytes by (auto simp: literal_def)
next
  case (ATime x)
  have "token (quote_char # fmt_time x @ [quote_char])" using token_plain_quoted [of "fmt_time x" "[]"] assms(3) by simp
  then have "token (''TIMESTAMP '' @ quote_char # fmt_time x @ [quote_char])" using calm_words(3) by (intro token_prefix)
  then show ?thesis using assms(1) ATime by (auto simp: literal_def)
next
  case (ADecimal x)
  then show ?thesis using assms(1) token_decimal by (auto simp: literal_def)
qed (use assms(1) in \<open>simp add: literal_def\<close>)


lemma Hole_mark: "Hole \<in> set (lexemes s) \<Longrightarrow> CHR ''?'' \<in> set s"
proof -
  assume "Hole \<in> set (lexemes s)"
  then have "CHR ''?'' \<in> set (concat (map lexeme_text (lexemes s)))"
    unfolding set_concat set_map by (intro UN_I imageI) auto
  then show ?thesis by (simp only: lexemes_text)
qed

lemma fill_none: "Hole \<notin> set ps \<Longrightarrow> fill ls ps = concat (map lexeme_text ps)"
  by (induction ls ps rule: fill.induct) auto

lemma interpolate_scan:
  assumes "\<not> list_ex (\<lambda>a. nvName a \<noteq> []) args"
  shows "interpolate fmt_float fmt_time query args = interp_from (literal fmt_float fmt_time) (map nvValue args) query 0 []"
proof (cases "args = [] \<and> CHR ''?'' \<notin> set query")
  case True
  then have "Hole \<notin> set (lexemes query)" using Hole_mark by blast
  then have "holes query = 0" "fill [] (lexemes query) = query"
    by (auto simp: holes_def filter_empty_conv fill_none lexemes_text)
  then show ?thesis using True by (simp add: interpolate_def interp_from_fill)
qed (use assms in \<open>auto simp: interpolate_def\<close>)

fun undouble :: "string \<Rightarrow> string" where
  "undouble (c # d # s) = (if c = quote_char \<and> d = quote_char then c # undouble s else c # undouble (d # s))"
| "undouble s = s"

lemma undouble_double: "undouble (double_quotes x) = x"
proof (induction x)
  case (Cons c x)
  have "undouble (c # double_quotes x) = c # undouble (double_quotes x)" if "c \<noteq> quote_char"
    using that by (cases "double_quotes x") auto
  then show ?case using Cons by (auto simp: double_quotes_def)
qed (simp add: double_quotes_def)

lemma fill_no_holes:
  "list_all token ls \<Longrightarrow> length ls = length (filter (\<lambda>p. p = Hole) ps) \<Longrightarrow> Hole \<notin> set (fill_lexemes ls ps)"
proof (induction ps arbitrary: ls)
  case (Cons p ps)
  then show ?case by (cases "p = Hole"; cases ls) (auto simp: token_def)
qed simp

lemma digit_one: "digit_char (Suc 0) = CHR ''1''"
  by code_simp

text \<open>What a successful interpolation made of the arguments.\<close>

lemma interpolate_literals:
  assumes "interpolate fmt_float fmt_time query args = Ok out"
  shows "\<exists>ls. go_map (literal fmt_float fmt_time) (map nvValue args) = Ok ls \<and> length args = holes query \<and> out = fill ls (lexemes query)"
proof -
  have "\<not> list_ex (\<lambda>a. nvName a \<noteq> []) args" using assms by (auto simp: interpolate_def split: if_splits)
  then have "interp_from (literal fmt_float fmt_time) (map nvValue args) query 0 [] = Ok out"
    using assms interpolate_scan by metis
  then show ?thesis by (auto simp: interp_from_fill split: go.splits if_splits)
qed

fun negative :: "driver_value \<Rightarrow> bool" where
  "negative (AInt64 x) = (sint x < 0)"
| "negative (ADecimal d) = (Decimal_BigInt d < 0)"
| "negative v = False"

lemma negative_literal: "negative v \<Longrightarrow> \<exists>l. literal fmt_float fmt_time v = Ok (CHR ''-'' # l)"
  by (cases v rule: negative.cases) (auto simp: literal_def int_dec_def Decimal_String_scaled)

section \<open>Properties\<close>

text \<open>C29: interpolation replaces the placeholders and nothing else: it fails on a named argument, on a
  value that has no literal, and on a count of arguments other than the count of placeholders
  outside quotes and comments; else the result is the query, each such placeholder replaced by the
  literal of its argument, in order.\<close>

theorem interpolate_fills:
  "interpolate fmt_float fmt_time query args =
    (if \<exists>a \<in> set args. nvName a \<noteq> [] then Err NamedParameter
     else case go_map (literal fmt_float fmt_time) (take (holes query) (map nvValue args)) of
       Ok ls \<Rightarrow> if length args < holes query then Err (TooFewArgs (length args))
                else if holes query < length args then Err (ArgCount (length args) (holes query))
                else Ok (fill ls (lexemes query))
     | Err e \<Rightarrow> Err e
     | Panic \<Rightarrow> Panic)"
proof (cases "\<exists>a \<in> set args. nvName a \<noteq> []")
  case True
  then show ?thesis by (auto simp: interpolate_def list_ex_iff)
next
  case False
  then show ?thesis
    using interpolate_scan [of args fmt_float fmt_time query] interp_from_fill [of 0 "map nvValue args" _ query "[]"]
    by (auto simp: list_ex_iff split: go.split)
qed

text \<open>C30: an argument cannot change how the rest of a query reads: where placeholders stand apart from
  dashes and quotes, the interpolated query consists of the lexemes of the query with each
  placeholder replaced by the lexemes of its argument's literal, none of them a placeholder.\<close>

theorem interpolate_safe:
  assumes "interpolate fmt_float fmt_time query args = Ok out" and "separated (lexemes query)"
    and "\<And>f. token (fmt_float f)" and "\<And>t. quote_char \<notin> set (fmt_time t)"
  shows "\<exists>ls. go_map (literal fmt_float fmt_time) (map nvValue args) = Ok ls
    \<and> lexemes out = fill_lexemes ls (lexemes query) \<and> Hole \<notin> set (lexemes out)"
proof -
  obtain ls where m: "go_map (literal fmt_float fmt_time) (map nvValue args) = Ok ls"
    and ls: "length args = holes query" "out = fill ls (lexemes query)"
    using interpolate_literals [OF assms(1)] by blast
  have len: "length ls = length (filter (\<lambda>p. p = Hole) (lexemes query))"
    using go_map_length [OF m] ls(1) by (simp add: holes_def)
  have tok: "list_all token ls"
    using go_map_in_set [OF m] literal_token [of fmt_float fmt_time, OF _ assms(3,4)] by (auto simp: list_all_iff)
  have "lexemes out = fill_lexemes ls (lexemes query)"
    using fill_tokens [OF refl assms(2) tok len] ls(2) by simp
  then show ?thesis using m fill_no_holes [OF tok len] by auto
qed

theorem interpolate_safe_witness:
  "lexemes (''a='' @ quote_char # ''x'' @ [quote_char]) = [Plain (CHR ''a''), Plain (CHR ''=''), Quoted (quote_char # ''x'' @ [quote_char])]"
proof -
  have lex: "lexemes ''a=?'' = [Plain (CHR ''a''), Plain (CHR ''=''), Hole]"
    by (simp add: lexemes.simps is_quote_def quote_char_def)
  have "interpolate (\<lambda>_. ''1'') (\<lambda>_. []) ''a=?'' [\<lparr>nvName = [], nvValue = AString ''x''\<rparr>]
      = Ok (''a='' @ quote_char # ''x'' @ [quote_char])"
    by (simp add: interpolate_def region_def literal_def double_quotes_def quote_char_def)
  moreover have "token ''1''" by (rule token_calm) (simp_all add: calm_def is_quote_def quote_char_def)
  ultimately obtain ls where "go_map (literal (\<lambda>_. ''1'') (\<lambda>_. [])) [AString ''x''] = Ok ls"
    "lexemes (''a='' @ quote_char # ''x'' @ [quote_char]) = fill_lexemes ls (lexemes ''a=?'')"
    using interpolate_safe [of "\<lambda>_. ''1''" "\<lambda>_. []" "''a=?''" "[\<lparr>nvName = [], nvValue = AString ''x''\<rparr>]"] lex by auto
  moreover have "lexemes (quote_char # ''x'' @ [quote_char]) = [Quoted (quote_char # ''x'' @ [quote_char])]"
    by (simp add: lexemes.simps is_quote_def quote_char_def)
  ultimately show ?thesis using lex by (auto simp: literal_def double_quotes_def quote_char_def)
qed

text \<open>C31: a string argument reads back as itself: before anything but another quote, its literal is one
  quoted region, and undoing the doubled quotes inside gives the string.\<close>

theorem string_literal_reads_back:
  assumes "first rest \<noteq> Some quote_char"
  shows "\<exists>w. literal fmt_float fmt_time (AString x) = Ok (quote_char # w @ [quote_char])
    \<and> lexemes ((quote_char # w @ [quote_char]) @ rest) = Quoted (quote_char # w @ [quote_char]) # lexemes rest \<and> undouble w = x"
  using quoted_doubled [OF assms, of x] undouble_double [of x]
  by (auto simp: literal_def is_quote_def intro!: lexemes_quoted)

theorem string_literal_reads_back_witness:
  "\<exists>w. literal (\<lambda>_. []) (\<lambda>_. []) (AString [quote_char]) = Ok (quote_char # w @ [quote_char]) \<and> undouble w = [quote_char]"
  using string_literal_reads_back [of "'' AND 1''" "\<lambda>_. []" "\<lambda>_. []" "[quote_char]"] by (auto simp: quote_char_def)

text \<open>C32: behind a dash the guarantee fails, for every negative integer and decimal: where a placeholder
  directly follows a single dash and the earlier placeholders stand apart, the query still reads as
  written before that dash, but the dash and the minus sign open a comment which swallows the
  argument and the rest of the line, later arguments included, up to the line's end.\<close>

theorem negative_after_dash_is_comment:
  assumes "interpolate fmt_float fmt_time query args = Ok out"
    and "lexemes query = ps @ Plain (CHR ''-'') # Hole # qs" and "separated ps"
    and "negative (nvValue (args ! length (filter (\<lambda>p. p = Hole) ps)))"
    and "\<And>f. token (fmt_float f)" and "\<And>t. quote_char \<notin> set (fmt_time t)"
  shows "\<exists>ls l ls'. go_map (literal fmt_float fmt_time) (map nvValue args) = Ok (ls @ (CHR ''-'' # l) # ls')
    \<and> length ls = length (filter (\<lambda>p. p = Hole) ps)
    \<and> lexemes out = fill_lexemes ls ps @ Comment (''--'' @ fst (line_tail (l @ fill ls' qs))) # lexemes (snd (line_tail (l @ fill ls' qs)))"
proof -
  define h where "h = length (filter (\<lambda>p. p = Hole) ps)"
  obtain lits where m: "go_map (literal fmt_float fmt_time) (map nvValue args) = Ok lits"
    and n: "length args = holes query" and out: "out = fill lits (lexemes query)"
    using interpolate_literals [OF assms(1)] by blast
  have len: "length lits = length args" using go_map_length [OF m] by simp
  have h: "h < length args" using assms(2) n by (simp add: holes_def h_def)
  then obtain l where l: "lits ! h = CHR ''-'' # l"
    using list_all2_nthD [OF go_map_list_all2 [OF m], of h] negative_literal [OF assms(4), of fmt_float fmt_time] by (auto simp: h_def)
  define ls ls' where "ls = take h lits" and "ls' = drop (Suc h) lits"
  have lits: "lits = ls @ (CHR ''-'' # l) # ls'" using h len l id_take_nth_drop [of h lits] by (simp add: ls_def ls'_def)
  have lsh: "length ls = h" using h len by (simp add: ls_def)
  obtain r where r: "query = concat (map lexeme_text ps) @ r" "lexemes r = Plain (CHR ''-'') # Hole # qs"
    using lexemes_appendE [OF assms(2)] by blast
  then have fr: "first r = Some (CHR ''-'')" using lexemes_PlainD by fastforce
  define t where "t = CHR ''-'' # CHR ''-'' # l @ fill ls' qs"
  have o: "out = fill ls ps @ t"
    using out assms(2) lits fill_append [of ls ps "(CHR ''-'' # l) # ls'" "Plain (CHR ''-'') # Hole # qs"] lsh
    by (simp add: h_def t_def)
  have tok: "list_all token ls"
    using go_map_in_set [OF m] literal_token [of fmt_float fmt_time, OF _ assms(5,6)] lits by (auto simp: list_all_iff)
  have "lexemes out = fill_lexemes ls ps @ lexemes t"
    using fill_tokens_before [of query ps r t ls] r assms(2,3) fr tok lsh by (simp add: o h_def t_def quote_char_def)
  moreover have "lexemes t = Comment (''--'' @ fst (line_tail (l @ fill ls' qs))) # lexemes (snd (line_tail (l @ fill ls' qs)))"
    unfolding t_def by (subst lexemes_line) (auto simp: line_tail_def newline_def)
  ultimately show ?thesis using m lits lsh by (auto simp: h_def)
qed

theorem negative_after_dash_is_comment_witness:
  "lexemes ''SELECT 1--1'' = map Plain ''SELECT 1'' @ [Comment ''--1'']"
proof -
  have lex: "lexemes ''SELECT 1-?'' = map Plain ''SELECT 1'' @ Plain (CHR ''-'') # Hole # []"
    by (simp add: lexemes.simps is_quote_def quote_char_def)
  have run: "interpolate (\<lambda>_. ''1'') (\<lambda>_. []) ''SELECT 1-?'' [\<lparr>nvName = [], nvValue = AInt64 (-1)\<rparr>] = Ok ''SELECT 1--1''"
    by (simp add: interpolate_def region_def literal_def int_dec_def nat_dec.simps digit_one quote_char_def)
  have "token ''1''" by (rule token_calm) (simp_all add: calm_def is_quote_def quote_char_def)
  then obtain ls l ls' where "go_map (literal (\<lambda>_. ''1'') (\<lambda>_. [])) [AInt64 (-1)] = Ok (ls @ (CHR ''-'' # l) # ls')" "ls = []"
    "lexemes ''SELECT 1--1'' = map Plain ''SELECT 1'' @ Comment (''--'' @ fst (line_tail (l @ fill ls' []))) # lexemes (snd (line_tail (l @ fill ls' [])))"
    using negative_after_dash_is_comment [OF run lex] by (auto simp: quote_char_def)
  then show ?thesis
    by (auto simp: literal_def int_dec_def nat_dec.simps digit_one line_tail_def newline_def)
qed

end
