(* ===== verification/Driver_Conn.thy ===== *)
theory Driver_Conn
  imports Driver_Interpolate Quack_Session
begin

text \<open>
  The \<open>database/sql\<close> driver around a connection: \<^verbatim>\<open>src/driver/dsn.go\<close> and
  \<^verbatim>\<open>src/driver/driver.go\<close>.  \<open>url.Parse\<close>, \<open>os.Getenv\<close>, \<open>strconv.Atoi\<close> and
  \<open>time.ParseDuration\<close> are parameters; the query of a URL is a list in the order in which Go's
  map iteration happens to visit it.

  Lemmas: what a DSN means does not depend on that order; an expired session is told apart from
  every other failure, unless the token is a part of the text that tells it.
\<close>

section \<open>DSN\<close>

record url =
  uScheme :: string
  uHost :: string
  uUser :: bool
  uPath :: string
  uQuery :: "(string \<times> string list) list"

datatype dsn_error =
    DsnUnparseable
  | DsnScheme string
  | DsnMissingHost
  | DsnUser
  | DsnTokenEnv string
  | DsnFetchWorkers string
  | DsnConnectTimeout string
  | DsnMaxRetries string
  | DsnUnknownParam string

definition empty_config :: config where
  "empty_config = \<lparr>cfEndpoint = [], cfToken = [], cfFetchWorkers = 0, cfConnectTimeout = 0, cfMaxRetries = 0, cfRetryBaseDelay = 0\<rparr>"

text \<open>\<open>strings.TrimSuffix(path, "/")\<close>.\<close>

definition trim_slash :: "string \<Rightarrow> string" where
  "trim_slash s = (if s \<noteq> [] \<and> last s = CHR ''/'' then butlast s else s)"

text \<open>One parameter of the query; its last value counts.\<close>

definition dsn_param ::
  "(string \<Rightarrow> string) \<Rightarrow> (string \<Rightarrow> int option) \<Rightarrow> (string \<Rightarrow> u64 option) \<Rightarrow> string \<Rightarrow> string \<Rightarrow> config \<Rightarrow> (dsn_error, config) go" where
  "dsn_param getenv atoi parse_duration key v cfg =
     (if key = ''token''
      then (if prefix ''env:'' v
            then (let name = drop 4 v; tok = getenv name in
                  if tok = [] then Err (DsnTokenEnv name) else Ok (cfg\<lparr>cfToken := tok\<rparr>))
            else Ok (cfg\<lparr>cfToken := v\<rparr>))
      else if key = ''fetch_workers''
      then (case atoi v of Some n \<Rightarrow> if n < 1 then Err (DsnFetchWorkers v) else Ok (cfg\<lparr>cfFetchWorkers := n\<rparr>)
            | None \<Rightarrow> Err (DsnFetchWorkers v))
      else if key = ''connect_timeout''
      then (case parse_duration v of Some d \<Rightarrow> if sint d \<le> 0 then Err (DsnConnectTimeout v) else Ok (cfg\<lparr>cfConnectTimeout := d\<rparr>)
            | None \<Rightarrow> Err (DsnConnectTimeout v))
      else if key = ''max_retries''
      then (case atoi v of Some n \<Rightarrow> Ok (cfg\<lparr>cfMaxRetries := n\<rparr>) | None \<Rightarrow> Err (DsnMaxRetries v))
      else Err (DsnUnknownParam key))"

fun dsn_params ::
  "(string \<Rightarrow> string) \<Rightarrow> (string \<Rightarrow> int option) \<Rightarrow> (string \<Rightarrow> u64 option) \<Rightarrow> (string \<times> string list) list \<Rightarrow> config \<Rightarrow> (dsn_error, config) go" where
  "dsn_params getenv atoi parse_duration [] cfg = Ok cfg"
| "dsn_params getenv atoi parse_duration ((key, vals) # q) cfg =
     (if vals = [] then Panic
      else case dsn_param getenv atoi parse_duration key (last vals) cfg of
        Ok cfg \<Rightarrow> dsn_params getenv atoi parse_duration q cfg
      | Err e \<Rightarrow> Err e
      | Panic \<Rightarrow> Panic)"

definition ParseDSN ::
  "(string \<Rightarrow> url option) \<Rightarrow> (string \<Rightarrow> string) \<Rightarrow> (string \<Rightarrow> int option) \<Rightarrow> (string \<Rightarrow> u64 option) \<Rightarrow> string \<Rightarrow> (dsn_error, config) go" where
  "ParseDSN parse_url getenv atoi parse_duration dsn =
     (case parse_url dsn of
        None \<Rightarrow> Err DsnUnparseable
      | Some u \<Rightarrow>
          (case (if uScheme u = ''quack'' \<or> uScheme u = ''http'' then Some ''http''
                 else if uScheme u = ''quacks'' \<or> uScheme u = ''https'' then Some ''https'' else None) of
             None \<Rightarrow> Err (DsnScheme (uScheme u))
           | Some scheme \<Rightarrow>
               if uHost u = [] then Err DsnMissingHost
               else if uUser u then Err DsnUser
               else dsn_params getenv atoi parse_duration (uQuery u)
                      (empty_config\<lparr>cfEndpoint := scheme @ ''://'' @ uHost u @ trim_slash (uPath u)\<rparr>)))"

section \<open>Connections of the driver\<close>

datatype driver_error =
    DrvArgs arg_error
  | DrvDuck duck_error
  | DrvBadConn
  | DrvReadOnly
  | DrvDsn dsn_error
  | DrvNoTx

text \<open>\<open>errors.Is(err, wire.ErrConnectionExpired)\<close>; decode errors wrap no transport error.\<close>

definition conn_expired :: "duck_error \<Rightarrow> bool" where
  "conn_expired e = (case e of DWire e \<Rightarrow> is_connection_expired e | _ \<Rightarrow> False)"

definition Driver_Open where
  "Driver_Open parse_url getenv atoi parse_duration parse_scheme platform post ctx_err wait dsn w =
     (case ParseDSN parse_url getenv atoi parse_duration dsn of
        Err e \<Rightarrow> (Err (DrvDsn e), w)
      | Panic \<Rightarrow> (Panic, w)
      | Ok cfg \<Rightarrow> apfst (map_err DrvDuck) (Dial parse_scheme platform post ctx_err wait cfg w))"

definition conn_QueryContext ::
  "(u64 \<Rightarrow> string) \<Rightarrow> (go_time \<Rightarrow> string) \<Rightarrow> 'w post \<Rightarrow> conn \<Rightarrow> string \<Rightarrow> named_value list \<Rightarrow> 'w \<Rightarrow>
   (driver_error, prepare_result) go \<times> conn \<times> 'w" where
  "conn_QueryContext fmt_float fmt_time post dc query args w =
     (case interpolate fmt_float fmt_time query args of
        Err e \<Rightarrow> (Err (DrvArgs e), dc, w)
      | Panic \<Rightarrow> (Panic, dc, w)
      | Ok sql \<Rightarrow>
          (case Query post dc sql w of
             (Ok pr, dc, w) \<Rightarrow> (Ok pr, dc, w)
           | (Err e, dc, w) \<Rightarrow> (Err (if conn_expired e then DrvBadConn else DrvDuck e), dc, w)
           | (Panic, dc, w) \<Rightarrow> (Panic, dc, w)))"

definition conn_ExecContext :: "string \<Rightarrow> named_value list \<Rightarrow> (driver_error, unit) go" where
  "conn_ExecContext query args = Err DrvReadOnly"

definition conn_Begin :: "(driver_error, unit) go" where
  "conn_Begin = Err DrvNoTx"

definition conn_CloseConn :: "'w post \<Rightarrow> conn \<Rightarrow> 'w \<Rightarrow> (wire_error, unit) go \<times> conn \<times> 'w" where
  "conn_CloseConn post dc w =
     (case Conn_Close post dc w of
        (Err e, dc, w) \<Rightarrow> (if is_connection_expired e then Ok () else Err e, dc, w)
      | r \<Rightarrow> r)"

definition stmt_Query ::
  "(u64 \<Rightarrow> string) \<Rightarrow> (go_time \<Rightarrow> string) \<Rightarrow> 'w post \<Rightarrow> conn \<Rightarrow> string \<Rightarrow> driver_value list \<Rightarrow> 'w \<Rightarrow>
   (driver_error, prepare_result) go \<times> conn \<times> 'w" where
  "stmt_Query fmt_float fmt_time post dc query args w =
     conn_QueryContext fmt_float fmt_time post dc query (map (\<lambda>a. \<lparr>nvName = [], nvValue = a\<rparr>) args) w"

section \<open>The order of the parameters\<close>

text \<open>Each parameter sets a field of its own: two of them commute.\<close>

lemma dsn_param_commute:
  assumes "k \<noteq> k'" and "dsn_param ge ai pd k v cfg = Ok c1" and "dsn_param ge ai pd k' v' c1 = Ok c"
  shows "\<exists>c2. dsn_param ge ai pd k' v' cfg = Ok c2 \<and> dsn_param ge ai pd k v c2 = Ok c"
  using assms unfolding dsn_param_def Let_def
  by (auto split: if_splits option.splits)

lemma dsn_params_Cons:
  "dsn_params ge ai pd ((k, vs) # q) cfg = Ok c \<longleftrightarrow>
    vs \<noteq> [] \<and> (\<exists>c1. dsn_param ge ai pd k (last vs) cfg = Ok c1 \<and> dsn_params ge ai pd q c1 = Ok c)"
  by (auto split: go.splits)

lemma dsn_params_move:
  assumes "k \<notin> fst ` set ys"
  shows "dsn_params ge ai pd (ys @ (k, vs) # zs) cfg = Ok c \<longleftrightarrow> dsn_params ge ai pd ((k, vs) # ys @ zs) cfg = Ok c"
  using assms
proof (induction ys arbitrary: cfg)
  case (Cons y ys)
  obtain k' ws where y: "y = (k', ws)" by fastforce
  have "dsn_params ge ai pd ((y # ys) @ (k, vs) # zs) cfg = Ok c \<longleftrightarrow>
      ws \<noteq> [] \<and> (\<exists>c1. dsn_param ge ai pd k' (last ws) cfg = Ok c1 \<and> dsn_params ge ai pd ((k, vs) # ys @ zs) c1 = Ok c)"
    using Cons unfolding y by (simp only: append_Cons dsn_params_Cons) auto
  also have "\<dots> \<longleftrightarrow> dsn_params ge ai pd ((k, vs) # (y # ys) @ zs) cfg = Ok c"
  proof -
    have "k \<noteq> k'" "k' \<noteq> k" using Cons.prems by (auto simp: y)
    note comm = dsn_param_commute [OF this(1)] dsn_param_commute [OF this(2)]
    show ?thesis
      unfolding y append_Cons dsn_params_Cons using comm by blast
  qed
  finally show ?case .
qed simp

lemma dsn_params_order:
  assumes "mset q = mset q'" "distinct (map fst q)"
  shows "dsn_params ge ai pd q cfg = Ok c \<longleftrightarrow> dsn_params ge ai pd q' cfg = Ok c"
  using assms
proof (induction q arbitrary: q' cfg)
  case (Cons x q)
  obtain k vs where x: "x = (k, vs)" by fastforce
  have "x \<in> set q'" using Cons.prems(1) by (metis list.set_intros(1) mset_eq_setD)
  then obtain ys zs where q': "q' = ys @ x # zs" by (meson split_list)
  then have m: "mset q = mset (ys @ zs)" using Cons.prems(1) by simp
  then have "fst ` set ys \<subseteq> fst ` set q" by (metis Un_iff image_mono mset_eq_setD set_append subsetI)
  then have k: "k \<notin> fst ` set ys" using Cons.prems(2) x by auto
  have IH: "dsn_params ge ai pd q c1 = Ok c \<longleftrightarrow> dsn_params ge ai pd (ys @ zs) c1 = Ok c" for c1
    using Cons.IH [OF m] Cons.prems(2) by simp
  show ?case
    unfolding q' x dsn_params_move [OF k] dsn_params_Cons IH ..
qed simp

section \<open>Properties\<close>

text \<open>C34: a DSN means the same whatever order Go's map iteration visits its parameters in: for every order
  of the query's keys the same configurations come out, and only configurations that name an HTTP
  endpoint on the URL's host.\<close>

theorem ParseDSN_order:
  assumes "parse_url d = Some u" and "parse_url' d = Some (u\<lparr>uQuery := q\<rparr>)" and "mset (uQuery u) = mset q"
    and "distinct (map fst (uQuery u))"
  shows "(ParseDSN parse_url ge ai pd d = Ok cfg \<longleftrightarrow> ParseDSN parse_url' ge ai pd d = Ok cfg) \<and>
    (ParseDSN parse_url ge ai pd d = Ok cfg \<longrightarrow>
       (\<exists>scheme \<in> {''http'', ''https''}. cfEndpoint cfg = scheme @ ''://'' @ uHost u @ trim_slash (uPath u)))"
proof -
  have "cfEndpoint c1 = cfEndpoint c0" if "dsn_param ge ai pd k v c0 = Ok c1" for k v c0 c1
    using that by (auto simp: dsn_param_def Let_def split: if_splits option.splits)
  then have "dsn_params ge ai pd qs c0 = Ok c1 \<Longrightarrow> cfEndpoint c1 = cfEndpoint c0" for qs c0 c1
    by (induction ge ai pd qs c0 rule: dsn_params.induct) (auto split: if_splits go.splits)
  then show ?thesis
    using assms dsn_params_order [OF assms(3,4)] by (auto simp: ParseDSN_def split: option.splits if_splits)
qed

section \<open>Expired sessions\<close>

lemma replace_all_absent: "\<not> contains s old \<Longrightarrow> replace_all old new s = s"
  by (induction s) auto

lemma set_replace_all: "set (replace_all old new s) \<subseteq> set new \<union> set s"
proof (induction old new s rule: replace_all.induct)
  case (2 old new c s)
  then show ?case using set_drop_subset [of "length old" "c # s"] by (auto split: if_splits)
qed simp

lemma replace_all_keeps_none:
  "prefix s (replace_all old (CHR ''['' # new) s) \<Longrightarrow> CHR ''['' \<notin> set s \<Longrightarrow> old \<noteq> [] \<Longrightarrow> \<not> contains s old"
  by (induction s) (auto split: if_splits)

text \<open>
  Redaction hides a text from the client if the token is a part of it: what is left of a text whose
  first byte occurs nowhere else in it no longer contains the text.
\<close>

definition hides :: "string \<Rightarrow> string \<Rightarrow> bool" where
  "hides tok msg \<longleftrightarrow> tok \<noteq> [] \<and> contains msg tok"

lemma redacted_contains:
  assumes "msg = c # u" "c \<notin> set u" "c \<notin> set redacted" "CHR ''['' \<notin> set msg"
  shows "contains (redactToken tok msg) msg \<longleftrightarrow> \<not> hides tok msg"
proof
  assume a: "contains (redactToken tok msg) msg"
  show "\<not> hides tok msg"
  proof
    assume h: "hides tok msg"
    then have tok: "tok \<noteq> []" by (simp add: hides_def)
    have sub: "sublist msg (replace_all tok redacted msg)"
      using a tok by (simp add: redactToken_def contains_sublist)
    have no_c: "\<not> sublist msg xs" if "c \<notin> set xs" for xs
      using that set_mono_sublist [of msg xs] assms(1) by auto
    have in_u: "c \<notin> set (replace_all tok redacted v)" if "set v \<subseteq> set u" for v
      using that set_replace_all [of tok redacted v] assms(2,3) by auto
    show False
    proof (cases "prefix tok msg")
      case True
      then have "replace_all tok redacted msg = redacted @ replace_all tok redacted (drop (length tok) msg)"
        using assms(1) tok by simp
      moreover have "set (drop (length tok) msg) \<subseteq> set u"
        using tok assms(1) by (cases tok) (auto dest: in_set_dropD)
      ultimately have "c \<notin> set (replace_all tok redacted msg)" using in_u assms(3) by simp
      then show False using no_c sub by blast
    next
      case False
      then have r: "replace_all tok redacted msg = c # replace_all tok redacted u" using assms(1) tok by simp
      then have "prefix msg (replace_all tok redacted msg)" using sub no_c in_u by (simp add: sublist_Cons_right)
      then have "\<not> contains msg tok"
        using replace_all_keeps_none [of msg tok "''redacted]''"] assms(4) tok by (simp add: redacted_def)
      then show False using h by (simp add: hides_def)
    qed
  qed
next
  assume "\<not> hides tok msg"
  then have "redactToken tok msg = msg" by (auto simp: hides_def redactToken_def replace_all_absent)
  then show "contains (redactToken tok msg) msg" by (simp add: contains_sublist)
qed

lemma redacted_without: "c \<in> set msg' \<Longrightarrow> c \<notin> set msg \<Longrightarrow> c \<notin> set redacted \<Longrightarrow> \<not> contains (redactToken tok msg) msg'"
  using subsetD [OF set_replace_all, of c tok redacted msg] subsetD [OF set_mono_sublist, of msg' "redactToken tok msg" c]
  by (auto simp: redactToken_def contains_sublist split: if_splits)

lemma redacted_expired:
  "connectionExpired (redactToken tok ''Invalid connection id'') \<longleftrightarrow> \<not> hides tok ''Invalid connection id''"
  "connectionExpired (redactToken tok ''Connection does not exist / already disconnected'')
     \<longleftrightarrow> \<not> hides tok ''Connection does not exist / already disconnected''"
proof -
  have "\<not> contains (redactToken tok ''Invalid connection id'') ''Connection does not exist / already disconnected''"
    by (rule redacted_without [of "CHR ''/''"]) (simp_all add: redacted_def)
  moreover have "contains (redactToken tok ''Invalid connection id'') ''Invalid connection id'' \<longleftrightarrow> \<not> hides tok ''Invalid connection id''"
    by (rule redacted_contains [where c = "CHR ''I''" and u = "''nvalid connection id''"]) (simp_all add: redacted_def)
  ultimately show "connectionExpired (redactToken tok ''Invalid connection id'') \<longleftrightarrow> \<not> hides tok ''Invalid connection id''"
    by (simp add: connectionExpired_def del: contains.simps)
  have "\<not> contains (redactToken tok ''Connection does not exist / already disconnected'') ''Invalid connection id''"
    by (rule redacted_without [of "CHR ''I''"]) (simp_all add: redacted_def)
  moreover have "contains (redactToken tok ''Connection does not exist / already disconnected'') ''Connection does not exist / already disconnected''
      \<longleftrightarrow> \<not> hides tok ''Connection does not exist / already disconnected''"
    by (rule redacted_contains [where c = "CHR ''C''" and u = "''onnection does not exist / already disconnected''"]) (simp_all add: redacted_def)
  ultimately show "connectionExpired (redactToken tok ''Connection does not exist / already disconnected'')
     \<longleftrightarrow> \<not> hides tok ''Connection does not exist / already disconnected''"
    by (simp add: connectionExpired_def del: contains.simps)
qed

definition unknown_to :: "string \<Rightarrow> client \<Rightarrow> server \<Rightarrow> bool" where
  "unknown_to base c s \<longleftrightarrow> cfEndpoint (clCfg c) = base \<and> \<not> clClosed c \<and> go_len (clConnID c) \<and> \<not> svConns s (clConnID c)"

lemma expired_texts:
  "go_len ''Invalid connection id''" "go_len ''Connection does not exist / already disconnected''"
  "connectionExpired ''Invalid connection id''" "connectionExpired ''Connection does not exist / already disconnected''"
  by (simp_all add: go_len_def) code_simp+

lemma Query_unknown:
  assumes "unknown_to base (dcClient dc) s"
  shows "\<exists>dc'. Query (quack_post quote base) dc sql s
    = (Err (DWire (WServerError 0 (redactToken (cfToken (clCfg (dcClient dc))) ''Invalid connection id''))), dc', s)"
proof -
  let ?c = "dcClient dc"
  let ?h = "\<lparr>hType = MsgPrepareRequest, hConnectionID = clConnID ?c, hQueryID = clQid ?c + 1\<rparr>"
  have c: "cfEndpoint (clCfg ?c) = base" "\<not> clClosed ?c" "go_len (clConnID ?c)" "\<not> svConns s (clConnID ?c)"
    using assms by (simp_all add: unknown_to_def)
  have "quack_post quote base (cfEndpoint (clCfg ?c) @ pathRPC) contentType (EncodeEnvelope ?h (PrepareRequest_Encode sql)) s
      = (Server_errorReply ''Invalid connection id'', s)"
    using c by (simp add: quack_post_envelope withConn_def msg_defs)
  note rt = error_reply_roundTrip [where post = "quack_post quote base", OF this]
  have "DecodeErrorMessage (ErrorMessage_Encode ''Invalid connection id'') = Ok ''Invalid connection id''"
    by (rule error_message_rd) (rule expired_texts)
  then show ?thesis
    using rt c
    by (simp add: Query_def Prepare_def call_def Let_def serverError_def msg_defs)
qed

lemma Close_unknown:
  assumes "unknown_to base c s"
  shows "\<exists>c'. Client_Close (quack_post quote base) c s
    = (Err (WServerError 0 (redactToken (cfToken (clCfg c)) ''Connection does not exist / already disconnected'')), c', s)"
proof -
  let ?h = "\<lparr>hType = MsgDisconnect, hConnectionID = clConnID c, hQueryID = QueryIDAbsent\<rparr>"
  have c: "cfEndpoint (clCfg c) = base" "\<not> clClosed c" "go_len (clConnID c)" "\<not> svConns s (clConnID c)"
    using assms by (simp_all add: unknown_to_def)
  have "quack_post quote base (cfEndpoint (clCfg c) @ pathRPC) contentType (EncodeEnvelope ?h EncodeEmptyBody) s
      = (Server_errorReply ''Connection does not exist / already disconnected'', s)"
    using c by (simp add: quack_post_envelope Server_handleDisconnect_def msg_defs)
  note rt = error_reply_roundTrip [where post = "quack_post quote base", OF this]
  have "DecodeErrorMessage (ErrorMessage_Encode ''Connection does not exist / already disconnected'')
      = Ok ''Connection does not exist / already disconnected''"
    by (rule error_message_rd) (rule expired_texts)
  then show ?thesis
    using rt c
    by (simp add: Client_Close_def Let_def serverError_def msg_defs)
qed

text \<open>C35: a session the server has forgotten is retired, not reported as a failed query: submitting on
  it returns \<open>ErrBadConn\<close>, so \<open>database/sql\<close> may retry on a fresh connection, and closing it succeeds,
  while the server runs nothing - unless the token is a part of the very text with which the server
  tells that it has forgotten the session.  Redaction then takes that text apart before the driver
  looks for it, and the same failure comes out as an ordinary server error.\<close>

theorem expired_session_retired:
  assumes "interpolate fmt_float fmt_time query args = Ok sql" and "unknown_to base (dcClient dc) s"
    and "tok = cfToken (clCfg (dcClient dc))"
    and "gone = ''Invalid connection id''" and "over = ''Connection does not exist / already disconnected''"
  shows "\<exists>dc1 dc2. conn_QueryContext fmt_float fmt_time (quack_post quote base) dc query args s
      = (Err (if hides tok gone then DrvDuck (DWire (WServerError 0 (redactToken tok gone))) else DrvBadConn), dc1, s)
    \<and> conn_CloseConn (quack_post quote base) dc s
      = (if hides tok over then Err (WServerError 0 (redactToken tok over)) else Ok (), dc2, s)"
  using assms(1) Query_unknown [OF assms(2), of quote sql] Close_unknown [OF assms(2), of quote] redacted_expired [of tok]
  unfolding assms(3,4,5)
  by (auto simp: conn_QueryContext_def conn_CloseConn_def Conn_Close_def conn_expired_def is_connection_expired_def)

theorem expired_session_retired_witness:
  "\<exists>dc1. conn_QueryContext (\<lambda>_. []) (\<lambda>_. []) (quack_post (\<lambda>s. s) ''http://h:8888'') sample_conn ''q'' [] (ExpireConnections sample_quack)
     = (Err DrvBadConn, dc1, ExpireConnections sample_quack)"
proof -
  have "interpolate (\<lambda>_. []) (\<lambda>_. []) ''q'' [] = Ok ''q''" by (simp add: interpolate_def)
  moreover have "unknown_to ''http://h:8888'' (dcClient sample_conn) (ExpireConnections sample_quack)"
    by (simp add: unknown_to_def sample_conn_def sample_resolved_def go_len_def ExpireConnections_def)
  moreover have "\<not> hides (cfToken (clCfg (dcClient sample_conn))) ''Invalid connection id''"
    by (simp add: hides_def sample_conn_def sample_resolved_def)
  ultimately show ?thesis
    using expired_session_retired [OF _ _ refl refl refl, of "\<lambda>_. []" "\<lambda>_. []" "''q''" "[]" "''q''" "''http://h:8888''" sample_conn "ExpireConnections sample_quack" "\<lambda>s. s"]
    by auto
qed

theorem ParseDSN_order_witness:
  "ParseDSN (\<lambda>_. Some \<lparr>uScheme = ''quack'', uHost = ''h'', uUser = False, uPath = ''/'', uQuery = [(''max_retries'', [''x'']), (''token'', [''t''])]\<rparr>)
     (\<lambda>_. []) (\<lambda>_. Some 2) (\<lambda>_. None) ''d'' = Ok (empty_config\<lparr>cfEndpoint := ''http://h'', cfToken := ''t'', cfMaxRetries := 2\<rparr>)"
proof -
  let ?u = "\<lparr>uScheme = ''quack'', uHost = ''h'', uUser = False, uPath = ''/'', uQuery = [(''max_retries'', [''x'']), (''token'', [''t''])]\<rparr>"
  let ?cfg = "empty_config\<lparr>cfEndpoint := ''http://h'', cfToken := ''t'', cfMaxRetries := 2\<rparr>"
  have "ParseDSN (\<lambda>_. Some (?u\<lparr>uQuery := [(''token'', [''t'']), (''max_retries'', [''x''])]\<rparr>)) (\<lambda>_. []) (\<lambda>_. Some 2) (\<lambda>_. None) ''d'' = Ok ?cfg"
    by (simp add: ParseDSN_def dsn_param_def trim_slash_def empty_config_def)
  then show ?thesis
    using ParseDSN_order [of "\<lambda>_. Some ?u" "''d''" ?u "\<lambda>_. Some (?u\<lparr>uQuery := [(''token'', [''t'']), (''max_retries'', [''x''])]\<rparr>)"
        "[(''token'', [''t'']), (''max_retries'', [''x''])]" "\<lambda>_. []" "\<lambda>_. Some 2" "\<lambda>_. None" ?cfg] by simp
qed

end
