(* ===== verification/Bouncer.thy ===== *)
theory Bouncer
  imports Wire_Client "HOL-Library.AList" "HOL-Library.List_Lexorder" "HOL-Library.Char_ord"
begin

text \<open>
  The connection-pooling proxy, \<^verbatim>\<open>src/cmd/quackbouncer/\<close>: \<^verbatim>\<open>metrics.go\<close>, \<^verbatim>\<open>pool.go\<close> and
  \<^verbatim>\<open>proxy.go\<close>.  Upstream sessions are shared mutable objects: \<open>bnStore\<close> holds them and the pool
  and the table of virtual connections hold indices into it.  The random identifier a handler
  draws (\<open>rand.Text\<close>) is its argument \<open>vid\<close>; the transport and the context of a request are in
  \<open>env\<close>.

  The handlers are given twice: as the functions of the source, and cut into the critical sections
  between which other requests run (\<open>task\<close>); \<open>tasks_run_handler\<close> shows that a request that runs
  alone does what its handler says.
\<close>

section \<open>Metrics\<close>

datatype gauge = ActiveConnections | PoolIdle

text \<open>The counters are \<open>float64\<close>; they count in ones, exactly up to \<open>2 ^ 53\<close>.\<close>

record metrics =
  mtCounters :: "(string \<times> (string \<times> nat) list) list"
  mtGauges :: "(string \<times> gauge) list"

definition newMetrics :: metrics where
  "newMetrics = \<lparr>mtCounters = [], mtGauges = []\<rparr>"

definition inc :: "string \<Rightarrow> string \<Rightarrow> metrics \<Rightarrow> metrics" where
  "inc name labels m =
     (let c = (case map_of (mtCounters m) name of None \<Rightarrow> [] | Some c \<Rightarrow> c);
          n = (case map_of c labels of None \<Rightarrow> 0 | Some n \<Rightarrow> n)
      in m\<lparr>mtCounters := AList.update name (AList.update labels (n + 1) c) (mtCounters m)\<rparr>)"

definition set_gauge :: "string \<Rightarrow> gauge \<Rightarrow> metrics \<Rightarrow> metrics" where
  "set_gauge name fn m = m\<lparr>mtGauges := AList.update name fn (mtGauges m)\<rparr>"

text \<open>\<open>%g\<close> of an integer: the exponent form from a million on, the digits without trailing zeros.\<close>

definition fmt_g :: "nat \<Rightarrow> string" where
  "fmt_g n =
     (let s = nat_dec n; e = length s - 1; ds = rev (dropWhile (\<lambda>c. c = CHR ''0'') (rev s))
      in if e < 6 then s
         else hd ds # (if tl ds = [] then [] else CHR ''.'' # tl ds) @ ''e+'' @ (if e < 10 then ''0'' else []) @ nat_dec e)"

definition eol :: string where
  "eol = [CHR 0x0A]"

definition counter_text :: "string \<Rightarrow> (string \<times> nat) list \<Rightarrow> string" where
  "counter_text name c =
     ''# TYPE '' @ name @ '' counter'' @ eol
     @ concat (map (\<lambda>labels. name @ labels @ '' '' @ fmt_g (the (map_of c labels)) @ eol) (sort (map fst c)))"

definition gauge_text :: "string \<Rightarrow> nat \<Rightarrow> string" where
  "gauge_text name n = ''# TYPE '' @ name @ '' gauge'' @ eol @ name @ '' '' @ fmt_g n @ eol"

definition Metrics_ServeHTTP :: "(gauge \<Rightarrow> nat) \<Rightarrow> metrics \<Rightarrow> string" where
  "Metrics_ServeHTTP sample m =
     concat (map (\<lambda>name. counter_text name (the (map_of (mtCounters m) name))) (sort (map fst (mtCounters m))))
     @ concat (map (\<lambda>name. gauge_text name (sample (the (map_of (mtGauges m) name)))) (sort (map fst (mtGauges m))))"

section \<open>The state of the proxy\<close>

record bouncer =
  bnTokens :: "string \<Rightarrow> string option"
  bnUpstream :: config
  bnMax :: int
  bnIdle :: "nat list"
  bnConns :: "(string \<times> nat) list"
  bnMetrics :: metrics
  bnStore :: "client list"

record 'w env =
  enScheme :: "string \<Rightarrow> string option"
  enPlatform :: string
  enPost :: "'w post"
  enCtxErr :: "'w \<Rightarrow> bool"
  enWait :: "u64 \<Rightarrow> 'w \<Rightarrow> string option \<times> 'w"

definition idleCount :: "bouncer \<Rightarrow> nat" where
  "idleCount b = length (bnIdle b)"

definition newProxy :: "(string \<Rightarrow> string option) \<Rightarrow> config \<Rightarrow> int \<Rightarrow> bouncer" where
  "newProxy tokens upstream mx =
     \<lparr>bnTokens = tokens, bnUpstream = upstream, bnMax = mx, bnIdle = [], bnConns = [],
      bnMetrics = set_gauge ''quackbouncer_pool_idle'' PoolIdle
        (set_gauge ''quackbouncer_active_connections'' ActiveConnections newMetrics),
      bnStore = []\<rparr>"

definition sample_gauge :: "bouncer \<Rightarrow> gauge \<Rightarrow> nat" where
  "sample_gauge b g = (case g of ActiveConnections \<Rightarrow> length (bnConns b) | PoolIdle \<Rightarrow> idleCount b)"

section \<open>The pool\<close>

text \<open>The critical section of \<open>get\<close>, and the dialling after it.\<close>

definition pool_take :: "bouncer \<Rightarrow> nat option \<times> bouncer" where
  "pool_take b =
     (if bnIdle b \<noteq> [] then (Some (last (bnIdle b)), b\<lparr>bnIdle := butlast (bnIdle b)\<rparr>) else (None, b))"

definition pool_dial :: "'w env \<Rightarrow> bouncer \<Rightarrow> 'w \<Rightarrow> (wire_error, nat) go \<times> bouncer \<times> 'w" where
  "pool_dial env b w =
     (case Connect (enScheme env) (enPlatform env) (enPost env) (enCtxErr env) (enWait env) (bnUpstream b) w of
        (Ok c, w) \<Rightarrow> (Ok (length (bnStore b)), b\<lparr>bnStore := bnStore b @ [c]\<rparr>, w)
      | (Err e, w) \<Rightarrow> (Err e, b, w)
      | (Panic, w) \<Rightarrow> (Panic, b, w))"

definition pool_get :: "'w env \<Rightarrow> bouncer \<Rightarrow> 'w \<Rightarrow> (wire_error, nat \<times> bool) go \<times> bouncer \<times> 'w" where
  "pool_get env b w =
     (case pool_take b of
        (Some a, b) \<Rightarrow> (Ok (a, True), b, w)
      | (None, b) \<Rightarrow>
          (case pool_dial env b w of
             (Ok a, b, w) \<Rightarrow> (Ok (a, False), b, w)
           | (Err e, b, w) \<Rightarrow> (Err e, b, w)
           | (Panic, b, w) \<Rightarrow> (Panic, b, w)))"

text \<open>The critical section of \<open>put\<close>, and the goodbye after it; its outcome is ignored.\<close>

definition pool_give :: "nat \<Rightarrow> bouncer \<Rightarrow> bool \<times> bouncer" where
  "pool_give a b =
     (if int (length (bnIdle b)) < bnMax b then (True, b\<lparr>bnIdle := bnIdle b @ [a]\<rparr>) else (False, b))"

definition pool_close :: "'w env \<Rightarrow> nat \<Rightarrow> bouncer \<Rightarrow> 'w \<Rightarrow> bouncer \<times> 'w" where
  "pool_close env a b w =
     (case Client_Close (enPost env) (bnStore b ! a) w of
        (r, c, w) \<Rightarrow> (b\<lparr>bnStore := (bnStore b)[a := c]\<rparr>, w))"

definition pool_put :: "'w env \<Rightarrow> nat \<Rightarrow> bouncer \<Rightarrow> 'w \<Rightarrow> bouncer \<times> 'w" where
  "pool_put env a b w =
     (case pool_give a b of
        (True, b) \<Rightarrow> (b, w)
      | (False, b) \<Rightarrow> pool_close env a b w)"

section \<open>Replies\<close>

definition dquote :: string where
  "dquote = [CHR 0x22]"

definition count_labels :: "string \<Rightarrow> nat \<Rightarrow> string" where
  "count_labels route code = ''{route='' @ dquote @ route @ dquote @ '',code='' @ dquote @ nat_dec code @ dquote @ ''}''"

definition count_request :: "string \<Rightarrow> nat \<Rightarrow> bouncer \<Rightarrow> bouncer" where
  "count_request route code b =
     b\<lparr>bnMetrics := inc ''quackbouncer_requests_total'' (count_labels route code) (bnMetrics b)\<rparr>"

definition plain_text :: "int \<Rightarrow> string \<Rightarrow> http_result" where
  "plain_text code msg = HTTPResp code (go_bytes (msg @ eol)) None"

definition Proxy_reply :: "header \<Rightarrow> bytes \<Rightarrow> http_result" where
  "Proxy_reply hdr body =
     HTTPResp 200 (EncodeEnvelope (if hQueryID hdr = 0 then hdr\<lparr>hQueryID := QueryIDAbsent\<rparr> else hdr) body) None"

definition Proxy_errorReply :: "string \<Rightarrow> string \<Rightarrow> bouncer \<Rightarrow> http_result \<times> bouncer" where
  "Proxy_errorReply route msg b =
     (Proxy_reply \<lparr>hType = MsgError, hConnectionID = [], hQueryID = 0\<rparr> (ErrorMessage_Encode msg),
      count_request route 200 b)"

text \<open>A handler that panics leaves the client with a broken HTTP connection.\<close>

definition broken :: http_result where
  "broken = HTTPFail ''EOF''"

definition no_connection :: string where
  "no_connection = ''Connection does not exist / already disconnected''"

section \<open>The handlers\<close>

definition handleConnect ::
  "'w env \<Rightarrow> string \<Rightarrow> header \<Rightarrow> bytes \<Rightarrow> bouncer \<Rightarrow> 'w \<Rightarrow> http_result \<times> bouncer \<times> 'w" where
  "handleConnect env vid hdr body b w =
     (case DecodeConnectionRequest body of
        Err e \<Rightarrow> (case Proxy_errorReply ''connect'' (''quackbouncer: '' @ wire_error_text e) b of (r, b) \<Rightarrow> (r, b, w))
      | Panic \<Rightarrow> (broken, b, w)
      | Ok req \<Rightarrow>
          (if bnTokens b (crAuthString req) = None
           then (case Proxy_errorReply ''connect'' ''Authentication failed'' b of (r, b) \<Rightarrow> (r, b, w))
           else case pool_get env b w of
             (Err e, b, w) \<Rightarrow>
               (case Proxy_errorReply ''connect'' (''quackbouncer: upstream connect failed: '' @ wire_error_text e) b of
                  (r, b) \<Rightarrow> (r, b, w))
           | (Panic, b, w) \<Rightarrow> (broken, b, w)
           | (Ok (up, reused), b, w) \<Rightarrow>
               (let b = (if reused then b
                         else b\<lparr>bnMetrics := inc ''quackbouncer_upstream_connects_total'' [] (bnMetrics b)\<rparr>);
                    b = b\<lparr>bnConns := AList.update vid up (bnConns b)\<rparr>;
                    server = clServer (bnStore b ! up)
                in (Proxy_reply \<lparr>hType = MsgConnectionResponse, hConnectionID = vid, hQueryID = hQueryID hdr\<rparr>
                      (ConnectionResponse_Encode
                         \<lparr>csServerVersion = csServerVersion server @ '' via quackbouncer'',
                          csPlatform = csPlatform server, csQuackVersion = csQuackVersion server\<rparr>),
                    count_request ''connect'' 200 b, w))))"

definition handleDisconnect :: "'w env \<Rightarrow> header \<Rightarrow> bouncer \<Rightarrow> 'w \<Rightarrow> http_result \<times> bouncer \<times> 'w" where
  "handleDisconnect env hdr b w =
     (let found = map_of (bnConns b) (hConnectionID hdr);
          b = b\<lparr>bnConns := AList.delete (hConnectionID hdr) (bnConns b)\<rparr>
      in case found of
           None \<Rightarrow> (case Proxy_errorReply ''disconnect'' no_connection b of (r, b) \<Rightarrow> (r, b, w))
         | Some up \<Rightarrow>
             (case pool_put env up b w of
                (b, w) \<Rightarrow>
                  (Proxy_reply \<lparr>hType = MsgSuccess, hConnectionID = [], hQueryID = hQueryID hdr\<rparr> EncodeEmptyBody,
                   count_request ''disconnect'' 200 b, w)))"

text \<open>The exchange with the upstream session, and the reply made of its answer.\<close>

definition forward_send ::
  "'w env \<Rightarrow> header \<Rightarrow> bytes \<Rightarrow> nat \<Rightarrow> bouncer \<Rightarrow> 'w \<Rightarrow> http_result \<times> bouncer \<times> 'w" where
  "forward_send env hdr body a b w =
     (let up = bnStore b ! a in
      case RoundTripRaw (enPost env) up (EncodeEnvelope (hdr\<lparr>hConnectionID := clConnID up\<rparr>) body) w of
        (Err e, w) \<Rightarrow>
          (case Proxy_errorReply ''forward'' (''quackbouncer: upstream request failed: '' @ wire_error_text e) b of
             (r, b) \<Rightarrow> (r, b, w))
      | (Panic, w) \<Rightarrow> (broken, b, w)
      | (Ok (respHdr, respBody), w) \<Rightarrow>
          (Proxy_reply
             (if hConnectionID respHdr = clConnID up then respHdr\<lparr>hConnectionID := hConnectionID hdr\<rparr> else respHdr)
             respBody,
           count_request ''forward'' 200 b, w))"

definition forward :: "'w env \<Rightarrow> header \<Rightarrow> bytes \<Rightarrow> bouncer \<Rightarrow> 'w \<Rightarrow> http_result \<times> bouncer \<times> 'w" where
  "forward env hdr body b w =
     (case map_of (bnConns b) (hConnectionID hdr) of
        None \<Rightarrow> (case Proxy_errorReply ''forward'' no_connection b of (r, b) \<Rightarrow> (r, b, w))
      | Some a \<Rightarrow> forward_send env hdr body a b w)"

text \<open>A request body that could not be read is \<open>None\<close>.\<close>

definition handleRPC :: "'w env \<Rightarrow> string \<Rightarrow> bytes option \<Rightarrow> bouncer \<Rightarrow> 'w \<Rightarrow> http_result \<times> bouncer \<times> 'w" where
  "handleRPC env vid raw b w =
     (case raw of
        None \<Rightarrow> (plain_text 400 ''read failed'', count_request ''read'' 400 b, w)
      | Some raw \<Rightarrow>
          (case SplitEnvelope raw of
             Err e \<Rightarrow> (case Proxy_errorReply ''garbled'' (''quackbouncer: '' @ wire_error_text e) b of (r, b) \<Rightarrow> (r, b, w))
           | Panic \<Rightarrow> (broken, b, w)
           | Ok (hdr, body) \<Rightarrow>
               (if hType hdr = MsgConnectionRequest then handleConnect env vid hdr body b w
                else if hType hdr = MsgDisconnect then handleDisconnect env hdr b w
                else forward env hdr body b w)))"

definition Proxy_ServeHTTP ::
  "'w env \<Rightarrow> string \<Rightarrow> string \<Rightarrow> string \<Rightarrow> bytes option \<Rightarrow> bouncer \<Rightarrow> 'w \<Rightarrow> http_result \<times> bouncer \<times> 'w" where
  "Proxy_ServeHTTP env vid method path raw b w =
     (if path = ''/metrics''
      then (HTTPResp 200 (go_bytes (Metrics_ServeHTTP (sample_gauge b) (bnMetrics b))) None, b, w)
      else if method = ''POST'' \<and> path = ''/quack'' then handleRPC env vid raw b w
      else if method = ''GET'' \<and> path = ''/''
      then (plain_text 200 ''quackbouncer: a pooling proxy for DuckDB Quack endpoints.'', count_request ''banner'' 200 b, w)
      else (plain_text 404 ''no such endpoint'', count_request ''other'' 404 b, w))"

section \<open>Requests in flight\<close>

text \<open>
  A request between two critical sections: what its handler still has to do.  The counters have a
  lock of their own and no handler reads them, so an increment joins the section it follows or
  precedes.
\<close>

datatype task =
    TRequest "bytes option"
  | TTake header
  | TDial header
  | TBind header nat bool
  | TUnbind header
  | TGive header nat
  | TBye header nat
  | TLookup header bytes
  | TSend header bytes nat
  | TDone http_result

fun say :: "http_result \<times> bouncer \<times> 'w \<Rightarrow> task \<times> bouncer \<times> 'w" where
  "say (r, b, w) = (TDone r, b, w)"

definition say_error :: "string \<Rightarrow> string \<Rightarrow> bouncer \<Rightarrow> 'w \<Rightarrow> task \<times> bouncer \<times> 'w" where
  "say_error route msg b w = (case Proxy_errorReply route msg b of (r, b) \<Rightarrow> (TDone r, b, w))"

definition task_dispatch :: "bytes option \<Rightarrow> bouncer \<Rightarrow> 'w \<Rightarrow> task \<times> bouncer \<times> 'w" where
  "task_dispatch raw b w =
     (case raw of
        None \<Rightarrow> (TDone (plain_text 400 ''read failed''), count_request ''read'' 400 b, w)
      | Some raw \<Rightarrow>
          (case SplitEnvelope raw of
             Err e \<Rightarrow> say_error ''garbled'' (''quackbouncer: '' @ wire_error_text e) b w
           | Panic \<Rightarrow> (TDone broken, b, w)
           | Ok (hdr, body) \<Rightarrow>
               (if hType hdr = MsgConnectionRequest
                then (case DecodeConnectionRequest body of
                        Err e \<Rightarrow> say_error ''connect'' (''quackbouncer: '' @ wire_error_text e) b w
                      | Panic \<Rightarrow> (TDone broken, b, w)
                      | Ok req \<Rightarrow>
                          (if bnTokens b (crAuthString req) = None
                           then say_error ''connect'' ''Authentication failed'' b w
                           else (TTake hdr, b, w)))
                else if hType hdr = MsgDisconnect then (TUnbind hdr, b, w)
                else (TLookup hdr body, b, w))))"

fun task_step :: "'w env \<Rightarrow> string \<Rightarrow> task \<Rightarrow> bouncer \<Rightarrow> 'w \<Rightarrow> (task \<times> bouncer \<times> 'w) option" where
  "task_step env vid (TRequest raw) b w = Some (task_dispatch raw b w)"
| "task_step env vid (TTake hdr) b w =
     Some (case pool_take b of (Some a, b) \<Rightarrow> (TBind hdr a True, b, w) | (None, b) \<Rightarrow> (TDial hdr, b, w))"
| "task_step env vid (TDial hdr) b w =
     Some (case pool_dial env b w of
             (Ok a, b, w) \<Rightarrow> (TBind hdr a False, b, w)
           | (Err e, b, w) \<Rightarrow> say_error ''connect'' (''quackbouncer: upstream connect failed: '' @ wire_error_text e) b w
           | (Panic, b, w) \<Rightarrow> (TDone broken, b, w))"
| "task_step env vid (TBind hdr up reused) b w =
     Some (let b = (if reused then b
                    else b\<lparr>bnMetrics := inc ''quackbouncer_upstream_connects_total'' [] (bnMetrics b)\<rparr>);
               b = b\<lparr>bnConns := AList.update vid up (bnConns b)\<rparr>;
               server = clServer (bnStore b ! up)
           in (TDone (Proxy_reply \<lparr>hType = MsgConnectionResponse, hConnectionID = vid, hQueryID = hQueryID hdr\<rparr>
                 (ConnectionResponse_Encode
                    \<lparr>csServerVersion = csServerVersion server @ '' via quackbouncer'',
                     csPlatform = csPlatform server, csQuackVersion = csQuackVersion server\<rparr>)),
               count_request ''connect'' 200 b, w))"
| "task_step env vid (TUnbind hdr) b w =
     Some (let found = map_of (bnConns b) (hConnectionID hdr);
               b = b\<lparr>bnConns := AList.delete (hConnectionID hdr) (bnConns b)\<rparr>
           in case found of None \<Rightarrow> say_error ''disconnect'' no_connection b w | Some up \<Rightarrow> (TGive hdr up, b, w))"
| "task_step env vid (TGive hdr a) b w =
     Some (case pool_give a b of
             (True, b) \<Rightarrow> (TDone (Proxy_reply \<lparr>hType = MsgSuccess, hConnectionID = [], hQueryID = hQueryID hdr\<rparr> EncodeEmptyBody),
                          count_request ''disconnect'' 200 b, w)
           | (False, b) \<Rightarrow> (TBye hdr a, b, w))"
| "task_step env vid (TBye hdr a) b w =
     Some (case pool_close env a b w of
             (b, w) \<Rightarrow> (TDone (Proxy_reply \<lparr>hType = MsgSuccess, hConnectionID = [], hQueryID = hQueryID hdr\<rparr> EncodeEmptyBody),
                       count_request ''disconnect'' 200 b, w))"
| "task_step env vid (TLookup hdr body) b w =
     Some (case map_of (bnConns b) (hConnectionID hdr) of
             None \<Rightarrow> say_error ''forward'' no_connection b w
           | Some a \<Rightarrow> (TSend hdr body a, b, w))"
| "task_step env vid (TSend hdr body a) b w = Some (say (forward_send env hdr body a b w))"
| "task_step env vid (TDone r) b w = None"

text \<open>A request that nobody interrupts.\<close>

fun run_task :: "'w env \<Rightarrow> string \<Rightarrow> nat \<Rightarrow> task \<times> bouncer \<times> 'w \<Rightarrow> task \<times> bouncer \<times> 'w" where
  "run_task env vid 0 s = s"
| "run_task env vid (Suc n) (t, b, w) =
     (case task_step env vid t b w of None \<Rightarrow> (t, b, w) | Some s \<Rightarrow> run_task env vid n s)"

lemma run_done [simp]: "run_task env vid n (TDone r, b, w) = (TDone r, b, w)"
  by (cases n) simp_all

lemma run_say [simp]: "run_task env vid n (say x) = say x"
  by (cases x) simp

lemma tasks_run_handler:
  "run_task env vid 5 (TRequest raw, b, w) = say (handleRPC env vid raw b w)"
proof -
  have "run_task env vid 4 (TTake hdr, b, w) = say (case pool_get env b w of
      (Err e, b, w) \<Rightarrow> (case Proxy_errorReply ''connect'' (''quackbouncer: upstream connect failed: '' @ wire_error_text e) b of (r, b) \<Rightarrow> (r, b, w))
    | (Panic, b, w) \<Rightarrow> (broken, b, w)
    | (Ok (up, reused), b, w) \<Rightarrow>
       (let b = (if reused then b else b\<lparr>bnMetrics := inc ''quackbouncer_upstream_connects_total'' [] (bnMetrics b)\<rparr>);
            b = b\<lparr>bnConns := AList.update vid up (bnConns b)\<rparr>; server = clServer (bnStore b ! up)
        in (Proxy_reply \<lparr>hType = MsgConnectionResponse, hConnectionID = vid, hQueryID = hQueryID hdr\<rparr>
              (ConnectionResponse_Encode \<lparr>csServerVersion = csServerVersion server @ '' via quackbouncer'',
                 csPlatform = csPlatform server, csQuackVersion = csQuackVersion server\<rparr>),
            count_request ''connect'' 200 b, w)))" for hdr
    by (auto simp: eval_nat_numeral pool_get_def say_error_def Let_def split: prod.splits option.splits go.splits)
  moreover have "run_task env vid 4 (TUnbind hdr, b, w) = say (handleDisconnect env hdr b w)" for hdr
    by (auto simp: eval_nat_numeral handleDisconnect_def pool_put_def say_error_def Let_def
        split: prod.splits option.splits bool.splits)
  moreover have "run_task env vid 4 (TLookup hdr body, b, w) = say (forward env hdr body b w)" for hdr body
    by (auto simp: eval_nat_numeral forward_def say_error_def split: prod.splits option.splits)
  moreover have "run_task env vid 5 (t, b, w) =
      (case task_step env vid t b w of None \<Rightarrow> (t, b, w) | Some s \<Rightarrow> run_task env vid 4 s)" for t b w
    by (simp add: eval_nat_numeral split: option.split)
  ultimately show ?thesis
    by (auto simp: handleRPC_def handleConnect_def task_dispatch_def say_error_def
        split: option.split go.split prod.split)
qed

end
