(* ===== verification/Bouncer_Sessions.thy ===== *)
theory Bouncer_Sessions
  imports Bouncer "HOL-Library.Multiset"
begin

text \<open>
  The proxy under concurrent requests.  A schedule lets requests arrive and picks which request runs
  its next section; other requests may run between any two sections of \<^verbatim>\<open>pool.go\<close> and
  \<^verbatim>\<open>proxy.go\<close>, as their mutexes allow.

  Lemmas: who owns an upstream session (the pool, a virtual connection, a request in flight); a
  section moves ownership and never copies it; a forward in flight owns nothing, and in an orderly run
  it uses the session its client is still bound to.
\<close>

section \<open>Schedules\<close>

record 'w system =
  syB :: bouncer
  syW :: 'w
  syTasks :: "task list"

datatype sys_action = Arrive "bytes option" | Step nat string

fun sys_act :: "'w env \<Rightarrow> sys_action \<Rightarrow> 'w system \<Rightarrow> 'w system option" where
  "sys_act env (Arrive raw) s = Some (s\<lparr>syTasks := syTasks s @ [TRequest raw]\<rparr>)"
| "sys_act env (Step i vid) s =
     (if i < length (syTasks s)
      then map_option (\<lambda>(t, b, w). \<lparr>syB = b, syW = w, syTasks = (syTasks s)[i := t]\<rparr>)
             (task_step env vid (syTasks s ! i) (syB s) (syW s))
      else None)"

inductive served :: "'w env \<Rightarrow> 'w system \<Rightarrow> sys_action list \<Rightarrow> 'w system \<Rightarrow> bool" for env s0 where
  served_nil: "served env s0 [] s0"
| served_step: "served env s0 as s \<Longrightarrow> sys_act env a s = Some s' \<Longrightarrow> served env s0 (as @ [a]) s'"

inductive_cases served_snocE: "served env s0 (as @ [a]) s"

definition start :: "(string \<Rightarrow> string option) \<Rightarrow> config \<Rightarrow> int \<Rightarrow> 'w \<Rightarrow> 'w system" where
  "start tokens upstream mx w = \<lparr>syB = newProxy tokens upstream mx, syW = w, syTasks = []\<rparr>"

section \<open>Admission\<close>

text \<open>Requests for a connection that carry a known token.\<close>

definition admits :: "(string \<Rightarrow> string option) \<Rightarrow> bytes option \<Rightarrow> bool" where
  "admits tokens raw \<longleftrightarrow> (\<exists>m hdr body req. raw = Some m \<and> SplitEnvelope m = Ok (hdr, body) \<and> hType hdr = MsgConnectionRequest
     \<and> DecodeConnectionRequest body = Ok req \<and> tokens (crAuthString req) \<noteq> None)"

primrec admission :: "(string \<Rightarrow> string option) \<Rightarrow> sys_action \<Rightarrow> bool" where
  "admission tokens (Arrive raw) = admits tokens raw"
| "admission tokens (Step i vid) = False"

text \<open>Requests that may still be admitted, that may still dial, and that hold a session to bind.\<close>

fun asks :: "(string \<Rightarrow> string option) \<Rightarrow> task \<Rightarrow> nat" where
  "asks tokens (TRequest raw) = (if admits tokens raw then 1 else 0)"
| "asks tokens (TTake hdr) = 1"
| "asks tokens (TDial hdr) = 1"
| "asks tokens t = 0"

fun binds :: "task \<Rightarrow> nat" where
  "binds (TBind hdr a reused) = 1"
| "binds t = 0"

section \<open>Ownership\<close>

fun held :: "task \<Rightarrow> nat list" where
  "held (TBind hdr a reused) = [a]"
| "held (TGive hdr a) = [a]"
| "held (TBye hdr a) = [a]"
| "held t = []"

definition owned :: "bouncer \<Rightarrow> nat multiset" where
  "owned b = mset (bnIdle b) + mset (map snd (bnConns b))"

text \<open>The sessions in use: all but the one a request is about to close.\<close>

fun in_use :: "task \<Rightarrow> nat list" where
  "in_use (TBind hdr a reused) = [a]"
| "in_use (TGive hdr a) = [a]"
| "in_use t = []"

lemma snd_update: "mset (map snd (AList.update k v al)) \<subseteq># add_mset v (mset (map snd al))"
  by (induction al) (auto simp: add_mset_commute)

lemma fst_update: "fst ` set (AList.update k v al) = insert k (fst ` set al)"
  by (induction al) auto

lemma snd_update_fresh: "k \<notin> fst ` set al \<Longrightarrow> map snd (AList.update k v al) = map snd al @ [v]"
  by (induction al) auto

lemma snd_delete: "map_of al k = Some v \<Longrightarrow> add_mset v (mset (map snd (AList.delete k al))) \<subseteq># mset (map snd al)"
proof (induction al)
  case (Cons x al)
  have "mset (map snd (AList.delete k al)) \<subseteq># mset (map snd al)"
    by (simp add: AList.delete_eq image_mset_subseteq_mono)
  then show ?case using Cons by (cases x) (auto simp: AList.delete_eq)
qed simp

lemma delete_absent: "k \<notin> fst ` set al \<Longrightarrow> AList.delete k al = al"
  by (induction al) auto

lemma snd_delete_eq:
  "map_of al k = Some v \<Longrightarrow> distinct (map fst al) \<Longrightarrow> add_mset v (mset (map snd (AList.delete k al))) = mset (map snd al)"
proof (induction al)
  case (Cons x al)
  then show ?case using delete_absent [of k al] by (cases x) auto
qed simp

lemmas bouncer_simps = say_error_def Proxy_errorReply_def count_request_def Let_def

lemma task_dispatch_frame:
  assumes "task_dispatch raw b w = (t', b', w')"
  shows "held t' = [] \<and> w' = w \<and> bnIdle b' = bnIdle b \<and> bnConns b' = bnConns b \<and> bnStore b' = bnStore b
    \<and> bnTokens b' = bnTokens b \<and> bnMax b' = bnMax b \<and> bnUpstream b' = bnUpstream b"
  using assms by (auto simp: task_dispatch_def bouncer_simps split: option.splits go.splits if_splits prod.splits)

lemma dispatch_asks:
  assumes "task_dispatch raw b w = (t', b', w')"
  shows "asks (bnTokens b) t' \<le> asks (bnTokens b) (TRequest raw) \<and> binds t' = 0"
  using assms by (auto simp: task_dispatch_def bouncer_simps admits_def split: option.splits go.splits if_splits prod.splits)

lemma forward_send_frame:
  assumes "forward_send env hdr body a b w = (r, b', w')"
  shows "bnIdle b' = bnIdle b \<and> bnConns b' = bnConns b \<and> bnStore b' = bnStore b
    \<and> bnTokens b' = bnTokens b \<and> bnMax b' = bnMax b \<and> bnUpstream b' = bnUpstream b"
  using assms by (auto simp: forward_send_def bouncer_simps split: go.splits prod.splits)

lemma Connect_open: "Connect ps pf post ce wt cfg w = (Ok c, w') \<Longrightarrow> \<not> clClosed c"
  by (auto simp: Connect_def accept_connection_def serverError_def Let_def split: go.splits prod.splits if_splits)
    (auto simp: go_bind_eq_Ok split: if_splits)

lemma Client_Close_closed: "Client_Close post c w = (r, c', w') \<Longrightarrow> clClosed c'"
  by (auto simp: Client_Close_def Let_def split: go.splits prod.splits if_splits)

lemma say_iff: "say x = (t, b, w) \<longleftrightarrow> (\<exists>r. x = (r, b, w) \<and> t = TDone r)"
  by (cases x) auto

text \<open>What a section does to the pool and the virtual connections.\<close>

lemma task_stepE:
  assumes "task_step env vid t b w = Some (t', b', w')"
  obtains (frame) "held t' = []" "held t = []" "asks (bnTokens b) t' \<le> asks (bnTokens b) t" "bnIdle b' = bnIdle b" "bnConns b' = bnConns b" "bnStore b' = bnStore b"
  | (taken) hdr a where "t = TTake hdr" "t' = TBind hdr a True" "bnIdle b = bnIdle b' @ [a]" "bnConns b' = bnConns b" "bnStore b' = bnStore b"
  | (dialled) hdr c where "t = TDial hdr" "t' = TBind hdr (length (bnStore b)) False" "bnIdle b' = bnIdle b" "bnConns b' = bnConns b"
      "bnStore b' = bnStore b @ [c]" "\<not> clClosed c"
  | (bound) hdr a reused r where "t = TBind hdr a reused" "t' = TDone r" "bnIdle b' = bnIdle b" "bnConns b' = AList.update vid a (bnConns b)"
      "bnStore b' = bnStore b"
  | (unbound) hdr a where "t = TUnbind hdr" "t' = TGive hdr a" "map_of (bnConns b) (hConnectionID hdr) = Some a" "bnIdle b' = bnIdle b"
      "bnConns b' = AList.delete (hConnectionID hdr) (bnConns b)" "bnStore b' = bnStore b"
  | (given) hdr a r where "t = TGive hdr a" "t' = TDone r" "int (length (bnIdle b)) < bnMax b" "bnIdle b' = bnIdle b @ [a]"
      "bnConns b' = bnConns b" "bnStore b' = bnStore b"
  | (full) hdr a where "t = TGive hdr a" "t' = TBye hdr a" "bnIdle b' = bnIdle b" "bnConns b' = bnConns b" "bnStore b' = bnStore b"
  | (closed) hdr a c r where "t = TBye hdr a" "t' = TDone r" "clClosed c" "bnIdle b' = bnIdle b" "bnConns b' = bnConns b"
      "bnStore b' = (bnStore b)[a := c]"
proof (cases t)
  case (TRequest raw)
  then show ?thesis using assms task_dispatch_frame [of raw b w t' b' w'] dispatch_asks [of raw b w t' b' w'] by (intro frame) simp_all
next
  case (TTake hdr)
  show ?thesis
  proof (cases "bnIdle b = []")
    case True
    then show ?thesis using assms TTake by (intro frame) (auto simp: pool_take_def)
  next
    case False
    then show ?thesis using assms TTake by (intro taken) (auto simp: pool_take_def)
  qed
next
  case (TDial hdr)
  obtain r w1 where dial: "Connect (enScheme env) (enPlatform env) (enPost env) (enCtxErr env) (enWait env) (bnUpstream b) w = (r, w1)"
    by fastforce
  show ?thesis
  proof (cases r)
    case (Ok c)
    then show ?thesis using assms TDial dial Connect_open [OF dial [unfolded Ok]] by (intro dialled) (auto simp: pool_dial_def)
  qed (use assms TDial dial in \<open>auto simp: pool_dial_def bouncer_simps intro!: frame\<close>)
next
  case (TBind hdr a reused)
  then show ?thesis using assms by (intro bound) (auto simp: bouncer_simps)
next
  case (TUnbind hdr)
  show ?thesis
  proof (cases "map_of (bnConns b) (hConnectionID hdr)")
    case None
    then have "hConnectionID hdr \<notin> fst ` set (bnConns b)" by (simp add: map_of_eq_None_iff)
    then have "AList.delete (hConnectionID hdr) (bnConns b) = bnConns b" by (rule delete_absent)
    then show ?thesis using assms TUnbind None by (intro frame) (auto simp: bouncer_simps)
  next
    case (Some a)
    then show ?thesis using assms TUnbind by (intro unbound) (auto simp: bouncer_simps)
  qed
next
  case (TGive hdr a)
  show ?thesis
  proof (cases "int (length (bnIdle b)) < bnMax b")
    case True
    then show ?thesis using assms TGive by (intro given) (auto simp: pool_give_def bouncer_simps)
  next
    case False
    then show ?thesis using assms TGive by (intro full) (auto simp: pool_give_def bouncer_simps)
  qed
next
  case (TBye hdr a)
  obtain r c w1 where c: "Client_Close (enPost env) (bnStore b ! a) w = (r, c, w1)" by (cases "Client_Close (enPost env) (bnStore b ! a) w")
  then show ?thesis using assms TBye Client_Close_closed [OF c] by (intro closed) (auto simp: pool_close_def bouncer_simps)
next
  case (TLookup hdr body)
  then show ?thesis using assms by (intro frame) (auto simp: bouncer_simps split: option.splits)
next
  case (TSend hdr body a)
  then obtain r where "forward_send env hdr body a b w = (r, b', w')" "t' = TDone r" using assms by (auto simp: say_iff)
  then show ?thesis using TSend forward_send_frame [of env hdr body a b w r b' w'] by (intro frame) simp_all
next
  case (TDone r)
  have False using assms TDone by simp
  then show ?thesis ..
qed

lemma task_step_constants:
  "task_step env vid t b w = Some (t', b', w') \<Longrightarrow> bnTokens b' = bnTokens b \<and> bnMax b' = bnMax b \<and> bnUpstream b' = bnUpstream b"
  by (cases t) (auto simp: pool_take_def pool_dial_def pool_give_def pool_close_def bouncer_simps say_iff
      dest: task_dispatch_frame forward_send_frame split: option.splits prod.splits go.splits bool.splits if_splits)

lemma task_moves:
  assumes "task_step env vid t b w = Some (t', b', w')"
  obtains new where "new = {#} \<and> length (bnStore b') = length (bnStore b)
      \<or> new = {#length (bnStore b)#} \<and> length (bnStore b') = Suc (length (bnStore b)) \<and> \<not> clClosed (bnStore b' ! length (bnStore b))"
    and "mset (held t') + owned b' \<subseteq># mset (held t) + owned b + new"
    and "mset (in_use t') + owned b' \<subseteq># mset (in_use t) + owned b + new"
    and "\<forall>a < length (bnStore b). bnStore b' ! a = bnStore b ! a \<or> (\<exists>hdr. t = TBye hdr a \<and> held t' = [] \<and> owned b' = owned b)"
proof -
  have used: "mset (in_use t) = mset (held t) \<or> in_use t = [] \<and> (\<exists>hdr a. t = TBye hdr a)" for t by (cases t) auto
  have nil: "in_use t = []" if "held t = []" for t using that by (cases t) auto
  from assms show ?thesis
  proof (cases rule: task_stepE)
    case (bound hdr a reused r)
    then show ?thesis using snd_update [of vid a "bnConns b"] nil by (intro that [of "{#}"]) (auto simp: owned_def)
  next
    case (unbound hdr a)
    then show ?thesis using snd_delete [OF unbound(3)] by (intro that [of "{#}"]) (auto simp: owned_def)
  next
    case (dialled hdr c)
    then show ?thesis by (intro that [of "{#length (bnStore b)#}"]) (auto simp: owned_def nth_append)
  next
    case (closed hdr a c r)
    then show ?thesis using nil by (intro that [of "{#}"]) (auto simp: owned_def nth_list_update)
  qed (use nil in \<open>auto simp: owned_def intro!: that [of "{#}"]\<close>)
qed

section \<open>The invariant\<close>

definition holders :: "'w system \<Rightarrow> nat multiset" where
  "holders s = owned (syB s) + sum_list (map (\<lambda>t. mset (held t)) (syTasks s))"

definition users :: "'w system \<Rightarrow> nat multiset" where
  "users s = owned (syB s) + sum_list (map (\<lambda>t. mset (in_use t)) (syTasks s))"

definition safe :: "int \<Rightarrow> 'w system \<Rightarrow> bool" where
  "safe mx s \<longleftrightarrow>
     (\<forall>a. count (holders s) a \<le> 1)
     \<and> (\<forall>a \<in># holders s. a < length (bnStore (syB s)))
     \<and> (\<forall>a \<in># users s. \<not> clClosed (bnStore (syB s) ! a))
     \<and> distinct (map fst (bnConns (syB s)))
     \<and> bnMax (syB s) = mx \<and> int (length (bnIdle (syB s))) \<le> max 0 mx"

lemma moved_total:
  fixes f :: "task \<Rightarrow> nat multiset"
  assumes "i < length ts" "f t' + o' \<subseteq># f (ts ! i) + o1 + new"
  shows "o' + sum_list (map f (ts[i := t'])) \<subseteq># o1 + sum_list (map f ts) + new"
proof -
  have "o' + (sum_list (map f (ts[i := t'])) + f (ts ! i)) = (f t' + o') + sum_list (map f ts)"
    using sum_list_update_add [OF assms(1), of f t'] by (simp add: ac_simps)
  also have "\<dots> \<subseteq># (f (ts ! i) + o1 + new) + sum_list (map f ts)" using assms(2) by simp
  finally show ?thesis by (simp add: ac_simps)
qed

lemma users_holders: "users s \<subseteq># holders s"
proof -
  have "mset (in_use t) \<subseteq># mset (held t)" for t by (cases t) auto
  then have "sum_list (map (\<lambda>t. mset (in_use t)) ts) \<subseteq># sum_list (map (\<lambda>t. mset (held t)) ts)" for ts :: "task list"
    by (induction ts) (auto intro: subset_mset.add_mono)
  then show ?thesis by (simp add: users_def holders_def)
qed

lemma safe_step:
  assumes safe: "safe mx s" and act: "sys_act env a s = Some s'"
  shows "safe mx s'"
proof (cases a)
  case (Arrive raw)
  then have "holders s' = holders s" "users s' = users s" "syB s' = syB s"
    using act by (auto simp: holders_def users_def)
  then show ?thesis using safe by (simp add: safe_def)
next
  case (Step i vid)
  then obtain t' b' w' where i: "i < length (syTasks s)"
    and st: "task_step env vid (syTasks s ! i) (syB s) (syW s) = Some (t', b', w')"
    and s': "s' = \<lparr>syB = b', syW = w', syTasks = (syTasks s)[i := t']\<rparr>"
    using act by (auto split: if_splits)
  from st obtain new where new: "new = {#} \<and> length (bnStore b') = length (bnStore (syB s))
      \<or> new = {#length (bnStore (syB s))#} \<and> length (bnStore b') = Suc (length (bnStore (syB s)))
        \<and> \<not> clClosed (bnStore b' ! length (bnStore (syB s)))"
    and moves: "mset (held t') + owned b' \<subseteq># mset (held (syTasks s ! i)) + owned (syB s) + new"
      "mset (in_use t') + owned b' \<subseteq># mset (in_use (syTasks s ! i)) + owned (syB s) + new"
    and store: "\<forall>a < length (bnStore (syB s)). bnStore b' ! a = bnStore (syB s) ! a
      \<or> (\<exists>hdr. syTasks s ! i = TBye hdr a \<and> held t' = [] \<and> owned b' = owned (syB s))"
    by (rule task_moves)
  have H: "holders s' \<subseteq># holders s + new" and U: "users s' \<subseteq># users s + new"
    using moved_total [OF i moves(1)] moved_total [OF i moves(2)] by (simp_all add: s' holders_def users_def)
  have one: "count (holders s) a \<le> 1" and inside: "a \<in># holders s \<Longrightarrow> a < length (bnStore (syB s))"
    and opened: "a \<in># users s \<Longrightarrow> \<not> clClosed (bnStore (syB s) ! a)" for a
    using safe by (auto simp: safe_def)
  have out: "count (holders s) (length (bnStore (syB s))) = 0"
    using inside by (force simp: not_in_iff [symmetric])
  have "count (holders s') a \<le> 1" for a
    using mset_subset_eq_count [OF H, of a] one [of a] out new by (auto split: if_splits)
  moreover have "a < length (bnStore b')" if "a \<in># holders s'" for a
    using mset_subset_eqD [OF H that] inside [of a] new by auto
  moreover have "\<not> clClosed (bnStore b' ! a)" if a: "a \<in># users s'" for a
  proof (cases "a < length (bnStore (syB s))")
    case True
    then have u: "a \<in># users s" using mset_subset_eqD [OF U a] new by auto
    have "bnStore b' ! a = bnStore (syB s) ! a"
    proof (rule ccontr)
      assume "bnStore b' ! a \<noteq> bnStore (syB s) ! a"
      then obtain hdr where bye: "syTasks s ! i = TBye hdr a" "held t' = []" "owned b' = owned (syB s)" using store True by blast
      have sum: "holders s' + {#a#} = holders s"
        using sum_list_update_add [OF i, of "\<lambda>t. mset (held t)" t'] bye by (simp add: s' holders_def ac_simps)
      have "count (holders s' + {#a#}) a \<le> 1" unfolding sum by (rule one)
      moreover have "a \<in># holders s'" by (rule mset_subset_eqD [OF users_holders a])
      ultimately show False by (simp add: count_eq_zero_iff)
    qed
    then show ?thesis using opened [OF u] by simp
  next
    case False
    then have "a \<notin># users s" using inside [of a] mset_subset_eqD [OF users_holders, of a s] by blast
    then show ?thesis using mset_subset_eqD [OF U a] new by (auto split: if_splits)
  qed
  moreover have "distinct (map fst (bnConns b')) \<and> bnMax b' = mx \<and> int (length (bnIdle b')) \<le> max 0 mx"
    using st
  proof (cases rule: task_stepE)
    case (taken hdr a)
    then show ?thesis using safe task_step_constants [OF st] by (auto simp: safe_def)
  qed (use safe task_step_constants [OF st] in \<open>auto simp: safe_def distinct_update distinct_delete\<close>)
  ultimately show ?thesis by (simp add: safe_def s')
qed

lemma served_safe: "served env (start tokens upstream mx w) as s \<Longrightarrow> safe mx s"
proof (induction rule: served.induct)
  case served_nil
  then show ?case by (simp add: safe_def start_def newProxy_def holders_def users_def owned_def)
qed (rule safe_step)

section \<open>Demand\<close>

definition demand :: "(string \<Rightarrow> string option) \<Rightarrow> 'w system \<Rightarrow> nat" where
  "demand tokens s = sum_list (map (asks tokens) (syTasks s))"

text \<open>Sections dial and bind only what was admitted.\<close>

lemma step_demand:
  assumes "task_step env vid t b w = Some (t', b', w')"
  shows "length (bnStore b') + asks (bnTokens b) t' \<le> length (bnStore b) + asks (bnTokens b) t
    \<and> length (bnConns b') + length (held t') + asks (bnTokens b) t' \<le> length (bnConns b) + length (held t) + asks (bnTokens b) t"
proof -
  have upd: "length (AList.update k v al) \<le> Suc (length al)" for k :: string and v :: nat and al by (induction al) auto
  have "map_of al k = Some v \<Longrightarrow> length (AList.delete k al) < length al" for k :: string and al :: "(string \<times> nat) list" and v
    by (metis snd_delete length_map size_mset size_add_mset size_mset_mono Suc_le_eq)
  with assms upd show ?thesis by (cases rule: task_stepE) (auto simp: less_eq_Suc_le)
qed

lemma step_idle:
  assumes "task_step env vid t b w = Some (t', b', w')"
    and "asks (bnTokens b) t = 0" "held t = []" "bnConns b = []" "\<forall>hdr body a. t \<noteq> TSend hdr body a"
  shows "w' = w \<and> (\<forall>hdr body a. t' \<noteq> TSend hdr body a)"
  using assms by (cases t) (auto simp: task_dispatch_def bouncer_simps split: option.splits go.splits if_splits prod.splits)

definition bounded :: "(string \<Rightarrow> string option) \<Rightarrow> 'w \<Rightarrow> nat \<Rightarrow> 'w system \<Rightarrow> bool" where
  "bounded tokens w0 n s \<longleftrightarrow> bnTokens (syB s) = tokens
     \<and> length (bnStore (syB s)) + demand tokens s \<le> n
     \<and> length (bnConns (syB s)) + sum_list (map (length \<circ> held) (syTasks s)) + demand tokens s \<le> n
     \<and> (n = 0 \<longrightarrow> syW s = w0 \<and> (\<forall>hdr body a. TSend hdr body a \<notin> set (syTasks s)))"

lemma bounded_step:
  assumes inv: "bounded tokens w0 n s" and act: "sys_act env a s = Some s'"
  shows "bounded tokens w0 (n + (if admission tokens a then 1 else 0)) s'"
proof (cases a)
  case (Arrive raw)
  then show ?thesis using assms by (auto simp: bounded_def demand_def)
next
  case (Step i vid)
  then obtain t' b' w' where i: "i < length (syTasks s)"
    and st: "task_step env vid (syTasks s ! i) (syB s) (syW s) = Some (t', b', w')"
    and s': "s' = \<lparr>syB = b', syW = w', syTasks = (syTasks s)[i := t']\<rparr>"
    using act by (auto split: if_splits)
  have tk: "bnTokens (syB s) = tokens" "bnTokens b' = tokens" using inv task_step_constants [OF st] by (simp_all add: bounded_def)
  have d: "demand tokens s' + asks tokens (syTasks s ! i) = demand tokens s + asks tokens t'"
    and h: "sum_list (map (length \<circ> held) (syTasks s')) + length (held (syTasks s ! i))
      = sum_list (map (length \<circ> held) (syTasks s)) + length (held t')"
    using sum_list_update_add [OF i, of "asks tokens" t'] sum_list_update_add [OF i, of "length \<circ> held" t']
    by (simp_all add: demand_def s')
  have "syW s' = w0 \<and> (\<forall>hdr body a. TSend hdr body a \<notin> set (syTasks s'))" if "n = 0"
  proof -
    have in_tasks: "syTasks s ! i \<in> set (syTasks s)" using i by simp
    then have "asks tokens (syTasks s ! i) = 0" "held (syTasks s ! i) = []" "bnConns (syB s) = []"
      "\<forall>hdr body a. syTasks s ! i \<noteq> TSend hdr body a" "syW s = w0"
      using inv that by (auto simp: bounded_def demand_def)
    then have "w' = w0" "\<forall>hdr body a. t' \<noteq> TSend hdr body a" using step_idle [OF st] tk(1) by auto
    then show ?thesis
      using inv that set_update_subset_insert [of "syTasks s" i t'] by (auto simp: bounded_def s')
  qed
  then show ?thesis
    using inv d h step_demand [OF st] tk Step by (auto simp: bounded_def s')
qed

lemma served_bounded:
  "served env (start tokens upstream mx w) as s \<Longrightarrow> bounded tokens w (length (filter (admission tokens) as)) s"
proof (induction rule: served.induct)
  case served_nil
  then show ?case by (simp add: bounded_def start_def newProxy_def demand_def)
next
  case (served_step as s a s')
  then show ?case using bounded_step [of tokens w _ s env a s'] by fastforce
qed

section \<open>No session is lost\<close>

primrec drawn :: "sys_action \<Rightarrow> string list" where
  "drawn (Arrive raw) = []"
| "drawn (Step i vid) = [vid]"

lemma task_conserves:
  assumes "task_step env vid t b w = Some (t', b', w')" "vid \<notin> fst ` set (bnConns b)" "distinct (map fst (bnConns b))"
    and "a \<in># mset (held t) + owned b \<and> a < length (bnStore b) \<or> a = length (bnStore b) \<and> a < length (bnStore b')"
  shows "a \<in># mset (held t') + owned b' \<or> clClosed (bnStore b' ! a)"
  using assms(1)
proof (cases rule: task_stepE)
  case (bound hdr a' reused r)
  then show ?thesis using assms(2,4) by (auto simp: owned_def snd_update_fresh)
next
  case (unbound hdr a')
  have "snd ` set (bnConns b) = insert a' (snd ` set (bnConns b'))"
    using arg_cong [OF snd_delete_eq [OF unbound(3) assms(3)], of set_mset] unbound(5) by simp
  then have "set_mset (mset (held t') + owned b') = set_mset (mset (held t) + owned b)"
    using unbound by (simp add: owned_def)
  then show ?thesis using assms(4) unbound(6) by auto
qed (use assms(4) in \<open>auto simp: owned_def nth_append\<close>)

lemma task_keeps_closed:
  assumes "task_step env vid t b w = Some (t', b', w')" "a < length (bnStore b)" "clClosed (bnStore b ! a)"
  shows "clClosed (bnStore b' ! a)"
  using assms(1)
proof (cases rule: task_stepE)
  case (closed hdr a' c r)
  then show ?thesis using assms(2,3) by (cases "a' = a") simp_all
qed (use assms(2,3) in \<open>auto simp: nth_append\<close>)

lemma task_keys: "task_step env vid t b w = Some (t', b', w') \<Longrightarrow> fst ` set (bnConns b') \<subseteq> insert vid (fst ` set (bnConns b))"
  by (erule task_stepE) (auto simp: AList.delete_eq fst_update)

definition kept :: "string set \<Rightarrow> 'w system \<Rightarrow> bool" where
  "kept ids s \<longleftrightarrow> fst ` set (bnConns (syB s)) \<subseteq> ids
     \<and> (\<forall>a < length (bnStore (syB s)). a \<in># holders s \<or> clClosed (bnStore (syB s) ! a))"

lemma member_subset:
  fixes f :: "'a \<Rightarrow> 'b multiset"
  shows "x \<in> set xs \<Longrightarrow> f x \<subseteq># sum_list (map f xs)"
proof (induction xs)
  case (Cons y xs)
  show ?case
  proof (cases "x = y")
    case False
    then have "f x \<subseteq># sum_list (map f xs)" using Cons by simp
    then show ?thesis by (simp add: subset_mset.add_increasing)
  qed simp
qed simp

lemma kept_step:
  assumes kept: "kept ids s" and safe: "safe mx s" and act: "sys_act env a s = Some s'" and fresh: "set (drawn a) \<inter> ids = {}"
  shows "kept (set (drawn a) \<union> ids) s'"
proof (cases a)
  case (Arrive raw)
  then have "holders s' = holders s" "syB s' = syB s" using act by (auto simp: holders_def)
  then show ?thesis using kept Arrive by (simp add: kept_def)
next
  case (Step i vid)
  then obtain t' b' w' where i: "i < length (syTasks s)"
    and st: "task_step env vid (syTasks s ! i) (syB s) (syW s) = Some (t', b', w')"
    and s': "s' = \<lparr>syB = b', syW = w', syTasks = (syTasks s)[i := t']\<rparr>"
    using act by (auto split: if_splits)
  let ?t = "syTasks s ! i" and ?b = "syB s"
  define rest where "rest = sum_list (map (\<lambda>t. mset (held t)) (syTasks s)) - mset (held ?t)"
  have "mset (held ?t) \<subseteq># sum_list (map (\<lambda>t. mset (held t)) (syTasks s))"
    using i by (intro member_subset) simp
  then have sum: "sum_list (map (\<lambda>t. mset (held t)) (syTasks s)) = rest + mset (held ?t)" by (simp add: rest_def)
  then have sum': "sum_list (map (\<lambda>t. mset (held t)) (syTasks s')) = rest + mset (held t')"
    using sum_list_update_add [OF i, of "\<lambda>t. mset (held t)" t'] by (simp add: s' ac_simps)
  have vid: "vid \<notin> fst ` set (bnConns ?b)" using kept fresh Step by (auto simp: kept_def)
  have dist: "distinct (map fst (bnConns ?b))" using safe by (simp add: safe_def)
  have "a \<in># holders s' \<or> clClosed (bnStore b' ! a)" if a: "a < length (bnStore b')" for a
  proof (cases "a < length (bnStore ?b)")
    case True
    then consider "a \<in># rest" | "a \<in># mset (held ?t) + owned ?b" | "clClosed (bnStore ?b ! a)"
      using kept sum by (auto simp: kept_def holders_def)
    then show ?thesis
    proof cases
      case 2
      then show ?thesis using task_conserves [OF st vid dist, of a] True sum' by (auto simp: holders_def s')
    qed (use sum' task_keeps_closed [OF st True] in \<open>auto simp: holders_def\<close>)
  next
    case False
    have "length (bnStore b') \<le> Suc (length (bnStore ?b))" using st by (cases rule: task_stepE) auto
    then show ?thesis using task_conserves [OF st vid dist, of a] a False sum' by (auto simp: holders_def s')
  qed
  then show ?thesis using kept task_keys [OF st] Step by (auto simp: kept_def s')
qed

lemma served_kept:
  "served env (start tokens upstream mx w) as s \<Longrightarrow> distinct (concat (map drawn as)) \<Longrightarrow> kept (set (concat (map drawn as))) s"
proof (induction rule: served.induct)
  case served_nil
  then show ?case by (simp add: kept_def start_def newProxy_def)
next
  case (served_step as s a s')
  then have "kept (set (drawn a) \<union> set (concat (map drawn as))) s'"
    by (intro kept_step [OF _ served_safe [OF served_step(1)] served_step(2)]) auto
  then show ?case by (simp add: Un_commute)
qed

lemma safe_exclusive:
  assumes "safe mx s"
  shows "distinct (bnIdle (syB s) @ map snd (bnConns (syB s)) @ concat (map held (syTasks s)))"
    and "\<forall>a \<in> set (bnIdle (syB s) @ map snd (bnConns (syB s)) @ concat (map in_use (syTasks s))).
      a < length (bnStore (syB s)) \<and> \<not> clClosed (bnStore (syB s) ! a)"
proof -
  have total: "mset (bnIdle (syB s) @ map snd (bnConns (syB s)) @ concat (map held (syTasks s))) = holders s"
    by (simp add: holders_def owned_def mset_concat comp_def)
  have "count (holders s) a \<le> 1" for a using assms by (simp add: safe_def)
  then show "distinct (bnIdle (syB s) @ map snd (bnConns (syB s)) @ concat (map held (syTasks s)))"
    unfolding total [symmetric] by (subst distinct_count_atmost_1) (metis count_mset_0_iff le_less less_one)
  have "mset (bnIdle (syB s) @ map snd (bnConns (syB s)) @ concat (map in_use (syTasks s))) = users s"
    by (simp add: users_def owned_def mset_concat comp_def)
  then have users: "set_mset (users s) = set (bnIdle (syB s) @ map snd (bnConns (syB s)) @ concat (map in_use (syTasks s)))"
    by (metis set_mset_mset)
  show "\<forall>a \<in> set (bnIdle (syB s) @ map snd (bnConns (syB s)) @ concat (map in_use (syTasks s))).
      a < length (bnStore (syB s)) \<and> \<not> clClosed (bnStore (syB s) ! a)"
    using assms set_mset_mono [OF users_holders [of s]] unfolding users [symmetric] safe_def by auto
qed

section \<open>Forwards\<close>

text \<open>
  A forward looks its session up under the lock and uses it after releasing it.  A run is orderly if
  no client disconnects while one of its own forwards is between the two.
\<close>

fun sends_for :: "string \<Rightarrow> task \<Rightarrow> bool" where
  "sends_for v (TSend hdr body a) = (hConnectionID hdr = v)"
| "sends_for v t = False"

primrec patient :: "'w system \<Rightarrow> sys_action \<Rightarrow> bool" where
  "patient s (Arrive raw) = True"
| "patient s (Step i vid) =
     (case syTasks s ! i of TUnbind hdr \<Rightarrow> \<not> list_ex (sends_for (hConnectionID hdr)) (syTasks s) | _ \<Rightarrow> True)"

inductive orderly :: "'w env \<Rightarrow> 'w system \<Rightarrow> sys_action list \<Rightarrow> 'w system \<Rightarrow> bool" for env s0 where
  orderly_nil: "orderly env s0 [] s0"
| orderly_step: "orderly env s0 as s \<Longrightarrow> patient s a \<Longrightarrow> sys_act env a s = Some s' \<Longrightarrow> orderly env s0 (as @ [a]) s'"

lemma orderly_served: "orderly env s0 as s \<Longrightarrow> served env s0 as s"
  by (induction rule: orderly.induct) (auto intro: served.intros)

definition anchored :: "'w system \<Rightarrow> bool" where
  "anchored s \<longleftrightarrow> (\<forall>hdr body a. TSend hdr body a \<in> set (syTasks s) \<longrightarrow> map_of (bnConns (syB s)) (hConnectionID hdr) = Some a)"

lemma task_dispatch_sends: "task_dispatch raw b w = (t', b', w') \<Longrightarrow> t' \<noteq> TSend hdr body a"
  by (auto simp: task_dispatch_def bouncer_simps split: option.splits go.splits if_splits prod.splits)

lemma task_step_sends:
  assumes "task_step env vid t b w = Some (TSend hdr body a, b', w')"
  shows "map_of (bnConns b) (hConnectionID hdr) = Some a \<and> bnConns b' = bnConns b"
  using assms
  by (cases t) (auto simp: pool_take_def pool_dial_def pool_give_def pool_close_def bouncer_simps say_iff
      dest: task_dispatch_sends split: option.splits prod.splits go.splits bool.splits if_splits)

lemma anchored_step:
  assumes anch: "anchored s" and pat: "patient s a" and act: "sys_act env a s = Some s'"
    and fresh: "set (drawn a) \<inter> fst ` set (bnConns (syB s)) = {}"
  shows "anchored s'"
proof (cases a)
  case (Arrive raw)
  then show ?thesis using anch act by (auto simp: anchored_def)
next
  case (Step i vid)
  then obtain t' b' w' where i: "i < length (syTasks s)"
    and st: "task_step env vid (syTasks s ! i) (syB s) (syW s) = Some (t', b', w')"
    and s': "s' = \<lparr>syB = b', syW = w', syTasks = (syTasks s)[i := t']\<rparr>"
    using act by (auto split: if_splits)
  have old: "map_of (bnConns b') (hConnectionID hdr) = Some up" if t: "TSend hdr body up \<in> set (syTasks s)" for hdr body up
  proof -
    have m: "map_of (bnConns (syB s)) (hConnectionID hdr) = Some up" using anch t by (simp add: anchored_def)
    then have key: "hConnectionID hdr \<in> fst ` set (bnConns (syB s))" by (metis map_of_eq_None_iff option.distinct(1))
    from st show ?thesis
    proof (cases rule: task_stepE)
      case (bound hdr' a' reused r)
      then show ?thesis using m key fresh Step by (auto simp: update_conv')
    next
      case (unbound hdr' a')
      then have "hConnectionID hdr' \<noteq> hConnectionID hdr" using pat Step t by (auto simp: list_ex_iff)
      then show ?thesis using unbound m by (simp add: delete_conv')
    qed (use m in simp_all)
  qed
  have "map_of (bnConns b') (hConnectionID hdr) = Some up" if "TSend hdr body up \<in> set ((syTasks s)[i := t'])" for hdr body up
    using that old set_update_subset_insert [of "syTasks s" i t'] task_step_sends [of env vid "syTasks s ! i" "syB s" "syW s" hdr body up b' w'] st
    by auto
  then show ?thesis by (simp add: anchored_def s')
qed

lemma orderly_anchored:
  "orderly env (start tokens upstream mx w) as s \<Longrightarrow> distinct (concat (map drawn as)) \<Longrightarrow> anchored s"
proof (induction rule: orderly.induct)
  case orderly_nil
  then show ?case by (simp add: anchored_def start_def)
next
  case (orderly_step as s a s')
  have "kept (set (concat (map drawn as))) s"
    using served_kept [OF orderly_served [OF orderly_step(1)]] orderly_step.prems by simp
  then have "set (drawn a) \<inter> fst ` set (bnConns (syB s)) = {}" using orderly_step.prems by (auto simp: kept_def)
  then show ?case using anchored_step [OF _ orderly_step(2,3)] orderly_step by simp
qed

section \<open>A schedule to look at\<close>

fun sys_run :: "'w env \<Rightarrow> sys_action list \<Rightarrow> 'w system \<Rightarrow> 'w system option" where
  "sys_run env [] s = Some s"
| "sys_run env (a # as) s = (case sys_act env a s of None \<Rightarrow> None | Some s \<Rightarrow> sys_run env as s)"

lemma sys_run_served:
  "served env s0 as s \<Longrightarrow> sys_run env bs s = Some s' \<Longrightarrow> served env s0 (as @ bs) s'"
proof (induction bs arbitrary: as s)
  case (Cons b bs)
  then obtain s1 where "sys_act env b s = Some s1" "sys_run env bs s1 = Some s'" by (auto split: option.splits)
  then show ?case using Cons.IH [OF served_step [OF Cons.prems(1)]] by simp
qed simp

fun orderly_run :: "'w env \<Rightarrow> sys_action list \<Rightarrow> 'w system \<Rightarrow> 'w system option" where
  "orderly_run env [] s = Some s"
| "orderly_run env (a # as) s =
     (if patient s a then case sys_act env a s of None \<Rightarrow> None | Some s \<Rightarrow> orderly_run env as s else None)"

lemma orderly_run_orderly:
  "orderly env s0 as s \<Longrightarrow> orderly_run env bs s = Some s' \<Longrightarrow> orderly env s0 (as @ bs) s'"
proof (induction bs arbitrary: as s)
  case (Cons b bs)
  then obtain s1 where "patient s b" "sys_act env b s = Some s1" "orderly_run env bs s1 = Some s'"
    by (auto split: option.splits if_splits)
  then show ?case using Cons.IH [OF orderly_step [OF Cons.prems(1)]] by simp
qed simp

text \<open>Requests of two clients for one proxy, to run concrete schedules.\<close>

definition sample_env :: "nat env" where
  "sample_env = \<lparr>enScheme = (\<lambda>_. Some ''http''), enPlatform = ''linux_amd64'',
     enPost = (\<lambda>url ct m n. (HTTPResp 200 (EncodeEnvelope \<lparr>hType = MsgConnectionResponse, hConnectionID = ''c1'', hQueryID = QueryIDAbsent\<rparr>
       (ConnectionResponse_Encode sample_server)) None, n + 1)),
     enCtxErr = (\<lambda>_. False), enWait = (\<lambda>d w. (None, w))\<rparr>"

definition sample_connect :: "bytes option" where
  "sample_connect = Some (connect_message ''test'' (sample_config\<lparr>cfToken := ''alice-token''\<rparr>))"

definition sample_goodbye :: "bytes option" where
  "sample_goodbye = Some (EncodeEnvelope \<lparr>hType = MsgDisconnect, hConnectionID = ''v1'', hQueryID = QueryIDAbsent\<rparr> EncodeEmptyBody)"

definition two_start :: "nat system" where
  "two_start = start (\<lambda>t. if t = ''alice-token'' then Some ''alice'' else None) sample_config 1 0"

definition sample_client :: client where
  "sample_client = \<lparr>clCfg = sample_resolved, clConnID = ''c1'', clServer = sample_server, clQid = 0, clClosed = False\<rparr>"

lemma sample_dial:
  assumes "bnUpstream b = sample_config"
  shows "pool_dial sample_env b n = (Ok (length (bnStore b)), b\<lparr>bnStore := bnStore b @ [sample_client]\<rparr>, n + 1)"
proof -
  have dec: "DecodeConnectionResponse (ConnectionResponse_Encode sample_server) = Ok sample_server"
    by (rule connection_response_rd) (simp_all add: sample_server_def go_len_def)
  have "Connect (enScheme sample_env) (enPlatform sample_env) (enPost sample_env) (enCtxErr sample_env) (enWait sample_env) sample_config n
      = (Ok sample_client, n + 1)"
    using dec
    by (simp add: Connect_def sample_env_def sample_defaults retry_def retry_loop.simps connect_attempt_def roundTrip_def
        split_envelope_rd go_len_def retryableStatus_def accept_connection_def msg_defs sample_client_def
        quackVersionMin_def quackVersionMax_def) (simp add: sample_server_def)
  then show ?thesis using assms by (simp add: pool_dial_def)
qed

lemma sample_requests:
  "task_dispatch sample_connect b w = (if bnTokens b ''alice-token'' = None then say_error ''connect'' ''Authentication failed'' b w
     else (TTake \<lparr>hType = MsgConnectionRequest, hConnectionID = [], hQueryID = QueryIDAbsent\<rparr>, b, w))"
  "task_dispatch sample_goodbye b w = (TUnbind \<lparr>hType = MsgDisconnect, hConnectionID = ''v1'', hQueryID = QueryIDAbsent\<rparr>, b, w)"
  by (simp_all add: task_dispatch_def sample_connect_def connect_message_def sample_goodbye_def split_envelope_rd
      connection_request_rd go_len_def msg_defs sample_config_def clientVersion_def)

text \<open>
  The race that orderly runs leave out: the first client has a query under way when its disconnect
  arrives; the session goes to the pool and on to the second client, and the query is sent on it.
\<close>

definition sample_query :: "bytes option" where
  "sample_query = Some (EncodeEnvelope \<lparr>hType = MsgPrepareRequest, hConnectionID = ''v1'', hQueryID = 1\<rparr> EncodeEmptyBody)"

definition racing_clients :: "sys_action list" where
  "racing_clients = [Arrive sample_connect, Arrive sample_query, Arrive sample_goodbye, Arrive sample_connect,
     Step 0 ''a'', Step 0 ''b'', Step 0 ''c'', Step 0 ''v1'', Step 1 ''d'', Step 1 ''e'',
     Step 2 ''f'', Step 2 ''g'', Step 2 ''h'', Step 3 ''i'', Step 3 ''j'', Step 3 ''v2'']"

lemma sample_query_dispatch:
  "task_dispatch sample_query b w = (TLookup \<lparr>hType = MsgPrepareRequest, hConnectionID = ''v1'', hQueryID = 1\<rparr> EncodeEmptyBody, b, w)"
  by (simp add: task_dispatch_def sample_query_def split_envelope_rd go_len_def msg_defs)

definition query_under_way :: "sys_action list" where
  "query_under_way = [Arrive sample_connect, Arrive sample_query, Step 0 ''a'', Step 0 ''b'', Step 0 ''c'', Step 0 ''v1'', Step 1 ''d'', Step 1 ''e'']"

lemma query_under_way_run:
  "\<exists>s hdr body. orderly sample_env two_start query_under_way s \<and> syTasks s ! 1 = TSend hdr body 0 \<and> length (syTasks s) = 2"
proof -
  have "\<exists>s hdr body. orderly_run sample_env query_under_way two_start = Some s \<and> syTasks s ! 1 = TSend hdr body 0 \<and> length (syTasks s) = 2"
    by (simp add: query_under_way_def two_start_def start_def newProxy_def sample_requests sample_query_dispatch sample_dial
        pool_take_def bouncer_simps eval_nat_numeral)
  then show ?thesis using orderly_run_orderly [OF orderly_nil] by fastforce
qed

lemma forward_outlives_binding:
  "\<exists>s hdr body. served sample_env two_start racing_clients s \<and> distinct (concat (map drawn racing_clients))
     \<and> bnConns (syB s) = [(''v2'', 0)] \<and> syTasks s ! 1 = TSend hdr body 0 \<and> hConnectionID hdr = ''v1''"
proof -
  have "\<exists>s hdr body. sys_run sample_env racing_clients two_start = Some s \<and> bnConns (syB s) = [(''v2'', 0)]
      \<and> syTasks s ! 1 = TSend hdr body 0 \<and> hConnectionID hdr = ''v1''"
    by (simp add: racing_clients_def two_start_def start_def newProxy_def sample_requests sample_query_dispatch sample_dial
        pool_take_def pool_give_def bouncer_simps eval_nat_numeral)
  moreover have "distinct (concat (map drawn racing_clients))" by (simp add: racing_clients_def)
  ultimately show ?thesis using sys_run_served [OF served_nil] by fastforce
qed

section \<open>Properties\<close>

text \<open>C36: an upstream session has one owner at a time: under every interleaving of requests, the sessions
  that are idle, that a virtual connection is bound to, or that a request is opening, returning or
  closing are all different, none of them but one being closed is closed, and the pool holds no more
  than its maximum.  If the drawn identifiers never repeat, no session is lost: each one ever dialled
  is idle, bound, in the hands of such a request, or closed; and as long as no client disconnects
  while a forward of its own is under way, every forward uses the session its client is bound to, so
  no two clients share one.  A forward keeps its session after it has released the lock: if its client
  disconnects meanwhile, the session may be the next client's already, or closed
  (\<open>forward_outlives_binding\<close>).\<close>

theorem sessions_exclusive:
  assumes "served env (start tokens upstream mx w) acts s"
  shows "distinct (bnIdle (syB s) @ map snd (bnConns (syB s)) @ concat (map held (syTasks s)))
    \<and> (\<forall>a \<in> set (bnIdle (syB s) @ map snd (bnConns (syB s)) @ concat (map in_use (syTasks s))).
         a < length (bnStore (syB s)) \<and> \<not> clClosed (bnStore (syB s) ! a))
    \<and> int (length (bnIdle (syB s))) \<le> max 0 mx
    \<and> (distinct (concat (map drawn acts)) \<longrightarrow>
         (\<forall>a < length (bnStore (syB s)). a \<in> set (bnIdle (syB s)) \<or> a \<in> snd ` set (bnConns (syB s))
            \<or> (\<exists>t \<in> set (syTasks s). a \<in> set (held t)) \<or> clClosed (bnStore (syB s) ! a))
         \<and> (orderly env (start tokens upstream mx w) acts s \<longrightarrow>
              (\<forall>hdr body a. TSend hdr body a \<in> set (syTasks s) \<longrightarrow> map_of (bnConns (syB s)) (hConnectionID hdr) = Some a)))"
proof -
  have safe: "safe mx s" using served_safe [OF assms] .
  have lost: "\<forall>a < length (bnStore (syB s)). a \<in> set (bnIdle (syB s)) \<or> a \<in> snd ` set (bnConns (syB s))
      \<or> (\<exists>t \<in> set (syTasks s). a \<in> set (held t)) \<or> clClosed (bnStore (syB s) ! a)" if "distinct (concat (map drawn acts))"
    using served_kept [OF assms that] by (auto simp: kept_def holders_def owned_def)
  have own: "\<forall>hdr body a. TSend hdr body a \<in> set (syTasks s) \<longrightarrow> map_of (bnConns (syB s)) (hConnectionID hdr) = Some a"
    if "distinct (concat (map drawn acts))" "orderly env (start tokens upstream mx w) acts s"
    using orderly_anchored [OF that(2,1)] by (simp add: anchored_def)
  show ?thesis
    by (intro conjI impI safe_exclusive [OF safe] lost own) (use safe in \<open>simp_all add: safe_def\<close>)
qed

theorem sessions_exclusive_witness:
  "\<exists>s hdr body. served sample_env two_start query_under_way s \<and> syTasks s ! 1 = TSend hdr body 0
     \<and> map_of (bnConns (syB s)) (hConnectionID hdr) = Some 0 \<and> 0 \<notin> set (bnIdle (syB s))"
proof -
  obtain s hdr body where s: "orderly sample_env two_start query_under_way s" "syTasks s ! 1 = TSend hdr body 0" "length (syTasks s) = 2"
    using query_under_way_run by blast
  have "distinct (concat (map drawn query_under_way))" by (simp add: query_under_way_def)
  moreover have "TSend hdr body 0 \<in> set (syTasks s)" using s(2,3) by (metis nth_mem one_less_numeral_iff semiring_norm(76))
  ultimately have m: "map_of (bnConns (syB s)) (hConnectionID hdr) = Some 0"
    using sessions_exclusive [OF orderly_served [OF s(1), unfolded two_start_def]] s(1) unfolding two_start_def by blast
  then have "0 \<in> snd ` set (bnConns (syB s))" by (force dest: map_of_SomeD)
  then have "0 \<notin> set (bnIdle (syB s))"
    using sessions_exclusive [OF orderly_served [OF s(1), unfolded two_start_def]] by auto
  then show ?thesis using s m orderly_served by blast
qed

text \<open>C37: nothing reaches the upstream without a client token: sessions dialled and virtual connections
  are never more than the connection requests that carried a known token, and as long as there
  was none the proxy has sent nothing upstream.\<close>

theorem only_admitted:
  assumes "served env (start tokens upstream mx w) acts s"
  shows "length (bnStore (syB s)) \<le> length (filter (admission tokens) acts)
    \<and> length (bnConns (syB s)) \<le> length (filter (admission tokens) acts)
    \<and> (filter (admission tokens) acts = [] \<longrightarrow> syW s = w)"
  using served_bounded [OF assms] by (auto simp: bounded_def)

theorem only_admitted_witness:
  "\<exists>s. served sample_env (start (\<lambda>_. None) sample_config 1 0) [Arrive sample_connect, Step 0 ''a''] s \<and> syW s = 0"
proof -
  obtain s where s: "sys_run sample_env [Arrive sample_connect, Step 0 ''a''] (start (\<lambda>_. None) sample_config 1 0) = Some s"
    by (simp add: start_def newProxy_def sample_requests bouncer_simps)
  have run: "served sample_env (start (\<lambda>_. None) sample_config 1 0) [Arrive sample_connect, Step 0 ''a''] s"
    using sys_run_served [OF served_nil s] by simp
  then show ?thesis using only_admitted [OF run] by (auto simp: admits_def)
qed

end
