(* ===== verification/Bouncer_Relay.thy ===== *)
theory Bouncer_Relay
  imports Bouncer_Sessions Quack_Session
begin

text \<open>
  A client of the proxy against a client of the server behind it.  The locale \<open>relay\<close> is the interface a
  relay offers to the transport's users: a call through the front is the same call on the session
  behind.  Its lemmas carry queries and the contract of the streaming (\<open>batch_source\<close>) over to the
  front; \<open>proxied\<close> interprets it on \<^verbatim>\<open>src/cmd/quackbouncer/proxy.go\<close> before the fake server.
\<close>

section \<open>Relays\<close>

locale relay =
  fixes front :: "'v post" and behind :: "'w post" and linked :: "client \<times> 'v \<Rightarrow> bool" and view :: "client \<times> 'v \<Rightarrow> client \<times> 'w"
  assumes call_relay: "linked (c, v) \<Longrightarrow> req = MsgPrepareRequest \<or> req = MsgFetchRequest \<Longrightarrow> want \<noteq> MsgError \<Longrightarrow>
    linked (snd (call front c req body want v))
    \<and> view (snd (call front c req body want v)) = snd (call behind (fst (view (c, v))) req body want (snd (view (c, v))))
    \<and> (\<forall>b. fst (call front c req body want v) = Ok b \<longleftrightarrow> fst (call behind (fst (view (c, v))) req body want (snd (view (c, v)))) = Ok b)"
begin

lemma fetch_relay:
  assumes "linked s"
  shows "linked (snd (fetch_chunks front cd uuid s))
    \<and> view (snd (fetch_chunks front cd uuid s)) = snd (fetch_chunks behind cd uuid (view s))
    \<and> (\<forall>cs. fst (fetch_chunks front cd uuid s) = Ok cs \<longleftrightarrow> fst (fetch_chunks behind cd uuid (view s)) = Ok cs)"
proof -
  obtain c v where s: "s = (c, v)" by fastforce
  obtain up w where u: "view s = (up, w)" by fastforce
  obtain r1 c1 v1 where f: "Fetch front c uuid v = (r1, c1, v1)" by (metis surj_pair)
  obtain r2 c2 w2 where g: "Fetch behind up uuid w = (r2, c2, w2)" by (metis surj_pair)
  have "linked (c1, v1) \<and> view (c1, v1) = (c2, w2) \<and> (\<forall>b. r1 = Ok b \<longleftrightarrow> r2 = Ok b)"
    using call_relay [of c v MsgFetchRequest MsgFetchResponse "FetchRequest_Encode uuid"] assms s u f g
    by (simp add: Fetch_def msg_defs)
  then have rel: "linked (c1, v1)" "view (c1, v1) = (c2, w2)" "\<And>b. r1 = Ok b \<longleftrightarrow> r2 = Ok b" by auto
  show ?thesis
  proof (cases r2)
    case (Ok b)
    then have "r1 = Ok b" using rel(3) by simp
    then show ?thesis using s u f g rel(1,2) Ok by (simp add: fetch_chunks_def)
  next
    case (Err e)
    then have "r1 \<noteq> Ok b" for b using rel(3) [of b] by simp
    then show ?thesis using s u f g rel(1,2) Err by (cases r1) (auto simp: fetch_chunks_def)
  next
    case Panic
    then have "r1 \<noteq> Ok b" for b using rel(3) [of b] by simp
    then show ?thesis using s u f g rel(1,2) Panic by (cases r1) (auto simp: fetch_chunks_def)
  qed
qed

lemma Query_relay:
  assumes "linked (dcClient dc, v)" and "view (dcClient dc, v) = (up, w)"
    and "Query behind (dc\<lparr>dcClient := up\<rparr>) sql w = (Ok pr, dc', w')"
  shows "\<exists>c1 v1. Query front dc sql v = (Ok pr, dc\<lparr>dcClient := c1\<rparr>, v1) \<and> linked (c1, v1) \<and> view (c1, v1) = (dcClient dc', w')"
proof -
  obtain r1 c1 v1 where f: "Prepare front (dcClient dc) sql v = (r1, c1, v1)" by (metis surj_pair)
  obtain r2 c2 w2 where g: "Prepare behind up sql w = (r2, c2, w2)" by (metis surj_pair)
  have "linked (c1, v1) \<and> view (c1, v1) = (c2, w2) \<and> (\<forall>b. r1 = Ok b \<longleftrightarrow> r2 = Ok b)"
    using call_relay [of "dcClient dc" v MsgPrepareRequest MsgPrepareResponse "PrepareRequest_Encode sql"] assms(1,2) f g
    by (simp add: Prepare_def msg_defs)
  then have rel: "linked (c1, v1)" "view (c1, v1) = (c2, w2)" "\<And>b. r1 = Ok b \<longleftrightarrow> r2 = Ok b" by auto
  obtain b where b: "r2 = Ok b" using assms(3) g by (cases r2) (auto simp: Query_def)
  then have "r1 = Ok b" using rel(3) by simp
  then show ?thesis using assms(3) f g b rel(1,2) by (auto simp: Query_def)
qed

end

text \<open>What a stream relies on holds at the front if it holds behind.\<close>

locale relayed_source =
  relay front behind linked view + source: batch_source "fetch_chunks behind cd uuid" good left
  for front :: "'v post" and behind :: "'w post" and linked view cd uuid good left

sublocale relayed_source < front: batch_source "fetch_chunks front cd uuid" "\<lambda>s. linked s \<and> good (view s)" "\<lambda>s. left (view s)"
proof unfold_locales
  fix s assume s: "linked s \<and> good (view s)"
  note f = fetch_relay [OF conjunct1 [OF s], of cd uuid]
  show "linked (snd (fetch_chunks front cd uuid s)) \<and> good (view (snd (fetch_chunks front cd uuid s)))"
    using f s source.fetch_good by metis
  show "fst (fetch_chunks front cd uuid s) \<noteq> Panic" by (rule fetch_chunks_returns)
  fix s'
  show "left (view s) = mset cs + left (view s')" if "fetch_chunks front cd uuid s = (Ok cs, s')" for cs
    using f s that source.fetch_some [of "view s" cs "view s'"] by (metis fst_conv snd_conv prod.collapse)
  show "left (view s) = {#}" if "fetch_chunks front cd uuid s = (Ok [], s')"
    using f s that source.fetch_drained [of "view s" "view s'"] by (metis fst_conv snd_conv prod.collapse)
  show "left (view s') \<subseteq># left (view s)" if e: "fetch_chunks front cd uuid s = (Err e, s')" for e
  proof -
    obtain r where r: "fetch_chunks behind cd uuid (view s) = (r, view s')" using f e by (metis snd_conv prod.collapse)
    then obtain e' where "r = Err e'"
      using f e source.fetch_returns [of "view s"] s by (cases r) auto
    then show ?thesis using source.fetch_fail [of "view s" e' "view s'"] s r by simp
  qed
qed

section \<open>The proxy is a relay\<close>

text \<open>The proxy behind its URL; \<open>draw\<close> is the identifier a request draws.\<close>

definition bouncer_post :: "'w env \<Rightarrow> (bouncer \<Rightarrow> string) \<Rightarrow> string \<Rightarrow> (bouncer \<times> 'w) post" where
  "bouncer_post env draw base url ct m = (\<lambda>(b, w).
     if prefix base url
     then (case Proxy_ServeHTTP env (draw b) ''POST'' (drop (length base) url) (Some m) b w of (r, b, w) \<Rightarrow> (r, (b, w)))
     else (HTTPFail ''no such host'', (b, w)))"

lemma bouncer_post_rpc:
  assumes "go_len (hConnectionID h)" "hType h \<noteq> MsgConnectionRequest" "hType h \<noteq> MsgDisconnect"
  shows "bouncer_post env draw base (base @ pathRPC) ct (EncodeEnvelope h body) (b, w) =
    (case forward env h body b w of (r, b, w) \<Rightarrow> (r, (b, w)))"
  using assms by (simp add: bouncer_post_def Proxy_ServeHTTP_def pathRPC_def handleRPC_def split_envelope_rd)

text \<open>The session behind a virtual connection, with the query numbers of the client in front.\<close>

definition session_of :: "client \<Rightarrow> bouncer \<Rightarrow> nat option" where
  "session_of c b = map_of (bnConns b) (clConnID c)"

definition bouncer_view :: "client \<times> bouncer \<times> 'w \<Rightarrow> client \<times> 'w" where
  "bouncer_view = (\<lambda>(c, b, w). ((bnStore b ! the (session_of c b))\<lparr>clQid := clQid c\<rparr>, w))"

definition bouncer_linked :: "string \<Rightarrow> client \<times> bouncer \<times> 'w \<Rightarrow> bool" where
  "bouncer_linked base = (\<lambda>(c, b, w). cfEndpoint (clCfg c) = base \<and> \<not> clClosed c \<and> go_len (clConnID c)
     \<and> (\<exists>a. session_of c b = Some a \<and> \<not> clClosed (bnStore b ! a) \<and> go_len (clConnID (bnStore b ! a))))"

text \<open>Replies name connections whose identifiers have a length Go can represent.\<close>

definition sane_replies :: "'w post \<Rightarrow> bool" where
  "sane_replies post \<longleftrightarrow> (\<forall>cfg h body w hdr rb st w'. hType h = MsgPrepareRequest \<or> hType h = MsgFetchRequest \<longrightarrow>
     go_len (hConnectionID h) \<longrightarrow>
     roundTrip post cfg (EncodeEnvelope h body) w = ((Ok (hdr, rb), st), w') \<longrightarrow> go_len (hConnectionID hdr))"

lemma serverError_not_Ok [simp]: "serverError cfg b \<noteq> Ok x"
  by (simp add: serverError_def split: go.split)

lemma call_through:
  assumes sane: "sane_replies (enPost env)" and linked: "bouncer_linked base (c, b, w)"
    and req: "req = MsgPrepareRequest \<or> req = MsgFetchRequest" "want \<noteq> MsgError"
    and up: "bouncer_view (c, b, w) = (up, w)"
    and direct: "call (enPost env) up req body want w = (r, up', w')"
  shows "\<exists>r' b'. call (bouncer_post env draw base) c req body want (b, w) = (r', c\<lparr>clQid := clQid c + 1\<rparr>, (b', w'))
    \<and> bnConns b' = bnConns b \<and> bnStore b' = bnStore b \<and> bnIdle b' = bnIdle b \<and> (\<forall>x. r' = Ok x \<longleftrightarrow> r = Ok x)"
proof -
  obtain a where c: "cfEndpoint (clCfg c) = base" "\<not> clClosed c" "go_len (clConnID c)"
    and a: "map_of (bnConns b) (clConnID c) = Some a" "\<not> clClosed (bnStore b ! a)" "go_len (clConnID (bnStore b ! a))"
    using linked by (auto simp: bouncer_linked_def session_of_def)
  let ?s = "bnStore b ! a" and ?q = "clQid c + 1"
  have up_s: "up = ?s\<lparr>clQid := clQid c\<rparr>" using up a by (simp add: bouncer_view_def session_of_def)
  let ?h = "\<lparr>hType = req, hConnectionID = clConnID c, hQueryID = ?q\<rparr>"
  let ?m = "EncodeEnvelope (?h\<lparr>hConnectionID := clConnID ?s\<rparr>) body"
  have req': "req \<noteq> MsgConnectionRequest" "req \<noteq> MsgDisconnect" using req by (auto simp: msg_defs)
  obtain x st w1 where rt: "roundTrip (enPost env) (clCfg ?s) ?m w = ((x, st), w1)" by (metis surj_pair)
  have post: "bouncer_post env draw base (base @ pathRPC) contentType (EncodeEnvelope ?h body) (b, w)
      = (case forward_send env ?h body a b w of (r, b, w) \<Rightarrow> (r, (b, w)))"
    using c(3) req' a(1) by (simp add: bouncer_post_rpc forward_def)
  show ?thesis
  proof (cases x)
    case (Ok y)
    obtain hdr rb where y: "y = (hdr, rb)" by fastforce
    have len: "go_len (hConnectionID hdr)"
      using sane [unfolded sane_replies_def, rule_format, of "?h\<lparr>hConnectionID := clConnID ?s\<rparr>"] rt Ok y req a(3) by auto
    define hdr' where "hdr' = (if hConnectionID hdr = clConnID ?s then hdr\<lparr>hConnectionID := clConnID c\<rparr> else hdr)"
    have w': "w' = w1" "r = (if hType hdr = want then Ok rb else if hType hdr = MsgError then serverError (clCfg ?s) rb
        else Err (WUnexpected (MessageType_String req) (hType hdr)))"
      using direct rt Ok y a(2) by (auto simp: up_s call_def Let_def)
    have "bouncer_post env draw base (base @ pathRPC) contentType (EncodeEnvelope ?h body) (b, w)
        = (Proxy_reply hdr' rb, (count_request ''forward'' 200 b, w1))"
      using rt Ok y a(2) by (simp add: post forward_send_def RoundTripRaw_def Let_def hdr'_def)
    then have "roundTrip (bouncer_post env draw base) (clCfg c) (EncodeEnvelope ?h body) (b, w)
        = ((Ok (if hQueryID hdr' = 0 then hdr'\<lparr>hQueryID := QueryIDAbsent\<rparr> else hdr', rb), 200), (count_request ''forward'' 200 b, w1))"
      using roundTrip_reply [where post = "bouncer_post env draw base" and cfg = "clCfg c" and h = hdr' and body = rb] len c
      by (simp add: Proxy_reply_def Server_reply_def hdr'_def)
    then show ?thesis
      using c w' by (simp add: call_def Let_def hdr'_def count_request_def)
  next
    case (Err e)
    have "bouncer_post env draw base (base @ pathRPC) contentType (EncodeEnvelope ?h body) (b, w)
        = (Server_errorReply (''quackbouncer: upstream request failed: '' @ wire_error_text e), (count_request ''forward'' 200 b, w1))"
      using rt Err a(2)
      by (simp add: post forward_send_def RoundTripRaw_def Let_def Proxy_errorReply_def Server_errorReply_def Proxy_reply_def Server_reply_def)
    then have "roundTrip (bouncer_post env draw base) (clCfg c) (EncodeEnvelope ?h body) (b, w)
        = ((Ok (\<lparr>hType = MsgError, hConnectionID = [], hQueryID = QueryIDAbsent\<rparr>,
             ErrorMessage_Encode (''quackbouncer: upstream request failed: '' @ wire_error_text e)), 200), (count_request ''forward'' 200 b, w1))"
      unfolding c(1) [symmetric] by (rule error_reply_roundTrip)
    then show ?thesis
      using direct rt Err a(2) c req(2) by (auto simp: up_s call_def Let_def count_request_def)
  next
    case Panic
    have False using roundTrip_returns [of "enPost env" "clCfg ?s" ?m w] unfolding rt Panic by simp
    then show ?thesis ..
  qed
qed

text \<open>Before the fake server.\<close>

definition quack_env where
  "quack_env scheme platform ctx_err wait quote base =
     \<lparr>enScheme = scheme, enPlatform = platform, enPost = quack_post quote base, enCtxErr = ctx_err, enWait = wait\<rparr>"

text \<open>What the fake server answers a query or a fetch names no connection.\<close>

definition nameless :: "http_result \<Rightarrow> bool" where
  "nameless r \<longleftrightarrow> (\<exists>h b. r = Server_reply h b \<and> hConnectionID h = []) \<or> (\<exists>e. r = HTTPFail e)
     \<or> (\<exists>msg code. code \<noteq> 200 \<and> r = http_error msg code)"

lemma namelessI [simp, intro]:
  "hConnectionID h = [] \<Longrightarrow> nameless (Server_reply h b)" "nameless (HTTPFail e)" "code \<noteq> 200 \<Longrightarrow> nameless (http_error msg code)"
  "nameless (Server_errorReply msg)" "hConnectionID h = [] \<Longrightarrow> nameless (reply_encoded h eb)"
  by (auto simp: nameless_def Server_errorReply_def reply_encoded_def split: option.split)

lemma roundTrip_nameless:
  assumes "roundTrip post cfg m s = ((Ok (hdr, rb), st), s')" "nameless (fst (post (cfEndpoint cfg @ pathRPC) contentType m s))"
  shows "hConnectionID hdr = []"
proof -
  obtain r s1 where r: "post (cfEndpoint cfg @ pathRPC) contentType m s = (r, s1)" by fastforce
  consider (reply) h b where "r = Server_reply h b" "hConnectionID h = []" | (failed) e where "r = HTTPFail e"
    | (code) msg code where "code \<noteq> 200" "r = http_error msg code"
    using assms(2) r by (auto simp: nameless_def)
  then show ?thesis
  proof cases
    case reply
    then show ?thesis
      using roundTrip_reply [where post = post, OF r [unfolded reply(1)]] assms(1) by (auto simp: go_len_def split: if_splits)
  qed (use assms(1) r in \<open>auto simp: roundTrip_def http_error_def\<close>)
qed

lemma handlers_nameless:
  "nameless (fst (Server_handlePrepare quote h body s))" "nameless (fst (Server_handleFetch body s))"
  by (auto simp: Server_handlePrepare_def Server_handleFetch_def Let_def split: go.split option.split prod.split)

lemma quack_nameless:
  assumes "hType h = MsgPrepareRequest \<or> hType h = MsgFetchRequest" "go_len (hConnectionID h)"
  shows "nameless (fst (quack_post quote base url ct (EncodeEnvelope h body) s))"
  using assms handlers_nameless
  by (auto simp: quack_post_def Server_ServeHTTP_def split_envelope_rd withConn_def msg_defs)

lemma quack_sane: "sane_replies (quack_post quote base)"
  unfolding sane_replies_def
proof (intro allI impI)
  fix cfg h body w hdr rb st w'
  assume a: "hType h = MsgPrepareRequest \<or> hType h = MsgFetchRequest" "go_len (hConnectionID h)"
    "roundTrip (quack_post quote base) cfg (EncodeEnvelope h body) w = ((Ok (hdr, rb), st), w')"
  then have "hConnectionID hdr = []"
    by (intro roundTrip_nameless [where post = "quack_post quote base", OF a(3)] quack_nameless)
  then show "go_len (hConnectionID hdr)" by (simp add: go_len_def)
qed

interpretation proxied: relay "bouncer_post (quack_env scheme platform ctx_err wait quote upbase) draw base" "quack_post quote upbase"
    "bouncer_linked base" bouncer_view
  for scheme platform ctx_err wait quote upbase draw base
proof
  fix c :: client and v :: "bouncer \<times> server" and req want body
  let ?env = "quack_env scheme platform ctx_err wait quote upbase"
  assume a: "bouncer_linked base (c, v)" "req = MsgPrepareRequest \<or> req = MsgFetchRequest" "want \<noteq> MsgError"
  obtain b w where v: "v = (b, w)" by fastforce
  obtain up where up: "bouncer_view (c, b, w) = (up, w)" by (simp add: bouncer_view_def)
  obtain r up' w' where d: "call (quack_post quote upbase) up req body want w = (r, up', w')" by (metis surj_pair)
  have env: "enPost ?env = quack_post quote upbase" by (simp add: quack_env_def)
  obtain r' b' where c: "call (bouncer_post ?env draw base) c req body want (b, w) = (r', c\<lparr>clQid := clQid c + 1\<rparr>, (b', w'))"
    "bnConns b' = bnConns b" "bnStore b' = bnStore b" "\<forall>x. r' = Ok x \<longleftrightarrow> r = Ok x"
    using call_through [of ?env base c b w req want up body r up' w' draw] quack_sane a up d by (auto simp: env v)
  have "bouncer_linked base (c\<lparr>clQid := clQid c + 1\<rparr>, b', w')"
    using a(1) c(2,3) by (simp add: bouncer_linked_def session_of_def v)
  moreover have "bouncer_view (c\<lparr>clQid := clQid c + 1\<rparr>, b', w') = (up', w')"
  proof -
    have "\<not> clClosed up" using a(1) up by (auto simp: bouncer_linked_def bouncer_view_def v)
    then have "up' = up\<lparr>clQid := clQid up + 1\<rparr>"
      using d by (auto simp: call_def Let_def split: prod.splits go.splits if_splits)
    then show ?thesis using up c(2,3) by (simp add: bouncer_view_def session_of_def) auto
  qed
  ultimately show "bouncer_linked base (snd (call (bouncer_post ?env draw base) c req body want v))
    \<and> bouncer_view (snd (call (bouncer_post ?env draw base) c req body want v))
      = snd (call (quack_post quote upbase) (fst (bouncer_view (c, v))) req body want (snd (bouncer_view (c, v))))
    \<and> (\<forall>x. fst (call (bouncer_post ?env draw base) c req body want v) = Ok x \<longleftrightarrow>
        fst (call (quack_post quote upbase) (fst (bouncer_view (c, v))) req body want (snd (bouncer_view (c, v)))) = Ok x)"
    using c d up by (simp add: v)
qed

interpretation proxied_source: relayed_source "bouncer_post (quack_env scheme platform ctx_err wait quote upbase) draw base"
    "quack_post quote upbase" "bouncer_linked base" bouncer_view cd uuid "quack_good upbase uuid" "quack_left uuid"
  for scheme platform ctx_err wait quote upbase draw base cd uuid
  by unfold_locales

section \<open>A pool of forgotten sessions\<close>

text \<open>A client that connects, submits a query and leaves: the answer to its query.\<close>

definition visit :: "'w env \<Rightarrow> string \<Rightarrow> config \<Rightarrow> string \<Rightarrow> bouncer \<Rightarrow> 'w \<Rightarrow> http_result \<times> bouncer \<times> 'w" where
  "visit env vid cfg sql b w =
     (case handleRPC env vid (Some (connect_message ''linux_amd64'' cfg)) b w of (r1, b, w) \<Rightarrow>
      case handleRPC env [] (Some (EncodeEnvelope \<lparr>hType = MsgPrepareRequest, hConnectionID = vid, hQueryID = 1\<rparr> (PrepareRequest_Encode sql))) b w
        of (r2, b, w) \<Rightarrow>
      case handleRPC env [] (Some (EncodeEnvelope \<lparr>hType = MsgDisconnect, hConnectionID = vid, hQueryID = QueryIDAbsent\<rparr> EncodeEmptyBody)) b w
        of (r3, b, w) \<Rightarrow> (r2, b, w))"

fun visits :: "'w env \<Rightarrow> config \<Rightarrow> string \<Rightarrow> string list \<Rightarrow> bouncer \<Rightarrow> 'w \<Rightarrow> http_result list" where
  "visits env cfg sql [] b w = []"
| "visits env cfg sql (vid # vids) b w = (case visit env vid cfg sql b w of (r, b, w) \<Rightarrow> r # visits env cfg sql vids b w)"

text \<open>The next session the pool hands out is one the server no longer knows.\<close>

definition stale :: "string \<Rightarrow> server \<Rightarrow> bouncer \<Rightarrow> bool" where
  "stale upbase s b \<longleftrightarrow> bnIdle b \<noteq> [] \<and> int (length (bnIdle b)) \<le> bnMax b
     \<and> (let up = bnStore b ! last (bnIdle b) in \<not> clClosed up \<and> cfEndpoint (clCfg up) = upbase \<and> clConnID up \<noteq> [] \<and> go_len (clConnID up) \<and> \<not> svConns s (clConnID up))"

definition unknown_reply :: http_result where
  "unknown_reply = Proxy_reply \<lparr>hType = MsgError, hConnectionID = [], hQueryID = QueryIDAbsent\<rparr> (ErrorMessage_Encode ''Invalid connection id'')"

lemma delete_update: "k \<notin> fst ` set al \<Longrightarrow> AList.delete k (AList.update k v al) = al"
  by (induction al) (auto simp: delete_absent)

lemma visit_stale:
  assumes env: "enPost env = quack_post quote upbase" and stale: "stale upbase s b" and tok: "bnTokens b (cfToken cfg) \<noteq> None" "go_len (cfToken cfg)"
    and vid: "vid \<noteq> []" "vid \<notin> fst ` set (bnConns b)" "go_len vid"
  shows "\<exists>b'. visit env vid cfg sql b s = (unknown_reply, b', s) \<and> stale upbase s b' \<and> bnTokens b' = bnTokens b
    \<and> bnConns b' = bnConns b \<and> bnIdle b' = bnIdle b"
proof -
  define a where "a = last (bnIdle b)"
  let ?up = "bnStore b ! a"
  have a: "bnIdle b \<noteq> []" "int (length (bnIdle b)) \<le> bnMax b" "\<not> clClosed ?up" "cfEndpoint (clCfg ?up) = upbase" "go_len (clConnID ?up)"
    "\<not> svConns s (clConnID ?up)" "clConnID ?up \<noteq> []"
    using stale by (simp_all add: stale_def a_def Let_def)
  define b1 where "b1 = count_request ''connect'' 200 (b\<lparr>bnIdle := butlast (bnIdle b), bnConns := AList.update vid a (bnConns b)\<rparr>)"
  define b2 where "b2 = count_request ''forward'' 200 b1"
  define b3 where "b3 = count_request ''disconnect'' 200 (b2\<lparr>bnConns := bnConns b, bnIdle := bnIdle b\<rparr>)"
  obtain y where y: "bnTokens b (cfToken cfg) = Some y" using tok(1) by auto
  have "fst (snd (handleRPC env vid (Some (connect_message ''linux_amd64'' cfg)) b s)) = b1"
    "snd (snd (handleRPC env vid (Some (connect_message ''linux_amd64'' cfg)) b s)) = s"
    using y tok(2) a(1)
    by (simp_all add: handleRPC_def connect_message_def split_envelope_rd go_len_def handleConnect_def msg_defs connection_request_rd
        clientVersion_def pool_get_def pool_take_def Let_def b1_def a_def count_request_def)
  then obtain r1 where h1: "handleRPC env vid (Some (connect_message ''linux_amd64'' cfg)) b s = (r1, b1, s)"
    by (metis prod.collapse)
  have bound: "map_of (bnConns b1) vid = Some a" "bnStore b1 = bnStore b" by (simp_all add: b1_def count_request_def update_conv')
  have "quack_post quote upbase (cfEndpoint (clCfg ?up) @ pathRPC) contentType
      (EncodeEnvelope \<lparr>hType = MsgPrepareRequest, hConnectionID = clConnID ?up, hQueryID = 1\<rparr> (PrepareRequest_Encode sql)) s
      = (Server_errorReply ''Invalid connection id'', s)"
    using a by (simp add: quack_post_envelope withConn_def msg_defs)
  note rt = error_reply_roundTrip [where post = "quack_post quote upbase", OF this]
  have h2: "handleRPC env [] (Some (EncodeEnvelope \<lparr>hType = MsgPrepareRequest, hConnectionID = vid, hQueryID = 1\<rparr> (PrepareRequest_Encode sql))) b1 s
      = (unknown_reply, b2, s)"
    using a rt bound env
    by (simp add: handleRPC_def split_envelope_rd vid msg_defs forward_def forward_send_def RoundTripRaw_def Let_def unknown_reply_def b2_def)
  have b2: "bnConns b2 = AList.update vid a (bnConns b)" "bnIdle b2 = butlast (bnIdle b)" "bnMax b2 = bnMax b"
    by (simp_all add: b2_def b1_def count_request_def)
  have "int (length (butlast (bnIdle b))) < bnMax b" using a(1,2) by (cases "bnIdle b" rule: rev_cases) simp_all
  then have h3: "\<exists>r3. handleRPC env [] (Some (EncodeEnvelope \<lparr>hType = MsgDisconnect, hConnectionID = vid, hQueryID = QueryIDAbsent\<rparr> EncodeEmptyBody)) b2 s
      = (r3, b3, s)"
    using b2 vid a(1)
    by (simp add: handleRPC_def split_envelope_rd msg_defs handleDisconnect_def pool_put_def pool_give_def update_conv' delete_update
        b3_def a_def Let_def count_request_def)
  have "stale upbase s b3" using stale by (simp add: stale_def b3_def b2_def b1_def count_request_def)
  then show ?thesis
    using h1 h2 h3 by (auto simp: visit_def b3_def b2_def b1_def count_request_def)
qed

section \<open>Properties\<close>

text \<open>C38: behind the proxy nothing is lost: a client whose virtual connection is mapped to a live session of a
  server holding a result for \<open>sql\<close> gets the schema of the result, and in whatever order the workers,
  the proxy, the server and the caller interleave, a stream that ends without error and was not
  closed has delivered every chunk of every batch exactly once, the inlined ones first.\<close>

theorem query_through_bouncer:
  assumes "quack_ready s" and "bouncer_linked base (dcClient dc, b, s)" and "connected upbase (fst (bouncer_view (dcClient dc, b, s))) s"
    and "go_len sql" and "svResults s sql = Some res" and "0 < Chunks_workers dc"
    and "Query (bouncer_post (quack_env scheme platform ctx_err wait quote upbase) draw base) dc sql (b, s) = (r, dc', v')"
  shows "\<exists>pr. r = Ok pr \<and> prSchema pr = decoded_schema (qrCols res) \<and>
    (\<forall>as st. stream_run (fetch_chunks (bouncer_post (quack_env scheme platform ctx_err wait quote upbase) draw base) (dcCodec dc') (prResultUUID pr))
        (Chunks_workers dc) (prNeedsMoreFetch pr) (Chunks_init (dcClient dc', v') pr) as st \<and> stIter st = CEnd Complete \<and> \<not> stStop st \<longrightarrow>
      mset (stDelivered st) = mset (map decoded_chunk (concat (qrBatches res)))
      \<and> prefix (prChunks pr) (stDelivered st))"
proof -
  let ?pr = "query_result s res" and ?post = "bouncer_post (quack_env scheme platform ctx_err wait quote upbase) draw base"
  define up where "up = fst (bouncer_view (dcClient dc, b, s))"
  have view: "bouncer_view (dcClient dc, (b, s)) = (up, s)" by (simp add: up_def bouncer_view_def)
  have "Query (quack_post quote upbase) (dc\<lparr>dcClient := up\<rparr>) sql s
      = (Ok ?pr, dc\<lparr>dcClient := up\<lparr>clQid := clQid up + 1\<rparr>\<rparr>, after_query s res)"
    using Query_quack [OF assms(1) _ assms(4,5), of upbase "dc\<lparr>dcClient := up\<rparr>" quote] assms(3) by (simp add: up_def)
  from proxied.Query_relay [where scheme = scheme and platform = platform and ctx_err = ctx_err and wait = wait and draw = draw,
      OF assms(2) view this] obtain c1 v1 where q: "Query ?post dc sql (b, s) = (Ok ?pr, dc\<lparr>dcClient := c1\<rparr>, v1)" "bouncer_linked base (c1, v1)"
    "bouncer_view (c1, v1) = (up\<lparr>clQid := clQid up + 1\<rparr>, after_query s res)"
    by auto
  have good: "bouncer_linked base (c1, v1) \<and> quack_good upbase (query_uuid s) (bouncer_view (c1, v1))"
    using Query_quack_stream(1) [OF assms(1), of upbase "dc\<lparr>dcClient := up\<rparr>" sql res] assms(3,5) q(2,3) by (simp add: up_def)
  have all: "mset (prChunks ?pr) + (if prNeedsMoreFetch ?pr then quack_left (query_uuid s) (bouncer_view (c1, v1)) else {#})
      = mset (map decoded_chunk (concat (qrBatches res)))"
    using Query_quack_stream(2) [OF assms(1), of upbase "dc\<lparr>dcClient := up\<rparr>" sql res] assms(3,5) q(3)
    by (intro query_result_total) (simp_all add: up_def)
  have "mset (stDelivered st) = mset (map decoded_chunk (concat (qrBatches res))) \<and> prefix (prChunks ?pr) (stDelivered st)"
    if "stream_run (fetch_chunks ?post (dcCodec dc') (prResultUUID ?pr)) (Chunks_workers dc) (prNeedsMoreFetch ?pr) (Chunks_init (c1, v1) ?pr) as st"
      and e: "stIter st = CEnd Complete" "\<not> stStop st" for as st
  proof -
    have "stream_run (fetch_chunks ?post (dcCodec dc') (query_uuid s)) (Chunks_workers dc) (prNeedsMoreFetch ?pr) (stream_init (c1, v1) (prChunks ?pr)) as st"
      using that(1) by (simp add: Chunks_init_def query_result_def)
    then show ?thesis
      using proxied_source.front.stream_complete [OF assms(6) good] e all by metis
  qed
  then show ?thesis using q(1) assms(7) by (auto simp: query_result_def)
qed

definition front_conn :: conn where
  "front_conn = \<lparr>dcClient = \<lparr>clCfg = sample_resolved\<lparr>cfEndpoint := ''http://b''\<rparr>, clConnID = ''v1'', clServer = sample_server, clQid = 0,
     clClosed = False\<rparr>, dcCodec = \<lparr>cVersion = 1\<rparr>\<rparr>"

definition sample_bouncer :: bouncer where
  "sample_bouncer = (newProxy (\<lambda>t. if t = ''alice-token'' then Some ''alice'' else None) sample_config 1)
     \<lparr>bnConns := [(''v1'', 0)], bnStore := [sample_client]\<rparr>"

theorem query_through_bouncer_witness:
  "\<exists>pr. fst (Query (bouncer_post (quack_env (\<lambda>_. None) [] (\<lambda>_. False) (\<lambda>d w. (None, w)) (\<lambda>s. s) ''http://h:8888'') (\<lambda>_. ''v2'') ''http://b'')
       front_conn ''q'' (sample_bouncer, sample_quack)) = Ok pr
     \<and> prSchema pr = [\<lparr>scName = ''n'', scType = scalar_type TypeInteger\<rparr>]"
proof -
  let ?post = "bouncer_post (quack_env (\<lambda>_. None) [] (\<lambda>_. False) (\<lambda>d w. (None, w)) (\<lambda>s. s) ''http://h:8888'') (\<lambda>_. ''v2'') ''http://b''"
  have "svResults sample_quack ''q'' = Some \<lparr>qrCols = sample_chunk 0, qrBatches = [[sample_chunk 0], [sample_chunk 1]]\<rparr>"
    by (simp add: sample_quack_def)
  moreover have "go_len ''q''" by (simp add: go_len_def)
  moreover have "bouncer_linked ''http://b'' (dcClient front_conn, sample_bouncer, sample_quack)"
    by (simp add: bouncer_linked_def front_conn_def sample_bouncer_def session_of_def sample_client_def go_len_def)
  moreover have "connected ''http://h:8888'' (fst (bouncer_view (dcClient front_conn, sample_bouncer, sample_quack))) sample_quack"
    by (simp add: connected_def bouncer_view_def front_conn_def sample_bouncer_def session_of_def sample_client_def go_len_def
        sample_quack_def sample_resolved_def)
  moreover have "0 < Chunks_workers front_conn" by (simp add: Chunks_workers_def front_conn_def sample_resolved_def)
  moreover obtain r dc' s' where q: "Query ?post front_conn ''q'' (sample_bouncer, sample_quack) = (r, dc', s')" by (metis surj_pair)
  ultimately obtain pr where "r = Ok pr" "prSchema pr = decoded_schema (sample_chunk 0)"
    using query_through_bouncer [OF sample_ready, of "''http://b''" front_conn sample_bouncer "''http://h:8888''" "''q''" _
        "\<lambda>_. None" "[]" "\<lambda>_. False" "\<lambda>d w. (None, w)" "\<lambda>s. s" "\<lambda>_. ''v2''" r dc' s'] by auto
  then show ?thesis using q by (simp add: decoded_schema_def sample_chunk_def)
qed

text \<open>C39: a pool that holds a session the server has forgotten never gets rid of it: each client that connects
  is handed the dead session, its query is answered with the server's complaint about an unknown
  connection, and when it leaves the session goes back into the pool for the next one, however
  many clients come.\<close>

theorem pool_keeps_forgotten:
  assumes "enPost env = quack_post quote upbase" and "stale upbase s b" and "bnTokens b (cfToken cfg) \<noteq> None" and "go_len (cfToken cfg)"
    and "\<forall>vid \<in> set vids. vid \<noteq> [] \<and> vid \<notin> fst ` set (bnConns b) \<and> go_len vid"
  shows "visits env cfg sql vids b s = replicate (length vids) unknown_reply"
  using assms(2,3,5)
proof (induction vids arbitrary: b)
  case (Cons vid vids)
  then obtain b' where "visit env vid cfg sql b s = (unknown_reply, b', s)" "stale upbase s b'" "bnTokens b' = bnTokens b" "bnConns b' = bnConns b"
    using visit_stale [OF assms(1) Cons.prems(1,2) assms(4), of vid sql] by auto
  then show ?case using Cons by simp
qed simp

theorem pool_keeps_forgotten_witness:
  "visits (quack_env (\<lambda>_. None) [] (\<lambda>_. False) (\<lambda>d w. (None, w)) (\<lambda>s. s) ''http://h:8888'') (sample_config\<lparr>cfToken := ''alice-token''\<rparr>) ''q''
     [''v1'', ''v2'', ''v3''] (sample_bouncer\<lparr>bnConns := [], bnIdle := [0]\<rparr>) (ExpireConnections sample_quack) = [unknown_reply, unknown_reply, unknown_reply]"
proof -
  have st: "stale ''http://h:8888'' (ExpireConnections sample_quack) (sample_bouncer\<lparr>bnConns := [], bnIdle := [0]\<rparr>)"
    by (simp add: stale_def sample_bouncer_def newProxy_def sample_client_def sample_resolved_def go_len_def ExpireConnections_def)
  have "visits (quack_env (\<lambda>_. None) [] (\<lambda>_. False) (\<lambda>d w. (None, w)) (\<lambda>s. s) ''http://h:8888'') (sample_config\<lparr>cfToken := ''alice-token''\<rparr>) ''q''
     [''v1'', ''v2'', ''v3''] (sample_bouncer\<lparr>bnConns := [], bnIdle := [0]\<rparr>) (ExpireConnections sample_quack)
     = replicate (length [''v1'', ''v2'', ''v3'']) unknown_reply"
    by (rule pool_keeps_forgotten [OF _ st]) (simp_all add: quack_env_def sample_bouncer_def newProxy_def go_len_def)
  then show ?thesis by (simp add: eval_nat_numeral del: visits.simps)
qed

end
