(* ===== verification/Token_File.thy ===== *)
theory Token_File
  imports Bouncer "HOL-Library.Sublist"
begin

text \<open>
  The proxy's start: the file of client tokens and what \<open>main\<close> makes of its flags
  (\<^verbatim>\<open>src/cmd/quackbouncer/main.go\<close>).  A file is its content and the error that ended the reading, if one
  did; \<open>bufio.Scanner\<close> and \<open>strings.TrimSpace\<close> are modelled on bytes, the spaces being the UTF-8
  encodings of Unicode's.

  Lemmas: no empty token and no empty name is ever admitted; a file printed from a table reads back.
\<close>

section \<open>Lines\<close>

definition nl :: char where
  "nl = CHR 0x0A"

text \<open>\<open>bufio.MaxScanTokenSize\<close>: a line that long ends the scan with an error.\<close>

definition maxScanTokenSize :: nat where
  "maxScanTokenSize = 65536"

definition drop_cr :: "string \<Rightarrow> string" where
  "drop_cr s = (if s \<noteq> [] \<and> last s = CHR 0x0D then butlast s else s)"

text \<open>The lines, and whether one was too long.\<close>

function scan_lines :: "string \<Rightarrow> string list \<times> bool" where
  "scan_lines s =
     (if s = [] then ([], False)
      else let l = takeWhile (\<lambda>c. c \<noteq> nl) s in
        if length l \<ge> maxScanTokenSize then ([], True)
        else apfst (Cons (drop_cr l)) (scan_lines (drop (length l + 1) s)))"
  by pat_completeness auto
termination
  by (relation "measure length") auto

declare scan_lines.simps [simp del]

section \<open>Spaces\<close>

definition spaces :: "string list" where
  "spaces =
     [[CHR 0x09], [CHR 0x0A], [CHR 0x0B], [CHR 0x0C], [CHR 0x0D], [CHR 0x20], [CHR 0xC2, CHR 0x85], [CHR 0xC2, CHR 0xA0],
      [CHR 0xE1, CHR 0x9A, CHR 0x80],
      [CHR 0xE2, CHR 0x80, CHR 0x80], [CHR 0xE2, CHR 0x80, CHR 0x81], [CHR 0xE2, CHR 0x80, CHR 0x82], [CHR 0xE2, CHR 0x80, CHR 0x83],
      [CHR 0xE2, CHR 0x80, CHR 0x84], [CHR 0xE2, CHR 0x80, CHR 0x85], [CHR 0xE2, CHR 0x80, CHR 0x86], [CHR 0xE2, CHR 0x80, CHR 0x87],
      [CHR 0xE2, CHR 0x80, CHR 0x88], [CHR 0xE2, CHR 0x80, CHR 0x89], [CHR 0xE2, CHR 0x80, CHR 0x8A], [CHR 0xE2, CHR 0x80, CHR 0xA8],
      [CHR 0xE2, CHR 0x80, CHR 0xA9], [CHR 0xE2, CHR 0x80, CHR 0xAF], [CHR 0xE2, CHR 0x81, CHR 0x9F], [CHR 0xE3, CHR 0x80, CHR 0x80]]"

lemma spaces_nonempty: "p \<in> set spaces \<Longrightarrow> p \<noteq> []"
  by (auto simp: spaces_def)

lemma space_shorter:
  "find (\<lambda>p. prefix p s) spaces = Some p \<Longrightarrow> 0 < length p \<and> s \<noteq> []"
  "find (\<lambda>p. suffix p s) spaces = Some p \<Longrightarrow> 0 < length p \<and> s \<noteq> []"
  using spaces_nonempty by (auto simp: find_Some_iff dest: nth_mem)

lemma find_someD: "find P xs = Some x \<Longrightarrow> x \<in> set xs \<and> P x"
  by (auto simp: find_Some_iff)

function trim_left :: "string \<Rightarrow> string" where
  "trim_left s = (case find (\<lambda>p. prefix p s) spaces of None \<Rightarrow> s | Some p \<Rightarrow> trim_left (drop (length p) s))"
  by pat_completeness auto
termination
  by (relation "measure length") (auto dest!: space_shorter)

function trim_right :: "string \<Rightarrow> string" where
  "trim_right s = (case find (\<lambda>p. suffix p s) spaces of None \<Rightarrow> s | Some p \<Rightarrow> trim_right (take (length s - length p) s))"
  by pat_completeness auto
termination
  by (relation "measure length") (auto dest!: space_shorter simp: min_def not_le)

declare trim_left.simps [simp del] trim_right.simps [simp del]

definition TrimSpace :: "string \<Rightarrow> string" where
  "TrimSpace s = trim_right (trim_left s)"

section \<open>The token file\<close>

text \<open>\<open>strings.Cut(text, ":")\<close>.\<close>

definition cut_colon :: "string \<Rightarrow> (string \<times> string) option" where
  "cut_colon s = (if CHR '':'' \<in> set s
     then Some (takeWhile (\<lambda>c. c \<noteq> CHR '':'') s, tl (dropWhile (\<lambda>c. c \<noteq> CHR '':'') s)) else None)"

datatype load_error = OpenFailed | BadLine nat | LineTooLong | ReadFailed string

fun load_lines :: "nat \<Rightarrow> string list \<Rightarrow> (string \<Rightarrow> string option) \<Rightarrow> (load_error, string \<Rightarrow> string option) go" where
  "load_lines line [] tokens = Ok tokens"
| "load_lines line (t # ts) tokens =
     (let text = TrimSpace t in
      if text = [] \<or> prefix ''#'' text then load_lines (line + 1) ts tokens
      else case cut_colon text of
        None \<Rightarrow> Err (BadLine (line + 1))
      | Some (name, token) \<Rightarrow>
          if name = [] \<or> token = [] then Err (BadLine (line + 1))
          else load_lines (line + 1) ts (tokens(TrimSpace token \<mapsto> TrimSpace name)))"

definition loadTokens :: "(string \<times> string option) option \<Rightarrow> (load_error, string \<Rightarrow> string option) go" where
  "loadTokens f =
     (case f of
        None \<Rightarrow> Err OpenFailed
      | Some (content, readErr) \<Rightarrow>
          (case scan_lines content of
             (lines, tooLong) \<Rightarrow>
               (case load_lines 0 lines Map.empty of
                  Ok tokens \<Rightarrow> if tooLong then Err LineTooLong else (case readErr of Some e \<Rightarrow> Err (ReadFailed e) | None \<Rightarrow> Ok tokens)
                | Err e \<Rightarrow> Err e
                | Panic \<Rightarrow> Panic)))"

section \<open>Starting\<close>

datatype start_error = Usage | TokenUnset | LoadFailed load_error

text \<open>What \<open>main\<close> serves, up to the listening socket.\<close>

definition main_proxy :: "string \<Rightarrow> string \<Rightarrow> string \<Rightarrow> (string \<times> string option) option \<Rightarrow> int \<Rightarrow> (start_error, bouncer) go" where
  "main_proxy upstream tokens upstreamToken f poolSize =
     (if upstream = [] \<or> tokens = [] then Err Usage
      else if upstreamToken = [] then Err TokenUnset
      else case loadTokens f of
        Err e \<Rightarrow> Err (LoadFailed e)
      | Panic \<Rightarrow> Panic
      | Ok tokenMap \<Rightarrow>
          Ok (newProxy tokenMap
                \<lparr>cfEndpoint = upstream, cfToken = upstreamToken, cfFetchWorkers = 0, cfConnectTimeout = 0, cfMaxRetries = 0,
                 cfRetryBaseDelay = 0\<rparr> poolSize))"

section \<open>Trimmed text\<close>

definition trimmed :: "string \<Rightarrow> bool" where
  "trimmed s \<longleftrightarrow> (\<forall>p \<in> set spaces. \<not> prefix p s \<and> \<not> suffix p s)"

lemma find_none: "find P xs = None \<longleftrightarrow> (\<forall>x \<in> set xs. \<not> P x)"
  by (auto simp: find_None_iff)

lemma trim_left_done: "\<forall>p \<in> set spaces. \<not> prefix p (trim_left s)"
proof (induction s rule: trim_left.induct)
  case (1 s)
  then show ?case by (subst trim_left.simps) (auto simp: find_none split: option.split)
qed

lemma trim_left_suffix: "suffix (trim_left s) s"
proof (induction s rule: trim_left.induct)
  case (1 s)
  then show ?case
    by (subst trim_left.simps) (auto split: option.split intro: suffix_order.trans suffix_drop)
qed

lemma trim_right_done: "\<forall>p \<in> set spaces. \<not> suffix p (trim_right s)"
proof (induction s rule: trim_right.induct)
  case (1 s)
  then show ?case by (subst trim_right.simps) (auto simp: find_none split: option.split)
qed

lemma trim_right_prefix: "prefix (trim_right s) s"
proof (induction s rule: trim_right.induct)
  case (1 s)
  then show ?case
    by (subst trim_right.simps) (auto split: option.split intro: prefix_order.trans take_is_prefix)
qed

lemma TrimSpace_trimmed: "trimmed (TrimSpace s)"
proof -
  have "\<not> prefix p (TrimSpace s)" if "p \<in> set spaces" for p
    using that trim_left_done [of s] trim_right_prefix [of "trim_left s"] prefix_order.trans
    unfolding TrimSpace_def by blast
  then show ?thesis using trim_right_done unfolding trimmed_def TrimSpace_def by blast
qed

lemma TrimSpace_id: "trimmed s \<Longrightarrow> TrimSpace s = s"
proof -
  assume "trimmed s"
  then have "find (\<lambda>p. prefix p s) spaces = None" "find (\<lambda>p. suffix p s) spaces = None"
    by (auto simp: trimmed_def find_none)
  then have "trim_left s = s" "trim_right s = s" by (simp_all add: trim_left.simps [of s] trim_right.simps [of s])
  then show ?thesis by (simp add: TrimSpace_def)
qed

text \<open>Text that is all spaces ends, and begins, with one.\<close>

lemma trim_left_Nil: "trim_left s = [] \<Longrightarrow> s \<noteq> [] \<Longrightarrow> \<exists>p \<in> set spaces. suffix p s"
proof (induction s rule: trim_left.induct)
  case (1 s)
  then obtain p where f: "find (\<lambda>p. prefix p s) spaces = Some p"
    by (cases "find (\<lambda>p. prefix p s) spaces") (auto simp: trim_left.simps [of s])
  then have p: "p \<in> set spaces" "prefix p s" by (auto simp: find_Some_iff)
  have rest: "trim_left (drop (length p) s) = []" using 1(2) f by (simp add: trim_left.simps [of s])
  show ?case
  proof (cases "drop (length p) s = []")
    case True
    then have "s = p" using p(2) by (auto simp: prefix_def)
    then show ?thesis using p(1) by auto
  next
    case False
    then obtain q where "q \<in> set spaces" "suffix q (drop (length p) s)" using 1(1) [OF f rest] by blast
    then show ?thesis using suffix_order.trans suffix_drop by blast
  qed
qed

lemma trim_right_Nil: "trim_right s = [] \<Longrightarrow> s \<noteq> [] \<Longrightarrow> \<exists>p \<in> set spaces. prefix p s"
proof (induction s rule: trim_right.induct)
  case (1 s)
  then obtain p where f: "find (\<lambda>p. suffix p s) spaces = Some p"
    by (cases "find (\<lambda>p. suffix p s) spaces") (auto simp: trim_right.simps [of s])
  then have p: "p \<in> set spaces" "suffix p s" by (auto simp: find_Some_iff)
  have rest: "trim_right (take (length s - length p) s) = []" using 1(2) f by (simp add: trim_right.simps [of s])
  show ?case
  proof (cases "take (length s - length p) s = []")
    case True
    then have "s = p" using p(2) 1(3) by (auto simp: suffix_def)
    then show ?thesis using p(1) by auto
  next
    case False
    then obtain q where "q \<in> set spaces" "prefix q (take (length s - length p) s)" using 1(1) [OF f rest] by blast
    then show ?thesis using prefix_order.trans take_is_prefix by blast
  qed
qed

lemma TrimSpace_nonempty:
  assumes "s \<noteq> []" "TrimSpace s = []"
  shows "(\<exists>p \<in> set spaces. suffix p s) \<and> (\<exists>p \<in> set spaces. prefix p s)"
proof -
  have "\<exists>p \<in> set spaces. prefix p s"
  proof (cases "find (\<lambda>p. prefix p s) spaces")
    case None
    then have "trim_right s = []" using assms(2) by (simp add: TrimSpace_def trim_left.simps [of s])
    then show ?thesis using trim_right_Nil assms(1) by blast
  next
    case (Some p)
    then show ?thesis using find_someD [OF Some] by blast
  qed
  moreover have "\<exists>q \<in> set spaces. suffix q s"
  proof (cases "trim_left s = []")
    case True
    then show ?thesis using trim_left_Nil assms(1) by blast
  next
    case False
    have "find (\<lambda>p. suffix p (trim_left s)) spaces \<noteq> None"
      using assms(2) False trim_right.simps [of "trim_left s"] by (auto simp: TrimSpace_def split: option.splits)
    then obtain q where q: "find (\<lambda>p. suffix p (trim_left s)) spaces = Some q" by blast
    have "q \<in> set spaces" "suffix q (trim_left s)" using find_someD [OF q] by simp_all
    then show ?thesis using trim_left_suffix suffix_order.trans by blast
  qed
  ultimately show ?thesis by blast
qed

section \<open>What is admitted\<close>

lemma cut_colon_parts: "cut_colon s = Some (n, t) \<Longrightarrow> s = n @ CHR '':'' # t \<and> CHR '':'' \<notin> set n"
proof -
  assume c: "cut_colon s = Some (n, t)"
  then have "CHR '':'' \<in> set s" "n = takeWhile (\<lambda>c. c \<noteq> CHR '':'') s" "t = tl (dropWhile (\<lambda>c. c \<noteq> CHR '':'') s)"
    by (auto simp: cut_colon_def split: if_splits)
  moreover from this have "dropWhile (\<lambda>c. c \<noteq> CHR '':'') s \<noteq> []" by auto
  moreover from this have "hd (dropWhile (\<lambda>c. c \<noteq> CHR '':'') s) = CHR '':''" using hd_dropWhile by blast
  ultimately show ?thesis by (metis (full_types) list.collapse set_takeWhileD takeWhile_dropWhile_id)
qed

lemma entry_nonempty:
  assumes "cut_colon (TrimSpace line) = Some (n, t)" "n \<noteq> []" "t \<noteq> []"
  shows "TrimSpace t \<noteq> [] \<and> TrimSpace n \<noteq> []"
proof -
  have s: "TrimSpace line = n @ CHR '':'' # t" using cut_colon_parts [OF assms(1)] by simp
  have "\<not> suffix p t" "\<not> prefix p n" if p: "p \<in> set spaces" for p
  proof -
    have "suffix t (TrimSpace line)" "prefix n (TrimSpace line)" by (simp_all add: s suffix_def)
    then show "\<not> suffix p t" "\<not> prefix p n"
      using p TrimSpace_trimmed [of line] suffix_order.trans prefix_order.trans unfolding trimmed_def by blast+
  qed
  then show ?thesis using TrimSpace_nonempty assms(2,3) by blast
qed

lemma load_lines_sound:
  "load_lines k ts m0 = Ok m \<Longrightarrow> m t = Some n \<Longrightarrow> m0 t = Some n \<or> (t \<noteq> [] \<and> n \<noteq> [] \<and> trimmed t \<and> trimmed n)"
proof (induction k ts m0 rule: load_lines.induct)
  case (2 k x ts m0)
  show ?case
  proof (cases "TrimSpace x = [] \<or> prefix ''#'' (TrimSpace x)")
    case True
    then show ?thesis using 2 by (auto simp: Let_def)
  next
    case False
    then obtain nm tk where c: "cut_colon (TrimSpace x) = Some (nm, tk)" "nm \<noteq> []" "tk \<noteq> []"
      using 2(3) by (auto simp: Let_def split: option.splits if_splits)
    then have "load_lines (k + 1) ts (m0(TrimSpace tk \<mapsto> TrimSpace nm)) = Ok m" using False 2(3) by (simp add: Let_def)
    then have "(m0(TrimSpace tk \<mapsto> TrimSpace nm)) t = Some n \<or> (t \<noteq> [] \<and> n \<noteq> [] \<and> trimmed t \<and> trimmed n)"
      using 2(2) [OF refl False c(1) refl] c(2,3) 2(4) by (simp del: fun_upd_apply)
    then have "m0 t = Some n \<or> t = TrimSpace tk \<and> n = TrimSpace nm \<or> t \<noteq> [] \<and> n \<noteq> [] \<and> trimmed t \<and> trimmed n"
      by (metis map_upd_Some_unfold)
    then show ?thesis using entry_nonempty [OF c] TrimSpace_trimmed [of nm] TrimSpace_trimmed [of tk] by auto
  qed
qed simp

section \<open>Printing a table\<close>

definition token_line :: "string \<times> string \<Rightarrow> string" where
  "token_line e = fst e @ CHR '':'' # snd e"

definition clean_entry :: "string \<times> string \<Rightarrow> bool" where
  "clean_entry e \<longleftrightarrow> fst e \<noteq> [] \<and> snd e \<noteq> [] \<and> trimmed (fst e) \<and> trimmed (snd e) \<and> CHR '':'' \<notin> set (fst e)
     \<and> nl \<notin> set (fst e) \<and> nl \<notin> set (snd e) \<and> hd (fst e) \<noteq> CHR ''#'' \<and> length (token_line e) < maxScanTokenSize"

lemma no_colon_space: "p \<in> set spaces \<Longrightarrow> CHR '':'' \<notin> set p"
  by (auto simp: spaces_def)

lemma token_line_trimmed:
  assumes "clean_entry e"
  shows "trimmed (token_line e)"
proof -
  have "\<not> prefix p (token_line e) \<and> \<not> suffix p (token_line e)" if p: "p \<in> set spaces" for p
  proof -
    have "\<not> prefix p (fst e)" "\<not> suffix p (snd e)" using assms p by (auto simp: clean_entry_def trimmed_def)
    moreover have "prefix p (fst e) \<or> CHR '':'' \<in> set p" if "prefix p (fst e @ CHR '':'' # snd e)"
      using that by (auto simp: prefix_append prefix_Cons)
    moreover have "suffix p (snd e) \<or> CHR '':'' \<in> set p" if "suffix p (fst e @ CHR '':'' # snd e)"
      using that by (auto simp: suffix_append suffix_Cons)
    ultimately show ?thesis using no_colon_space [OF p] unfolding token_line_def by blast
  qed
  then show ?thesis by (simp add: trimmed_def)
qed

lemma drop_cr_id: "trimmed s \<Longrightarrow> drop_cr s = s"
proof -
  assume "trimmed s"
  then have "\<not> suffix [CHR 0x0D] s" by (auto simp: trimmed_def spaces_def)
  then show ?thesis by (auto simp: drop_cr_def suffix_def) (metis append_butlast_last_id)
qed

lemma scan_printed:
  "list_all clean_entry es \<Longrightarrow> scan_lines (concat (map (\<lambda>e. token_line e @ [nl]) es)) = (map token_line es, False)"
proof (induction es)
  case Nil
  then show ?case by (simp add: scan_lines.simps)
next
  case (Cons e es)
  let ?rest = "concat (map (\<lambda>e. token_line e @ [nl]) es)"
  have n: "nl \<notin> set (token_line e)" "length (token_line e) < maxScanTokenSize" "drop_cr (token_line e) = token_line e"
    using Cons.prems drop_cr_id [OF token_line_trimmed, of e] by (auto simp: clean_entry_def token_line_def nl_def)
  have "takeWhile (\<lambda>c. c \<noteq> nl) (token_line e @ nl # ?rest) = token_line e"
    using n(1) by (subst takeWhile_append2) auto
  then show ?case using Cons n by (subst scan_lines.simps) (simp add: Let_def)
qed

lemma load_printed:
  "list_all clean_entry es \<Longrightarrow> load_lines k (map token_line es) m = Ok (foldl (\<lambda>m e. m(snd e \<mapsto> fst e)) m es)"
proof (induction es arbitrary: k m)
  case (Cons e es)
  have e: "clean_entry e" using Cons.prems by simp
  then have "TrimSpace (token_line e) = token_line e" "\<not> prefix ''#'' (token_line e)" "token_line e \<noteq> []"
    using TrimSpace_id [OF token_line_trimmed [OF e]] by (cases "fst e"; auto simp: token_line_def clean_entry_def)+
  moreover have "cut_colon (token_line e) = Some (fst e, snd e)"
  proof -
    have w: "\<forall>x \<in> set (fst e). x \<noteq> CHR '':''" using e by (auto simp: clean_entry_def)
    have "takeWhile (\<lambda>c. c \<noteq> CHR '':'') (fst e @ CHR '':'' # snd e) = fst e"
      using w by (subst takeWhile_append2) auto
    moreover have "dropWhile (\<lambda>c. c \<noteq> CHR '':'') (fst e @ CHR '':'' # snd e) = CHR '':'' # snd e"
      using w by (subst dropWhile_append2) auto
    ultimately show ?thesis by (simp add: cut_colon_def token_line_def del: prod.collapse)
  qed
  moreover have "TrimSpace (fst e) = fst e" "TrimSpace (snd e) = snd e" "fst e \<noteq> []" "snd e \<noteq> []"
    using e TrimSpace_id by (auto simp: clean_entry_def)
  ultimately show ?case using Cons by (simp add: Let_def del: prod.collapse fun_upd_apply)
qed simp

section \<open>Properties\<close>

text \<open>C40: the proxy admits exactly what its token file grants: a table written one \<open>name:token\<close> a line reads
  back, later lines winning, and no file whatever, however spaced or cut short, makes the empty
  token valid or leaves a token without a name.\<close>

theorem loadTokens_reads_table:
  assumes "list_all clean_entry es"
  shows "loadTokens (Some (concat (map (\<lambda>e. token_line e @ [nl]) es), None)) = Ok (foldl (\<lambda>m e. m(snd e \<mapsto> fst e)) Map.empty es)
    \<and> (\<forall>f m t n. loadTokens f = Ok m \<and> m t = Some n \<longrightarrow> t \<noteq> [] \<and> n \<noteq> [])"
proof -
  have "t \<noteq> [] \<and> n \<noteq> []" if L: "loadTokens f = Ok m" "m t = Some n" for f m t n
  proof -
    obtain ts where "load_lines 0 ts Map.empty = Ok m"
      using L(1) by (auto simp: loadTokens_def split: option.splits prod.splits go.splits if_splits)
    then show ?thesis using load_lines_sound [of 0 ts Map.empty m t n] L(2) by simp
  qed
  moreover have "loadTokens (Some (concat (map (\<lambda>e. token_line e @ [nl]) es), None)) = Ok (foldl (\<lambda>m e. m(snd e \<mapsto> fst e)) Map.empty es)"
    using scan_printed [OF assms] load_printed [OF assms] by (simp add: loadTokens_def)
  ultimately show ?thesis by blast
qed

theorem loadTokens_reads_table_witness:
  "\<exists>m. loadTokens (Some (''alice:a-token'' @ [nl] @ ''bob:b-token'' @ [nl], None)) = Ok m \<and> m ''a-token'' = Some ''alice'' \<and> m [] = None"
proof -
  let ?es = "[(''alice'', ''a-token''), (''bob'', ''b-token'')]"
  have "list_all clean_entry ?es"
    by (simp add: clean_entry_def trimmed_def spaces_def nl_def token_line_def maxScanTokenSize_def suffix_def)
  from loadTokens_reads_table [OF this]
  have "loadTokens (Some (''alice:a-token'' @ [nl] @ ''bob:b-token'' @ [nl], None)) = Ok (Map.empty(''a-token'' \<mapsto> ''alice'', ''b-token'' \<mapsto> ''bob''))"
    by (simp add: token_line_def)
  then show ?thesis by simp
qed

end
