(* ===== verification/Driver_Rows.thy ===== *)
theory Driver_Rows
  imports Driver_Interpolate Result_Codec Duckcall
begin

text \<open>
  Rows of a result as \<open>database/sql\<close> sees them, \<^verbatim>\<open>src/driver/rows.go\<close>: the cursor over the chunks, the
  narrowing of codec values to driver values, and the JSON text of nested ones.  The value
  \<open>iter.Pull2\<close> pulls from is the list of what the iteration still yields.  \<open>encoding/json\<close> on strings
  is modelled on bytes; \<open>strconv.FormatFloat\<close>, the layouts of \<open>time.Format\<close> and \<open>fmt.Sprint\<close> of a time are
  the parameters \<open>formats\<close>.

  Lemmas: every typed value crosses, integers exactly, nested values as well-formed JSON; the
  cursor delivers the rows of all chunks in order.
\<close>

section \<open>JSON strings\<close>

text \<open>The size of the UTF-8 encoded character a string starts with, 0 if the bytes are not one.\<close>

definition between :: "nat \<Rightarrow> nat \<Rightarrow> char \<Rightarrow> bool" where
  "between lo hi c \<longleftrightarrow> lo \<le> of_char c \<and> of_char c \<le> hi"

definition utf8_two :: "char \<Rightarrow> char \<Rightarrow> bool" where
  "utf8_two a b \<longleftrightarrow> between 0xC2 0xDF a \<and> between 0x80 0xBF b"

definition utf8_three :: "char \<Rightarrow> char \<Rightarrow> char \<Rightarrow> bool" where
  "utf8_three a b c \<longleftrightarrow>
     (between 0xE0 0xE0 a \<and> between 0xA0 0xBF b \<or> between 0xE1 0xEC a \<and> between 0x80 0xBF b
      \<or> between 0xED 0xED a \<and> between 0x80 0x9F b \<or> between 0xEE 0xEF a \<and> between 0x80 0xBF b)
     \<and> between 0x80 0xBF c"

definition utf8_four :: "char \<Rightarrow> char \<Rightarrow> char \<Rightarrow> char \<Rightarrow> bool" where
  "utf8_four a b c d \<longleftrightarrow>
     (between 0xF0 0xF0 a \<and> between 0x90 0xBF b \<or> between 0xF1 0xF3 a \<and> between 0x80 0xBF b
      \<or> between 0xF4 0xF4 a \<and> between 0x80 0x8F b)
     \<and> between 0x80 0xBF c \<and> between 0x80 0xBF d"

fun utf8_len :: "string \<Rightarrow> nat" where
  "utf8_len (a # b # c # d # s) =
     (if utf8_two a b then 2 else if utf8_three a b c then 3 else if utf8_four a b c d then 4 else 0)"
| "utf8_len [a, b, c] = (if utf8_two a b then 2 else if utf8_three a b c then 3 else 0)"
| "utf8_len [a, b] = (if utf8_two a b then 2 else 0)"
| "utf8_len s = 0"

definition json_quote :: char where
  "json_quote = CHR 0x22"

definition backslash :: char where
  "backslash = CHR 0x5C"

definition lower_hex :: "nat \<Rightarrow> char" where
  "lower_hex d = ''0123456789abcdef'' ! d"

text \<open>One byte below 0x80; the HTML characters are escaped too.\<close>

definition json_ascii :: "char \<Rightarrow> string" where
  "json_ascii c =
     (if c = json_quote \<or> c = backslash then [backslash, c]
      else if c = CHR 0x08 then [backslash, CHR ''b'']
      else if c = CHR 0x0C then [backslash, CHR ''f'']
      else if c = CHR 0x0A then [backslash, CHR ''n'']
      else if c = CHR 0x0D then [backslash, CHR ''r'']
      else if c = CHR 0x09 then [backslash, CHR ''t'']
      else if of_char c < (0x20 :: nat) \<or> c = CHR ''<'' \<or> c = CHR ''>'' \<or> c = CHR ''&''
      then backslash # ''u00'' @ [lower_hex (of_char c div 16), lower_hex (of_char c mod 16)]
      else [c])"

function json_chars :: "string \<Rightarrow> string" where
  "json_chars [] = []"
| "json_chars (c # s) =
     (if of_char c < (0x80 :: nat) then json_ascii c @ json_chars s
      else let n = utf8_len (c # s) in
        if n = 0 then backslash # ''ufffd'' @ json_chars s
        else if take 3 (c # s) = [CHR 0xE2, CHR 0x80, CHR 0xA8] then backslash # ''u2028'' @ json_chars (drop 2 s)
        else if take 3 (c # s) = [CHR 0xE2, CHR 0x80, CHR 0xA9] then backslash # ''u2029'' @ json_chars (drop 2 s)
        else take n (c # s) @ json_chars (drop (n - 1) s))"
  by pat_completeness auto
termination
  by (relation "measure length") auto

text \<open>\<open>json.Marshal\<close> of a string.\<close>

definition json_string :: "string \<Rightarrow> string" where
  "json_string s = json_quote # json_chars s @ [json_quote]"

section \<open>Driver values\<close>

record formats =
  fmFloat :: "u64 \<Rightarrow> string"
  fmDate :: "go_time \<Rightarrow> string"
  fmStamp :: "go_time \<Rightarrow> string"
  fmSprint :: "go_time \<Rightarrow> string"

datatype rows_error = RowsJSONType | RowsNoMapping | RowsNoJSON | RowsCodec codec_error | RowsStream duck_error | RowsContext | RowsEOF

text \<open>\<open>float64\<close> of a \<open>float32\<close>, on bit patterns; a NaN becomes quiet.\<close>

definition top_bit :: "u32 \<Rightarrow> nat" where
  "top_bit m = (case find (bit m) (rev [0..<23]) of Some k \<Rightarrow> k | None \<Rightarrow> 0)"

definition widen_float :: "u32 \<Rightarrow> u64" where
  "widen_float x =
     (let s = push_bit 63 (ucast (drop_bit 31 x) :: u64);
          e = unat (drop_bit 23 x AND 0xff);
          m = x AND 0x7fffff
      in if e = 255 then s OR push_bit 52 0x7ff OR push_bit 29 (ucast m) OR (if m = 0 then 0 else push_bit 51 1)
         else if e = 0 then
           (if m = 0 then s
            else s OR push_bit 52 (word_of_nat (top_bit m + 874)) OR (push_bit (52 - top_bit m) (ucast m) AND 0xfffffffffffff))
         else s OR push_bit 52 (word_of_nat (e + 896)) OR push_bit 29 (ucast m))"

definition IsInt64 :: "int \<Rightarrow> bool" where
  "IsInt64 i \<longleftrightarrow> - (2 ^ 63) \<le> i \<and> i < 2 ^ 63"

text \<open>The switch on the dynamic type of a value.\<close>

definition scalarDriverValue :: "val \<Rightarrow> (rows_error, driver_value) go" where
  "scalarDriverValue v =
     (case v of
        VNil \<Rightarrow> Ok ANil
      | VBool x \<Rightarrow> Ok (ABool x)
      | VInt64 x \<Rightarrow> Ok (AInt64 x)
      | VFloat64 x \<Rightarrow> Ok (AFloat64 x)
      | VString x \<Rightarrow> Ok (AString x)
      | VBytes x \<Rightarrow> Ok (ABytes x)
      | VInt8 x \<Rightarrow> Ok (AInt64 (scast x))
      | VInt16 x \<Rightarrow> Ok (AInt64 (scast x))
      | VInt32 x \<Rightarrow> Ok (AInt64 (scast x))
      | VUint8 x \<Rightarrow> Ok (AInt64 (ucast x))
      | VUint16 x \<Rightarrow> Ok (AInt64 (ucast x))
      | VUint32 x \<Rightarrow> Ok (AInt64 (ucast x))
      | VUint64 x \<Rightarrow> Ok (if x > 0x7fffffffffffffff then AString (nat_dec (unat x)) else AInt64 x)
      | VFloat32 x \<Rightarrow> Ok (AFloat64 (widen_float x))
      | VBigInt x \<Rightarrow> Ok (if IsInt64 x then AInt64 (word_of_int x) else AString (int_dec x))
      | VDecimal x \<Rightarrow> Ok (AString (Decimal_String x))
      | VTime x \<Rightarrow> Ok (AString (Time_String x))
      | VTimeNS x \<Rightarrow> Ok (AString (TimeNS_String x))
      | VTimeTZ x \<Rightarrow> Ok (AString (TimeTZ_String x))
      | VInterval x \<Rightarrow> Ok (AString (Interval_String x))
      | VUUID x \<Rightarrow> Ok (AString (UUID_String x))
      | VGoTime x \<Rightarrow> Ok (ATime x)
      | _ \<Rightarrow> Err RowsNoMapping)"

definition nested :: "type_id \<Rightarrow> bool" where
  "nested tid \<longleftrightarrow> tid = TypeList \<or> tid = TypeArray \<or> tid = TypeStruct \<or> tid = TypeMap"

text \<open>\<open>toDriverValue\<close>, given the JSON text of values of its type.\<close>

definition driver_value_with :: "(val \<Rightarrow> (rows_error, string) go) \<Rightarrow> logical_type \<Rightarrow> val \<Rightarrow> (rows_error, driver_value) go" where
  "driver_value_with json t v =
     (if nested (tID t) then (if v = VNil then Ok ANil else go_bind (json v) (\<lambda>b. Ok (AString b)))
      else scalarDriverValue v)"

definition jsonNumberSafe :: "type_id \<Rightarrow> bool" where
  "jsonNumberSafe tid \<longleftrightarrow> tid = TypeDecimal \<or> tid = TypeHugeint \<or> tid = TypeUHugeint \<or> tid = TypeUBigint"

definition jsonFloat :: "formats \<Rightarrow> u64 \<Rightarrow> string" where
  "jsonFloat fm f = (if is_inf64 f \<or> is_nan64 f then json_string (fmFloat fm f) else fmFloat fm f)"

definition timeString :: "formats \<Rightarrow> type_id \<Rightarrow> go_time \<Rightarrow> string" where
  "timeString fm tid ts =
     (if tid = TypeDate then fmDate fm ts else if tid = TypeTimestampTZ then fmStamp fm ts @ ''+00'' else fmStamp fm ts)"

definition keyString :: "formats \<Rightarrow> driver_value \<Rightarrow> string" where
  "keyString fm v =
     (case v of
        AString x \<Rightarrow> x
      | ABytes x \<Rightarrow> go_string x
      | AInt64 x \<Rightarrow> int_dec (sint x)
      | AFloat64 x \<Rightarrow> fmFloat fm x
      | ABool x \<Rightarrow> (if x then ''true'' else ''false'')
      | ANil \<Rightarrow> ''null''
      | ATime x \<Rightarrow> fmSprint fm x
      | ADecimal x \<Rightarrow> Decimal_String x
      | AOther \<Rightarrow> [])"

section \<open>JSON text\<close>

fun json_join :: "string list \<Rightarrow> string" where
  "json_join [] = []"
| "json_join [s] = s"
| "json_join (s # ss) = s @ CHR '','' # json_join ss"

text \<open>The leaf of the walk.\<close>

definition json_scalar :: "formats \<Rightarrow> type_id \<Rightarrow> val \<Rightarrow> (rows_error, string) go" where
  "json_scalar fm tid v =
     go_bind (scalarDriverValue v) (\<lambda>dv. case dv of
        ABool x \<Rightarrow> Ok (if x then ''true'' else ''false'')
      | AInt64 x \<Rightarrow> Ok (int_dec (sint x))
      | AFloat64 x \<Rightarrow> Ok (jsonFloat fm x)
      | AString x \<Rightarrow> Ok (if jsonNumberSafe tid then x else json_string x)
      | ABytes x \<Rightarrow> Ok (json_string (go_string x))
      | ATime x \<Rightarrow> Ok (json_string (timeString fm tid x))
      | _ \<Rightarrow> Err RowsNoJSON)"

lemma go_map_cong [fundef_cong]: "xs = ys \<Longrightarrow> (\<And>x. x \<in> set ys \<Longrightarrow> f x = g x) \<Longrightarrow> go_map f xs = go_map g ys"
  by (induction xs arbitrary: ys) auto

text \<open>\<open>appendJSON\<close>: the text it appends.\<close>

function appendJSON :: "formats \<Rightarrow> logical_type \<Rightarrow> val \<Rightarrow> (rows_error, string) go" where
  "appendJSON fm (LogicalType tid wd sc ch fs en asz) v =
     (if v = VNil then Ok ''null''
      else if tid = TypeList \<or> tid = TypeArray then
        (case v of
           VList vals \<Rightarrow>
             (case ch of
                Some c \<Rightarrow> go_bind (go_map (appendJSON fm c) vals) (\<lambda>ts. Ok (''['' @ json_join ts @ '']''))
              | None \<Rightarrow> if vals = [] then Ok ''[]'' else Panic)
         | _ \<Rightarrow> Err RowsJSONType)
      else if tid = TypeStruct then
        (case v of
           VStruct es \<Rightarrow>
             (if length es \<noteq> length fs then Err RowsJSONType
              else go_bind (go_map (\<lambda>((_, t), (name, x)). go_bind (appendJSON fm t x) (\<lambda>s. Ok (json_string name @ CHR '':'' # s))) (zip fs es))
                     (\<lambda>ts. Ok (''{'' @ json_join ts @ ''}'')))
         | _ \<Rightarrow> Err RowsJSONType)
      else if tid = TypeMap then
        (case v of
           VMap kvs \<Rightarrow>
             (case ch of
                Some (LogicalType ctid cwd csc cch [(_, kt), (_, vt)] cen casz) \<Rightarrow>
                  go_bind (go_map (\<lambda>(k, x). go_bind (driver_value_with (appendJSON fm kt) kt k) (\<lambda>key.
                             go_bind (appendJSON fm vt x) (\<lambda>s. Ok (json_string (keyString fm key) @ CHR '':'' # s)))) kvs)
                    (\<lambda>ts. Ok (''{'' @ json_join ts @ ''}''))
              | _ \<Rightarrow> Err RowsJSONType)
         | _ \<Rightarrow> Err RowsJSONType)
      else json_scalar fm tid v)"
  by pat_completeness auto
termination
proof (relation "measure (size \<circ> fst \<circ> snd)", goal_cases)
  case (3 fm tid wd sc ch fs en asz v es p a b name t aa x)
  then have "(name, t) \<in> set fs" by (auto dest: set_zip_leftD)
  then have "size t < size_list (size_prod (\<lambda>x. 0) size) fs" by (induction fs) auto
  then show ?case by simp
qed auto

declare appendJSON.simps [simp del]

definition toDriverValue :: "formats \<Rightarrow> logical_type \<Rightarrow> val \<Rightarrow> (rows_error, driver_value) go" where
  "toDriverValue fm t v = driver_value_with (appendJSON fm t) t v"

section \<open>The grammar of JSON\<close>

text \<open>Numbers, string contents and values of RFC 8259, as far as bytes can tell.\<close>

definition nonzero_digits :: "char set" where
  "nonzero_digits = set ''123456789''"

definition json_int :: "string \<Rightarrow> bool" where
  "json_int s \<longleftrightarrow> s = ''0'' \<or> s \<noteq> [] \<and> hd s \<in> nonzero_digits \<and> set s \<subseteq> digits"

definition json_number :: "string \<Rightarrow> bool" where
  "json_number s \<longleftrightarrow> (\<exists>sign ip fp ex. s = sign @ ip @ fp @ ex \<and> sign \<in> {[], ''-''} \<and> json_int ip
     \<and> (fp = [] \<or> (\<exists>ds. fp = CHR ''.'' # ds \<and> ds \<noteq> [] \<and> set ds \<subseteq> digits))
     \<and> (ex = [] \<or> (\<exists>e sg ds. ex = e # sg @ ds \<and> e \<in> {CHR ''e'', CHR ''E''} \<and> sg \<in> {[], ''+'', ''-''} \<and> ds \<noteq> [] \<and> set ds \<subseteq> digits)))"

definition hex_digits :: "char set" where
  "hex_digits = set ''0123456789abcdefABCDEF''"

inductive json_body :: "string \<Rightarrow> bool" where
  body_nil: "json_body []"
| body_plain: "0x20 \<le> (of_char c :: nat) \<Longrightarrow> c \<noteq> json_quote \<Longrightarrow> c \<noteq> backslash \<Longrightarrow> json_body s \<Longrightarrow> json_body (c # s)"
| body_escape: "c \<in> {json_quote, backslash, CHR ''/'', CHR ''b'', CHR ''f'', CHR ''n'', CHR ''r'', CHR ''t''} \<Longrightarrow> json_body s \<Longrightarrow>
    json_body (backslash # c # s)"
| body_unicode: "{a, b, c, d} \<subseteq> hex_digits \<Longrightarrow> json_body s \<Longrightarrow> json_body (backslash # CHR ''u'' # a # b # c # d # s)"

definition json_str :: "string \<Rightarrow> bool" where
  "json_str s \<longleftrightarrow> (\<exists>w. s = json_quote # w @ [json_quote] \<and> json_body w)"

inductive json_text :: "string \<Rightarrow> bool" where
  text_null: "json_text ''null''"
| text_true: "json_text ''true''"
| text_false: "json_text ''false''"
| text_number: "json_number s \<Longrightarrow> json_text s"
| text_string: "json_str s \<Longrightarrow> json_text s"
| text_array: "\<forall>t \<in> set ts. json_text t \<Longrightarrow> json_text (''['' @ json_join ts @ '']'')"
| text_object: "\<forall>m \<in> set ms. \<exists>k t. m = k @ CHR '':'' # t \<and> json_str k \<and> json_text t \<Longrightarrow> json_text (''{'' @ json_join ms @ ''}'')"

section \<open>Strings are well formed\<close>

lemma body_append: "json_body s \<Longrightarrow> json_body t \<Longrightarrow> json_body (s @ t)"
  by (induction rule: json_body.induct) (auto intro: json_body.intros)

lemma body_high: "\<forall>c \<in> set s. 0x80 \<le> (of_char c :: nat) \<Longrightarrow> json_body s"
proof (induction s)
  case (Cons c s)
  then have "0x80 \<le> (of_char c :: nat)" by simp
  then have "c \<noteq> json_quote" "c \<noteq> backslash" "0x20 \<le> (of_char c :: nat)" by (auto simp: json_quote_def backslash_def)
  then show ?case using Cons by (intro body_plain) auto
qed (rule body_nil)

lemma lower_hex_list: "list_all (\<lambda>d. lower_hex d \<in> hex_digits) [0..<16]"
  by code_simp

lemma lower_hex_digit: "d < 16 \<Longrightarrow> lower_hex d \<in> hex_digits"
  using lower_hex_list by (simp add: list_all_iff del: upt_rec_numeral)

lemma hex_letters [simp]: "CHR ''0'' \<in> hex_digits" "CHR ''2'' \<in> hex_digits" "CHR ''8'' \<in> hex_digits" "CHR ''9'' \<in> hex_digits"
  "CHR ''f'' \<in> hex_digits" "CHR ''d'' \<in> hex_digits"
  by (simp_all add: hex_digits_def)

lemma json_ascii_body: "json_body (json_ascii c)"
proof -
  have "(of_char c :: nat) < 256" by simp
  then have h: "lower_hex (of_char c div 16) \<in> hex_digits" "lower_hex (of_char c mod 16) \<in> hex_digits"
    by (auto intro!: lower_hex_digit simp: div_less_iff_less_mult)
  show ?thesis
    using h by (auto simp: json_ascii_def intro!: json_body.intros)
qed

lemma between_high: "between lo hi c \<Longrightarrow> 0x80 \<le> lo \<Longrightarrow> 0x80 \<le> (of_char c :: nat)"
  by (simp add: between_def)

lemma utf8_parts_high:
  "utf8_two a b \<Longrightarrow> list_all (\<lambda>c. 0x80 \<le> (of_char c :: nat)) [a, b]"
  "utf8_three a b c \<Longrightarrow> list_all (\<lambda>c. 0x80 \<le> (of_char c :: nat)) [a, b, c]"
  "utf8_four a b c d \<Longrightarrow> list_all (\<lambda>c. 0x80 \<le> (of_char c :: nat)) [a, b, c, d]"
  unfolding utf8_two_def utf8_three_def utf8_four_def by (elim conjE disjE; simp add: between_high)+

lemma utf8_high: "list_all (\<lambda>c. 0x80 \<le> (of_char c :: nat)) (take (utf8_len s) s)"
proof (cases s rule: utf8_len.cases)
  case (1 a b c d s')
  then show ?thesis using utf8_parts_high by (simp add: eval_nat_numeral)
next
  case (2 a b c)
  then show ?thesis using utf8_parts_high by (simp add: eval_nat_numeral)
next
  case (3 a b)
  then show ?thesis using utf8_parts_high by (simp add: eval_nat_numeral)
qed simp_all

lemma json_chars_body: "json_body (json_chars s)"
proof (induction s rule: json_chars.induct)
  case 1
  then show ?case by (simp add: body_nil)
next
  case (2 c s)
  show ?case
  proof (cases "of_char c < (0x80 :: nat)")
    case True
    then show ?thesis using 2(1) by (simp add: body_append json_ascii_body)
  next
    case False
    note IH = 2(2-5) [OF False refl]
    have "json_body (take (utf8_len (c # s)) (c # s))" using utf8_high [of "c # s"] by (intro body_high) (simp add: list_all_iff)
    then show ?thesis
      using False IH by (auto simp: Let_def intro!: body_unicode body_append simp del: take_Suc_Cons)
  qed
qed

lemma json_string_str: "json_str (json_string s)"
  using json_chars_body by (auto simp: json_str_def json_string_def)

section \<open>Numbers are well formed\<close>

lemma nonzero_list: "list_all (\<lambda>d. digit_char d \<in> nonzero_digits) [1..<10]"
  by code_simp

lemma nonzero_digit: "0 < d \<Longrightarrow> d < 10 \<Longrightarrow> digit_char d \<in> nonzero_digits"
  using nonzero_list by (simp add: list_all_iff del: upt_rec_numeral)

lemma nat_dec_hd: "0 < n \<Longrightarrow> hd (nat_dec n) \<in> nonzero_digits"
proof (induction n rule: nat_dec.induct)
  case (1 n)
  show ?case
  proof (cases "n < 10")
    case True
    then show ?thesis using 1(2) by (subst nat_dec.simps) (simp add: nonzero_digit)
  next
    case False
    then have "0 < n div 10" by (simp add: div_greater_zero_iff)
    then show ?thesis using 1(1) [OF False] False by (subst nat_dec.simps) simp
  qed
qed

lemma json_int_nat_dec: "json_int (nat_dec n)"
proof (cases "n = 0")
  case True
  then show ?thesis by (simp add: json_int_def nat_dec.simps [of 0] digit_char_def) (simp add: char_of_def bit_nat_def)
next
  case False
  then show ?thesis using nat_dec_hd [of n] nat_dec_digits [of n] by (simp add: json_int_def)
qed

lemma json_number_plain: "json_int ip \<Longrightarrow> sign \<in> {[], ''-''} \<Longrightarrow> json_number (sign @ ip)"
  unfolding json_number_def by (intro exI [of _ sign] exI [of _ ip] exI [of _ "[]"]) simp

lemma json_number_int: "json_number (int_dec i)" "json_number (nat_dec n)"
  using json_number_plain [OF json_int_nat_dec, of "''-''" "nat (- i)"] json_number_plain [OF json_int_nat_dec, of "[]"]
  by (auto simp: int_dec_def)

lemma json_number_scaled:
  assumes "sign \<in> {[], ''-''}"
  shows "json_number (sign @ scaled scale n)"
proof (cases "scale = 0")
  case True
  then show ?thesis using json_number_plain [OF json_int_nat_dec assms] by (auto simp: scaled_def Let_def)
next
  case False
  define s where "s = (if scale \<ge> length (nat_dec n) then pad0 (scale + 1) (nat_dec n) else nat_dec n)"
  have digs: "set s \<subseteq> digits" using nat_dec_digits [of n] pad0_digits [OF nat_dec_digits] by (simp add: s_def)
  have len: "scale < length s" by (simp add: s_def pad0_def)
  have "json_int (take (length s - scale) s)"
  proof (cases "scale \<ge> length (nat_dec n)")
    case True
    have pos: "length (nat_dec n) > 0" by simp
    have "s = replicate (scale + 1 - length (nat_dec n)) (CHR ''0'') @ nat_dec n" "length s = scale + 1"
      using True by (simp_all add: s_def pad0_def)
    moreover obtain k where "scale + 1 - length (nat_dec n) = Suc k" using True by (metis Suc_diff_le Suc_eq_plus1)
    moreover have "length s - scale = 1" using calculation(2) by simp
    ultimately have "take (length s - scale) s = ''0''" by simp
    then show ?thesis by (simp add: json_int_def)
  next
    case f: False
    then have s: "s = nat_dec n" by (simp add: s_def)
    then have "0 < n" using f False len by (cases "n = 0") (simp_all add: nat_dec.simps [of 0])
    then have "hd (take (length s - scale) s) \<in> nonzero_digits" using nat_dec_hd [of n] len by (simp add: s)
    moreover have "set (take (length s - scale) s) \<subseteq> digits" using digs by (auto dest: in_set_takeD)
    ultimately show ?thesis using len by (auto simp: json_int_def)
  qed
  moreover have "scaled scale n = take (length s - scale) s @ CHR ''.'' # drop (length s - scale) s"
    using False by (simp add: scaled_def Let_def s_def)
  moreover have "drop (length s - scale) s \<noteq> []" "set (drop (length s - scale) s) \<subseteq> digits"
    using False len digs by (auto dest: in_set_dropD)
  ultimately show ?thesis
    unfolding json_number_def using assms
    by (intro exI [of _ sign] exI [of _ "take (length s - scale) s"] exI [of _ "CHR ''.'' # drop (length s - scale) s"] exI [of _ "[]"]) auto
qed

lemma json_number_decimal: "json_number (Decimal_String d)"
  unfolding Decimal_String_scaled by (rule json_number_scaled) simp

section \<open>Every typed value has a JSON text\<close>

text \<open>The documented form of \<open>strconv.FormatFloat(f, 'g', -1, 64)\<close> for finite numbers.\<close>

definition float_numbers :: "formats \<Rightarrow> bool" where
  "float_numbers fm \<longleftrightarrow> (\<forall>f. \<not> is_inf64 f \<and> \<not> is_nan64 f \<longrightarrow> json_number (fmFloat fm f))"

text \<open>Map types have a key and a value type, as DuckDB's do.\<close>

fun pair_maps :: "logical_type \<Rightarrow> bool" where
  "pair_maps (LogicalType tid wd sc ch fs en asz) \<longleftrightarrow>
     (case ch of None \<Rightarrow> True | Some c \<Rightarrow> pair_maps c \<and> (tid = TypeMap \<longrightarrow> length (tFields c) = 2))
     \<and> list_all (\<lambda>(name, t). pair_maps t) fs"

lemmas text_intros = text_null text_true text_false text_number text_string

lemma scalar_text:
  assumes "scalar_typed tid wd sc en v" "v \<noteq> VNil" "float_numbers fm"
  shows "\<exists>s. json_scalar fm tid v = Ok s \<and> json_text s"
proof -
  have num: "json_text (int_dec i)" "json_text (nat_dec n)" "json_text (Decimal_String d)" "json_text (json_string x)" for i n d x
    using json_number_int json_number_decimal json_string_str text_number text_string by blast+
  have float: "json_text (jsonFloat fm f)" for f
    using assms(3) num(4) text_number by (auto simp: jsonFloat_def float_numbers_def)
  show ?thesis
    using assms(1,2) num float text_true text_false
    by (cases v) (auto simp: scalar_typed_def json_scalar_def scalarDriverValue_def jsonNumberSafe_def type_id_defs)
qed

lemma scalar_value:
  assumes "scalar_typed tid wd sc en v"
  shows "\<exists>dv. scalarDriverValue v = Ok dv"
  using assms by (cases v) (auto simp: scalar_typed_def scalarDriverValue_def)

lemma join_texts:
  "list_all2 (\<lambda>x t. f x = Ok t \<and> P t) xs ts \<Longrightarrow> go_map f xs = Ok ts \<and> (\<forall>t \<in> set ts. P t)"
  by (induction rule: list_all2_induct) auto

lemma go_map_texts:
  assumes "\<And>x. x \<in> set xs \<Longrightarrow> \<exists>t. f x = Ok t \<and> P t"
  shows "\<exists>ts. go_map f xs = Ok ts \<and> (\<forall>t \<in> set ts. P t)"
proof -
  obtain ts where "list_all2 (\<lambda>x t. f x = Ok t \<and> P t) xs ts"
    using list_all2_choose [of xs "\<lambda>x t. f x = Ok t \<and> P t"] assms by blast
  from join_texts [OF this] show ?thesis by blast
qed

lemma driver_value_typed:
  assumes "val_typed t v" and "\<exists>s. f v = Ok s"
  shows "\<exists>dv. driver_value_with f t v = Ok dv"
proof (cases "nested (tID t)")
  case True
  then show ?thesis using assms(2) by (auto simp: driver_value_with_def)
next
  case False
  obtain tid wd sc ch fs en asz where t: "t = LogicalType tid wd sc ch fs en asz" by (cases t) 
  then have "scalar_typed tid wd sc en v"
    using assms(1) False by (cases v) (auto simp: val_typed.simps nested_def scalar_typed_def)
  then show ?thesis using scalar_value False by (simp add: driver_value_with_def)
qed

lemma appendJSON_text:
  assumes fm: "float_numbers fm"
  shows "val_typed t v \<Longrightarrow> pair_maps t \<Longrightarrow> \<exists>s. appendJSON fm t v = Ok s \<and> json_text s"
proof (induction t arbitrary: v rule: measure_induct_rule [of size])
  case (less t)
  obtain tid wd sc ch fs en asz where t: "t = LogicalType tid wd sc ch fs en asz" by (cases t)
  consider (null) "v = VNil" | (list) vs c where "v = VList vs" "ch = Some c" "tid = TypeList \<or> tid = TypeArray" "list_all (val_typed c) vs"
    | (struct) es where "v = VStruct es" "tid = TypeStruct" "map fst es = map fst fs" "list_all (\<lambda>((_, t), (_, x)). val_typed t x) (zip fs es)"
    | (map) kvs c where "v = VMap kvs" "tid = TypeMap" "ch = Some c"
    | (scalar) "v \<noteq> VNil" "scalar_typed tid wd sc en v" "\<not> nested tid"
    using less.prems(1) by (cases v) (auto simp: t val_typed.simps scalar_typed_def nested_def type_id_defs split: option.splits logical_type.splits)
  then show ?case
  proof cases
    case null
    then show ?thesis using text_null by (simp add: t appendJSON.simps)
  next
    case (list vs c)
    have "\<exists>ts. go_map (appendJSON fm c) vs = Ok ts \<and> (\<forall>t \<in> set ts. json_text t)"
      using less.IH [of c] less.prems(2) list by (intro go_map_texts) (auto simp: t list_all_iff)
    then show ?thesis using list text_array by (auto simp: t appendJSON.simps)
  next
    case (struct es)
    have len: "length es = length fs" using struct(3) by (metis length_map)
    let ?f = "\<lambda>((n :: string, t), (name, x)). go_bind (appendJSON fm t x) (\<lambda>s. Ok (json_string name @ CHR '':'' # s))"
    let ?P = "\<lambda>s. \<exists>k t. s = k @ CHR '':'' # t \<and> json_str k \<and> json_text t"
    have each: "\<exists>s. ?f p = Ok s \<and> ?P s" if p: "p \<in> set (zip fs es)" for p
    proof -
      obtain n t' n' x where pp: "p = ((n, t'), (n', x))" by (metis surj_pair)
      have f: "(n, t') \<in> set fs" using p pp by (auto dest: set_zip_leftD)
      then have "size t' < size_list (size_prod (\<lambda>x. 0) size) fs" by (induction fs) auto
      then have "size t' < size t" by (simp add: t)
      moreover have "pair_maps t'" "val_typed t' x" using less.prems(2) struct(4) p f pp by (auto simp: t list_all_iff)
      ultimately obtain s where "appendJSON fm t' x = Ok s" "json_text s" using less.IH by blast
      then show ?thesis using json_string_str pp by auto
    qed
    obtain ts where ts: "go_map ?f (zip fs es) = Ok ts" "\<forall>m \<in> set ts. ?P m"
      using go_map_texts [where f = ?f and P = ?P, of "zip fs es"] each by blast
    have "TypeStruct \<noteq> TypeList" "TypeStruct \<noteq> TypeArray" by (simp_all add: type_id_defs)
    then show ?thesis using struct(1,2) len ts(1) text_object [OF ts(2)] by (simp add: t appendJSON.simps)
  next
    case (map kvs c)
    obtain ctid cwd csc cch cfs cen casz where c: "c = LogicalType ctid cwd csc cch cfs cen casz" by (cases c)
    have "length cfs = 2" using less.prems(2) map by (simp add: t c)
    then obtain a kt b vt where cfs: "cfs = [(a, kt), (b, vt)]" by (auto simp: length_Suc_conv eval_nat_numeral)
    have size: "size kt < size t" "size vt < size t" by (simp_all add: t map c cfs)
    have pm: "pair_maps kt" "pair_maps vt" using less.prems(2) by (simp_all add: t map c cfs)
    have kv: "val_typed kt k \<and> val_typed vt x" if "(k, x) \<in> set kvs" for k x
      using less.prems(1) that by (auto simp: t map c cfs val_typed.simps list_all_iff)
    let ?f = "\<lambda>(k, x). go_bind (driver_value_with (appendJSON fm kt) kt k) (\<lambda>key.
            go_bind (appendJSON fm vt x) (\<lambda>s. Ok (json_string (keyString fm key) @ CHR '':'' # s)))"
    let ?P = "\<lambda>s. \<exists>k t. s = k @ CHR '':'' # t \<and> json_str k \<and> json_text t"
    have each: "\<exists>s. ?f p = Ok s \<and> ?P s" if "p \<in> set kvs" for p
    proof -
      obtain k x where p: "p = (k, x)" by fastforce
      then have typed: "val_typed kt k" "val_typed vt x" using kv that by blast+
      have "\<exists>sk. appendJSON fm kt k = Ok sk" using less.IH [OF size(1) typed(1) pm(1)] by blast
      from driver_value_typed [where f = "appendJSON fm kt", OF typed(1) this]
      obtain key where "driver_value_with (appendJSON fm kt) kt k = Ok key" ..
      moreover obtain s where "appendJSON fm vt x = Ok s" "json_text s" using less.IH [OF size(2) typed(2) pm(2)] by blast
      ultimately show ?thesis using json_string_str p by auto
    qed
    obtain ts where ts: "go_map ?f kvs = Ok ts" "\<forall>m \<in> set ts. ?P m"
      using go_map_texts [where f = ?f and P = ?P, of kvs] each by blast
    have "TypeMap \<noteq> TypeList" "TypeMap \<noteq> TypeArray" "TypeMap \<noteq> TypeStruct" by (simp_all add: type_id_defs)
    then show ?thesis using ts(1) text_object [OF ts(2)] by (simp add: t map c cfs appendJSON.simps)
  next
    case scalar
    then show ?thesis using scalar_text [OF scalar(2,1) fm] by (auto simp: t appendJSON.simps nested_def)
  qed
qed


lemma scalarDriverValue_returns [simp]: "scalarDriverValue v \<noteq> Panic"
  by (cases v) (simp_all add: scalarDriverValue_def)

lemma json_scalar_returns [simp]: "json_scalar fm tid v \<noteq> Panic"
  by (cases "scalarDriverValue v") (auto simp: json_scalar_def split: driver_value.split)

lemma driver_value_returns: "f v \<noteq> Panic \<Longrightarrow> driver_value_with f t v \<noteq> Panic"
  by (auto simp: driver_value_with_def go_bind_eq_Panic)

lemma appendJSON_returns: "val_typed t v \<Longrightarrow> appendJSON fm t v \<noteq> Panic"
proof (induction t arbitrary: v rule: measure_induct_rule [of size])
  case (less t)
  obtain tid wd sc ch fs en asz where t: "t = LogicalType tid wd sc ch fs en asz" by (cases t)
  consider (list) vs c where "v = VList vs" "ch = Some c" "list_all (val_typed c) vs"
    | (struct) es where "v = VStruct es" "list_all (\<lambda>((_, t), (_, x)). val_typed t x) (zip fs es)"
    | (map) kvs c where "v = VMap kvs" "ch = Some c"
    | (scalar) "\<forall>vs. v \<noteq> VList vs" "\<forall>es. v \<noteq> VStruct es" "\<forall>kvs. v \<noteq> VMap kvs"
    using less.prems(1) by (cases v) (auto simp: t val_typed.simps split: option.splits logical_type.splits)
  then show ?case
  proof cases
    case (list vs c)
    have "go_map (appendJSON fm c) vs \<noteq> Panic"
      using less.IH [of c] list by (intro go_map_not_panic) (auto simp: t list_all_iff)
    then show ?thesis using list by (auto simp: t appendJSON.simps go_bind_eq_Panic)
  next
    case (struct es)
    have "appendJSON fm t' x \<noteq> Panic" if p: "((n, t'), (n', x)) \<in> set (zip fs es)" for n t' n' x
    proof -
      have "(n, t') \<in> set fs" using p by (auto dest: set_zip_leftD)
      then have "size t' < size_list (size_prod (\<lambda>x. 0) size) fs" by (induction fs) auto
      moreover have "val_typed t' x" using struct(2) p by (auto simp: list_all_iff)
      ultimately show ?thesis using less.IH by (simp add: t)
    qed
    then have "go_map (\<lambda>((n :: string, t), (name, x)). go_bind (appendJSON fm t x) (\<lambda>s. Ok (json_string name @ CHR '':'' # s))) (zip fs es) \<noteq> Panic"
      by (intro go_map_not_panic) (auto simp: go_bind_eq_Panic)
    then show ?thesis using struct by (auto simp: t appendJSON.simps go_bind_eq_Panic)
  next
    case (map kvs c)
    have "go_map (\<lambda>(k, x). go_bind (driver_value_with (appendJSON fm kt) kt k) (\<lambda>key.
            go_bind (appendJSON fm vt x) (\<lambda>s. Ok (json_string (keyString fm key) @ CHR '':'' # s)))) kvs \<noteq> Panic"
      if c: "c = LogicalType ctid cwd csc cch [(a, kt), (b, vt)] cen casz" for ctid cwd csc cch a kt b vt cen casz
    proof -
      have "appendJSON fm kt k \<noteq> Panic \<and> appendJSON fm vt x \<noteq> Panic" if "(k, x) \<in> set kvs" for k x
      proof -
        have "val_typed kt k" "val_typed vt x" using less.prems(1) that by (auto simp: t map c val_typed.simps list_all_iff)
        then show ?thesis using less.IH [of kt] less.IH [of vt] by (simp add: t map c)
      qed
      then show ?thesis
        by (intro go_map_not_panic) (auto simp: go_bind_eq_Panic driver_value_returns)
    qed
    then show ?thesis
      by (cases c) (simp add: t map appendJSON.simps go_bind_eq_Panic split: list.split prod.split)
  next
    case scalar
    then show ?thesis by (cases v) (auto simp: t appendJSON.simps)
  qed
qed


section \<open>Values cross\<close>

text \<open>A driver value denotes an integer as a number or, out of the range of \<open>int64\<close>, as its digits.\<close>

definition denotes_int :: "driver_value \<Rightarrow> int \<Rightarrow> bool" where
  "denotes_int dv i \<longleftrightarrow>
     (if IsInt64 i then (\<exists>x. dv = AInt64 x \<and> sint x = i) else dv = AString (int_dec i))"

definition crosses :: "logical_type \<Rightarrow> val \<Rightarrow> driver_value \<Rightarrow> bool" where
  "crosses t v dv \<longleftrightarrow>
     dv \<noteq> AOther \<and> (\<forall>d. dv \<noteq> ADecimal d) \<and> (dv = ANil \<longleftrightarrow> v = VNil)
     \<and> (nested (tID t) \<and> v \<noteq> VNil \<longrightarrow> (\<exists>s. dv = AString s \<and> json_text s))
     \<and> (\<forall>i. int_of_val v = Some i \<longrightarrow> denotes_int dv i)"

lemma sint_of_int: "IsInt64 i \<Longrightarrow> sint (word_of_int i :: u64) = i"
  by (simp add: signed_of_int signed_take_bit_int_eq_self IsInt64_def)

lemma small_sint:
  "IsInt64 (sint (x :: byte))" "IsInt64 (sint (y :: u16))" "IsInt64 (sint (z :: u32))" "IsInt64 (sint (w :: u64))"
  using sint_range_size [of x] sint_range_size [of y] sint_range_size [of z] sint_range_size [of w]
  by (simp_all add: word_size IsInt64_def)

lemma small_uint: "IsInt64 (uint (x :: byte))" "IsInt64 (uint (y :: u16))" "IsInt64 (uint (z :: u32))"
  using uint_lt2p [of x] uint_lt2p [of y] uint_lt2p [of z] order_trans [OF _ uint_ge_0, of "- (2 ^ 63)"]
  by (simp_all add: IsInt64_def)

lemma large_uint: "x > 0x7fffffffffffffff \<longleftrightarrow> \<not> IsInt64 (uint (x :: u64))"
  using order_trans [OF _ uint_ge_0, of "- (2 ^ 63)" x] by (simp add: IsInt64_def word_less_def linorder_not_less [symmetric]) arith

lemma sint_casts:
  "sint (scast (x :: byte) :: u64) = sint x" "sint (scast (y :: u16) :: u64) = sint y" "sint (scast (z :: u32) :: u64) = sint z"
  "sint (ucast (x :: byte) :: u64) = uint x" "sint (ucast (y :: u16) :: u64) = uint y" "sint (ucast (z :: u32) :: u64) = uint z"
  using small_sint [THEN sint_of_int] small_uint [THEN sint_of_int] unfolding of_int_sint of_int_uint by blast+

lemma sint_uint_range: "IsInt64 (uint (x :: u64)) \<Longrightarrow> sint x = uint x"
  using sint_of_int [of "uint x"] by simp

lemma nat_dec_int: "nat_dec (unat x) = int_dec (uint x)"
  using uint_ge_0 [of x] by (simp add: int_dec_def del: uint_ge_0)

lemma scalar_int: "scalarDriverValue v = Ok dv \<Longrightarrow> int_of_val v = Some i \<Longrightarrow> denotes_int dv i"
  by (cases v) (auto simp: scalarDriverValue_def int_of_val_def denotes_int_def small_sint small_uint sint_of_int sint_casts
    sint_uint_range large_uint nat_dec_int)

lemma scalar_nil: "scalarDriverValue v = Ok dv \<Longrightarrow> (dv = ANil \<longleftrightarrow> v = VNil) \<and> dv \<noteq> AOther \<and> (\<forall>d. dv \<noteq> ADecimal d)"
  by (cases v) (auto simp: scalarDriverValue_def split: if_splits)

lemma nested_not_int: "val_typed t v \<Longrightarrow> nested (tID t) \<Longrightarrow> int_of_val v = None"
  by (cases t; cases v) (auto simp: val_typed.simps scalar_typed_def nested_def int_of_val_def type_id_defs)

lemma toDriverValue_Ok:
  assumes "val_typed t v" "pair_maps t" "float_numbers fm"
  shows "\<exists>dv. toDriverValue fm t v = Ok dv \<and> crosses t v dv"
proof (cases "nested (tID t)")
  case True
  obtain s where "appendJSON fm t v = Ok s" "json_text s" using appendJSON_text assms by blast
  then show ?thesis using True nested_not_int [OF assms(1) True] by (auto simp: toDriverValue_def driver_value_with_def crosses_def)
next
  case False
  obtain tid wd sc ch fs en asz where t: "t = LogicalType tid wd sc ch fs en asz" by (cases t)
  have "scalar_typed tid wd sc en v"
    using assms(1) False by (cases v) (auto simp: t val_typed.simps nested_def scalar_typed_def)
  then obtain dv where dv: "scalarDriverValue v = Ok dv" using scalar_value by blast
  then show ?thesis using False scalar_int [OF dv] scalar_nil [OF dv] by (simp add: toDriverValue_def driver_value_with_def crosses_def)
qed

text \<open>C28: Every value of a column's type crosses to \<open>database/sql\<close> without a panic.  If map types have a key and a
  value type it crosses as a \<open>driver.Value\<close>, nil exactly for nil: an integer of any width as the same
  \<open>int64\<close> or, out of its range, as its decimal digits, and a nested value as well-formed JSON.\<close>

theorem toDriverValue_crosses:
  assumes "val_typed t v"
  shows "toDriverValue fm t v \<noteq> Panic
    \<and> (pair_maps t \<and> float_numbers fm \<longrightarrow> (\<exists>dv. toDriverValue fm t v = Ok dv \<and> crosses t v dv))"
  using appendJSON_returns [OF assms] toDriverValue_Ok [OF assms]
  by (simp add: toDriverValue_def driver_value_returns)

text \<open>The LIST of INTEGER \<open>[5, NULL]\<close> crosses as JSON, whatever the formats write for a finite number.\<close>

definition plain_formats :: formats where
  "plain_formats = \<lparr>fmFloat = (\<lambda>f. ''0''), fmDate = (\<lambda>t. ''d''), fmStamp = (\<lambda>t. ''s''), fmSprint = (\<lambda>t. ''p'')\<rparr>"

lemma plain_float_numbers: "float_numbers plain_formats"
  using json_number_plain [of "''0''" "[]"] by (simp add: float_numbers_def plain_formats_def json_int_def)

definition int_list :: logical_type where
  "int_list = LogicalType TypeList 0 0 (Some (scalar_type TypeInteger)) [] [] 0"

theorem toDriverValue_crosses_witness:
  "\<exists>dv. toDriverValue plain_formats int_list (VList [VInt32 5, VNil]) = Ok dv \<and> crosses int_list (VList [VInt32 5, VNil]) dv"
proof -
  have t: "val_typed int_list (VList [VInt32 5, VNil])"
    by (simp add: int_list_def scalar_type_def val_typed.simps scalar_typed_def type_id_defs)
  have "pair_maps int_list" by (simp add: int_list_def scalar_type_def type_id_defs)
  with toDriverValue_crosses [OF t, of plain_formats] plain_float_numbers show ?thesis by blast
qed

section \<open>The cursor\<close>

text \<open>
  What \<open>next\<close> still yields: chunks, then at most one error.  \<open>iter_pulls\<close> is that list for an
  iteration that has ended.
\<close>

type_synonym pulls = "(rows_error, chunk) go list"

record rows =
  rwSchema :: schema
  rwPulls :: pulls
  rwChunk :: "chunk option"
  rwRow :: nat
  rwClosed :: bool

definition stream_failure :: "('s, chunk, duck_error) stream \<Rightarrow> rows_error list" where
  "stream_failure st =
     (case stIter st of CEnd (StreamError e) \<Rightarrow> [RowsStream e] | CEnd Cancelled \<Rightarrow> [RowsContext] | _ \<Rightarrow> [])"

definition iter_pulls :: "('s, chunk, duck_error) stream \<Rightarrow> pulls" where
  "iter_pulls st = map Ok (stDelivered st) @ map Err (stream_failure st)"

definition newRows :: "schema \<Rightarrow> pulls \<Rightarrow> rows" where
  "newRows sc ps = \<lparr>rwSchema = sc, rwPulls = ps, rwChunk = None, rwRow = 0, rwClosed = False\<rparr>"

definition Columns :: "rows \<Rightarrow> string list" where
  "Columns r = map scName (rwSchema r)"

definition ColumnTypeDatabaseTypeName :: "rows \<Rightarrow> nat \<Rightarrow> (unit, string) go" where
  "ColumnTypeDatabaseTypeName r i = go_bind (go_index (rwSchema r) i) (\<lambda>c. LogicalType_String (scType c))"

definition rows_ready :: "rows \<Rightarrow> bool" where
  "rows_ready r = (case rwChunk r of None \<Rightarrow> False | Some ch \<Rightarrow> rwRow r < RowCount ch)"

text \<open>The loop at the head of \<open>Next\<close>.\<close>

function rows_advance :: "rows \<Rightarrow> (rows_error, unit) go \<times> rows" where
  "rows_advance r =
     (if rows_ready r then (Ok (), r)
      else case rwPulls r of
             [] \<Rightarrow> (Err RowsEOF, r)
           | Ok ch # ps \<Rightarrow> rows_advance (r\<lparr>rwPulls := ps, rwChunk := Some ch, rwRow := 0\<rparr>)
           | Err e # ps \<Rightarrow> (Err e, r\<lparr>rwPulls := ps\<rparr>)
           | Panic # ps \<Rightarrow> (Panic, r\<lparr>rwPulls := ps\<rparr>))"
  by pat_completeness auto
termination
  by (relation "measure (length \<circ> rwPulls)") auto

declare rows_advance.simps [simp del]

text \<open>The cells \<open>Next\<close> stores for the columns below \<open>n\<close>, the length of \<open>dest\<close>.\<close>

definition row_cells :: "formats \<Rightarrow> nat \<Rightarrow> chunk \<Rightarrow> nat \<Rightarrow> (rows_error, driver_value list) go" where
  "row_cells fm n ch row =
     go_map (\<lambda>i. go_bind (map_err RowsCodec (Chunk_Value ch (int i) (int row))) (\<lambda>v.
                 go_bind (map_err RowsCodec (Chunk_Column ch i)) (\<lambda>cl. toDriverValue fm (colType cl) v))) [0..<n]"

definition Rows_Next :: "formats \<Rightarrow> nat \<Rightarrow> rows \<Rightarrow> (rows_error, driver_value list) go \<times> rows" where
  "Rows_Next fm n r =
     (case rows_advance r of
        (Ok u, r) \<Rightarrow>
          (case rwChunk r of
             None \<Rightarrow> (Panic, r)
           | Some ch \<Rightarrow>
               (case row_cells fm n ch (rwRow r) of
                  Ok dest \<Rightarrow> (Ok dest, r\<lparr>rwRow := rwRow r + 1\<rparr>)
                | Err e \<Rightarrow> (Err e, r)
                | Panic \<Rightarrow> (Panic, r)))
      | (Err e, r) \<Rightarrow> (Err e, r)
      | (Panic, r) \<Rightarrow> (Panic, r))"

text \<open>\<open>stop\<close> ends the iteration: \<open>next\<close> yields nothing more.\<close>

definition Rows_Close :: "rows \<Rightarrow> rows" where
  "Rows_Close r = (if rwClosed r then r else r\<lparr>rwClosed := True, rwPulls := []\<rparr>)"

text \<open>The outcomes of \<open>k\<close> calls to \<open>Next\<close>.\<close>

primrec next_results :: "formats \<Rightarrow> nat \<Rightarrow> nat \<Rightarrow> rows \<Rightarrow> (rows_error, driver_value list) go list" where
  "next_results fm n 0 r = []"
| "next_results fm n (Suc k) r = (case Rows_Next fm n r of (res, r) \<Rightarrow> res # next_results fm n k r)"

section \<open>Rows in order\<close>

text \<open>A chunk whose first \<open>n\<close> columns can be read, and the row of driver values a row of it crosses to.\<close>

definition readable :: "nat \<Rightarrow> chunk \<Rightarrow> bool" where
  "readable n ch \<longleftrightarrow> chunk_wf ch \<and> n \<le> ColumnCount ch
     \<and> (\<forall>cl \<in> set (take n (chCols ch)). colErr cl = None \<and> pair_maps (colType cl))"

definition row_crosses :: "formats \<Rightarrow> nat \<Rightarrow> chunk \<times> nat \<Rightarrow> driver_value list \<Rightarrow> bool" where
  "row_crosses fm n = (\<lambda>(ch, i) row.
     list_all2 (\<lambda>cl dv. toDriverValue fm (colType cl) (colVals cl ! i) = Ok dv \<and> crosses (colType cl) (colVals cl ! i) dv)
       (take n (chCols ch)) row)"

definition rows_of :: "chunk \<Rightarrow> (chunk \<times> nat) list" where
  "rows_of ch = map (Pair ch) [0..<RowCount ch]"

lemma row_cells_cross:
  assumes "readable n ch" "i < RowCount ch" "float_numbers fm"
  shows "\<exists>row. row_cells fm n ch i = Ok row \<and> row_crosses fm n (ch, i) row"
proof -
  let ?cols = "take n (chCols ch)"
  let ?P = "\<lambda>cl dv. toDriverValue fm (colType cl) (colVals cl ! i) = Ok dv \<and> crosses (colType cl) (colVals cl ! i) dv"
  have "\<exists>dv. ?P cl dv" if "cl \<in> set ?cols" for cl
  proof -
    have "column_wf (chRows ch) cl" "colErr cl = None" "pair_maps (colType cl)"
      using that assms(1) by (auto simp: readable_def chunk_wf_def dest: in_set_takeD)
    then have "val_typed (colType cl) (colVals cl ! i)" using assms(2) by (simp add: column_wf_def RowCount_def)
    then show ?thesis using toDriverValue_Ok \<open>pair_maps (colType cl)\<close> assms(3) by blast
  qed
  then obtain row where row: "list_all2 ?P ?cols row" using list_all2_choose [of ?cols ?P] by blast
  have n: "length row = n" "n \<le> length (chCols ch)" using list_all2_lengthD [OF row] assms(1) by (simp_all add: readable_def ColumnCount_def)
  have "go_bind (map_err RowsCodec (Chunk_Value ch (int j) (int i))) (\<lambda>v.
      go_bind (map_err RowsCodec (Chunk_Column ch j)) (\<lambda>cl. toDriverValue fm (colType cl) v)) = Ok (row ! j)" if "j \<in> set [0..<n]" for j
  proof -
    have j: "j < n" using that by simp
    have cl: "chCols ch ! j \<in> set ?cols" using j n by (metis length_take min.absorb2 nth_mem nth_take)
    then have "column_wf (chRows ch) (chCols ch ! j)" "colErr (chCols ch ! j) = None"
      using assms(1) by (auto simp: readable_def chunk_wf_def dest: in_set_takeD)
    then have "map_err RowsCodec (Chunk_Value ch (int j) (int i)) = Ok (colVals (chCols ch ! j) ! i)"
      using assms(2) j n by (simp add: Chunk_Value_def column_wf_def RowCount_def)
    moreover have "toDriverValue fm (colType (chCols ch ! j)) (colVals (chCols ch ! j) ! i) = Ok (row ! j)"
      using list_all2_nthD [OF row, of j] j n by simp
    ultimately show ?thesis using j n by (simp add: Chunk_Column_def)
  qed
  then have "row_cells fm n ch i = Ok (map ((!) row) [0..<n])" unfolding row_cells_def by (rule go_map_Ok)
  then show ?thesis using row n by (metis (mono_tags, lifting) map_nth row_crosses_def case_prod_conv)
qed


text \<open>The rows ahead of a cursor which still pulls the chunks \<open>chs\<close>.\<close>

definition ahead :: "rows \<Rightarrow> chunk list \<Rightarrow> (chunk \<times> nat) list" where
  "ahead r chs = (case rwChunk r of None \<Rightarrow> [] | Some ch \<Rightarrow> map (Pair ch) [rwRow r..<RowCount ch]) @ concat (map rows_of chs)"

definition on_row :: "chunk \<times> nat \<Rightarrow> rows \<Rightarrow> bool" where
  "on_row p r \<longleftrightarrow> rwChunk r = Some (fst p) \<and> rwRow r = snd p \<and> snd p < RowCount (fst p)"

lemma ahead_ready: "on_row p r \<Longrightarrow> ahead r chs = p # ahead (r\<lparr>rwRow := rwRow r + 1\<rparr>) chs"
  by (cases p) (simp add: ahead_def on_row_def upt_conv_Cons)

lemma ahead_unready: "\<not> rows_ready r \<Longrightarrow> ahead r chs = concat (map rows_of chs)"
  by (auto simp: ahead_def rows_ready_def split: option.splits)

lemma advance_to_row:
  assumes "rwPulls r = map Ok chs @ tail" "ahead r chs = p # rest"
  shows "\<exists>r' chs'. rows_advance r = (Ok (), r') \<and> on_row p r' \<and> rwPulls r' = map Ok chs' @ tail
    \<and> ahead (r'\<lparr>rwRow := rwRow r' + 1\<rparr>) chs' = rest"
  using assms
proof (induction chs arbitrary: r)
  case Nil
  then have "rows_ready r" using ahead_unready [of r "[]"] by auto
  then obtain ch where "on_row (ch, rwRow r) r" by (auto simp: rows_ready_def on_row_def split: option.splits)
  moreover from this have "p = (ch, rwRow r)" "ahead (r\<lparr>rwRow := rwRow r + 1\<rparr>) [] = rest" using Nil(2) ahead_ready by fastforce+
  ultimately show ?case using \<open>rows_ready r\<close> Nil(1) by (intro exI [of _ r] exI [of _ "[]"]) (simp add: rows_advance.simps)
next
  case (Cons c chs)
  show ?case
  proof (cases "rows_ready r")
    case True
    then obtain ch where "on_row (ch, rwRow r) r" by (auto simp: rows_ready_def on_row_def split: option.splits)
    moreover from this have "p = (ch, rwRow r)" "ahead (r\<lparr>rwRow := rwRow r + 1\<rparr>) (c # chs) = rest" using Cons(3) ahead_ready by fastforce+
    ultimately show ?thesis using True Cons(2) by (intro exI [of _ r] exI [of _ "c # chs"]) (simp add: rows_advance.simps)
  next
    case False
    let ?r = "r\<lparr>rwPulls := map Ok chs @ tail, rwChunk := Some c, rwRow := 0\<rparr>"
    have "rows_advance r = rows_advance ?r" using False Cons(2) by (subst rows_advance.simps) simp
    moreover have "ahead ?r chs = p # rest" using Cons(3) ahead_unready [OF False] by (simp add: ahead_def rows_of_def)
    ultimately show ?thesis using Cons.IH [of ?r] by simp
  qed
qed

lemma advance_to_end:
  assumes "rwPulls r = map Ok chs @ map Err es" "ahead r chs = []"
  shows "\<exists>r'. rows_advance r = (Err (case es of [] \<Rightarrow> RowsEOF | e # _ \<Rightarrow> e), r') \<and> rwPulls r' = map Err (tl es) \<and> ahead r' [] = []"
  using assms
proof (induction chs arbitrary: r)
  case Nil
  then have "\<not> rows_ready r" by (auto simp: ahead_def rows_ready_def split: option.splits)
  moreover have "ahead (r\<lparr>rwPulls := ps\<rparr>) [] = []" for ps using Nil(2) by (auto simp: ahead_def split: option.split)
  ultimately show ?case using Nil(1,2) by (cases es) (simp_all add: rows_advance.simps)
next
  case (Cons c chs)
  let ?r = "r\<lparr>rwPulls := map Ok chs @ map Err es, rwChunk := Some c, rwRow := 0\<rparr>"
  have un: "\<not> rows_ready r" using Cons(3) by (auto simp: ahead_def rows_ready_def split: option.splits)
  then have "rows_advance r = rows_advance ?r" using Cons(2) by (subst rows_advance.simps) simp
  moreover have "ahead ?r chs = []" using Cons(3) ahead_unready [OF un] by (simp add: ahead_def rows_of_def)
  ultimately show ?case using Cons.IH [of ?r] by simp
qed

lemma take_Cons_replicate: "k \<le> m \<Longrightarrow> take k (x # replicate m x) = replicate k x"
  by (simp flip: replicate_Suc)

lemma next_results_ended:
  assumes "rwPulls r = map Ok chs @ map Err es" "ahead r chs = []"
  shows "next_results fm n m r = take m (map Err es @ replicate m (Err RowsEOF))"
  using assms
proof (induction m arbitrary: r chs es)
  case (Suc m)
  obtain r' where r': "rows_advance r = (Err (case es of [] \<Rightarrow> RowsEOF | e # _ \<Rightarrow> e), r')" "rwPulls r' = map Err (tl es)" "ahead r' [] = []"
    using advance_to_end [OF Suc.prems] by blast
  have "next_results fm n m r' = take m (map Err (tl es) @ replicate m (Err RowsEOF))"
    using Suc.IH [of r' "[]"] r'(2,3) by simp
  moreover have "Rows_Next fm n r = (Err (case es of [] \<Rightarrow> RowsEOF | e # _ \<Rightarrow> e), r')" by (simp add: Rows_Next_def r'(1))
  ultimately show ?case by (cases es) (simp_all add: take_Cons_replicate)
qed simp

lemma next_results_table:
  assumes "rwPulls r = map Ok chs @ map Err es" "\<forall>(ch, i) \<in> set (ahead r chs). readable n ch" "float_numbers fm"
  shows "\<exists>table. list_all2 (row_crosses fm n) (ahead r chs) table
    \<and> (\<forall>m. next_results fm n (length table + m) r = map Ok table @ take m (map Err es @ replicate m (Err RowsEOF)))"
  using assms(1,2)
proof (induction "ahead r chs" arbitrary: r chs)
  case Nil
  show ?case using next_results_ended [OF Nil(2)] Nil(1) by (intro exI [of _ "[]"]) simp
next
  case (Cons p rest)
  obtain r' chs' where r': "rows_advance r = (Ok (), r')" "on_row p r'" "rwPulls r' = map Ok chs' @ map Err es"
      "ahead (r'\<lparr>rwRow := rwRow r' + 1\<rparr>) chs' = rest"
    using advance_to_row [OF Cons.prems(1) Cons.hyps(2) [symmetric]] by blast
  obtain ch i where p: "p = (ch, i)" by fastforce
  have "readable n ch" using Cons.prems(2) Cons.hyps(2) p by (metis case_prodD list.set_intros(1))
  then obtain row where row: "row_cells fm n ch i = Ok row" "row_crosses fm n p row"
    using row_cells_cross [of n ch i fm] r'(2) assms(3) p by (auto simp: on_row_def)
  let ?r = "r'\<lparr>rwRow := rwRow r' + 1\<rparr>"
  have "\<forall>(ch, i) \<in> set (ahead ?r chs'). readable n ch" using Cons.prems(2) Cons.hyps(2) r'(4) by (metis list.set_intros(2))
  then obtain table where "list_all2 (row_crosses fm n) rest table"
      "\<forall>m. next_results fm n (length table + m) ?r = map Ok table @ take m (map Err es @ replicate m (Err RowsEOF))"
    using Cons.hyps(1) [of ?r chs'] r'(3,4) by auto
  moreover have "Rows_Next fm n r = (Ok row, ?r)" using r'(1,2) row(1) p by (simp add: Rows_Next_def on_row_def)
  ultimately show ?case using row(2) Cons.hyps(2) by (intro exI [of _ "row # table"]) (simp flip: Cons.hyps(2))
qed

lemma cursor_reads:
  assumes "list_all (readable n) (stDelivered st)" "float_numbers fm"
  shows "\<exists>table. list_all2 (row_crosses fm n) (concat (map rows_of (stDelivered st))) table
    \<and> (\<forall>m. next_results fm n (length table + m) (newRows sc (iter_pulls st))
        = map Ok table @ take m (map Err (stream_failure st) @ replicate m (Err RowsEOF)))"
  using next_results_table [of "newRows sc (iter_pulls st)" "stDelivered st" "stream_failure st" n fm] assms
  by (auto simp: newRows_def iter_pulls_def ahead_def rows_of_def list_all_iff)

text \<open>C27: Reading a result of well-formed, supported chunks through \<open>Next\<close> yields every row of every
  chunk once, in the order of delivery, each cell crossed from the column's value; the next call
  returns the error the stream ended with, if it did, and every further one \<open>io.EOF\<close>.\<close>

theorem rows_in_order:
  assumes "list_all (readable n) (stDelivered st)" "float_numbers fm"
  shows "\<exists>table. list_all2 (row_crosses fm n) (concat (map rows_of (stDelivered st))) table
    \<and> (\<forall>m. next_results fm n (length table + m) (newRows sc (iter_pulls st))
        = map Ok table @ take m (map Err (stream_failure st) @ replicate m (Err RowsEOF)))"
  by (rule cursor_reads [OF assms])

text \<open>Two rows of INTEGER, 5 and NULL, from a stream that failed behind them.\<close>

definition failed_stream :: "(unit, chunk, duck_error) stream" where
  "failed_stream = (stream_init () [])\<lparr>
     stDelivered := [\<lparr>chRows = 2, chCols = [\<lparr>colType = scalar_type TypeInteger, colVals = [VInt32 5, VNil], colErr = None\<rparr>]\<rparr>],
     stIter := CEnd (StreamError (DFetch ErrVectorDepth))\<rparr>"

theorem rows_in_order_witness:
  "\<exists>table. length table = 2 \<and>
     next_results plain_formats 1 4 (newRows [] (iter_pulls failed_stream)) =
       map Ok table @ [Err (RowsStream (DFetch ErrVectorDepth)), Err RowsEOF]"
proof -
  have "list_all (readable 1) (stDelivered failed_stream)"
    by (auto simp: failed_stream_def readable_def chunk_wf_def column_wf_def maxChunkRows_def ColumnCount_def scalar_type_def
      val_typed.simps scalar_typed_def type_id_defs)
  from rows_in_order [OF this plain_float_numbers, of "[]"] obtain table
    where "list_all2 (row_crosses plain_formats 1) (concat (map rows_of (stDelivered failed_stream))) table"
      and all: "next_results plain_formats 1 (length table + m) (newRows [] (iter_pulls failed_stream))
        = map Ok table @ take m (map Err (stream_failure failed_stream) @ replicate m (Err RowsEOF))" for m by blast
  then have "length table = 2"
    by (auto dest!: list_all2_lengthD simp: failed_stream_def rows_of_def RowCount_def)
  moreover have "next_results plain_formats 1 (2 + 2) (newRows [] (iter_pulls failed_stream))
      = map Ok table @ [Err (RowsStream (DFetch ErrVectorDepth)), Err RowsEOF]"
    using all [of 2] calculation by (simp add: failed_stream_def stream_failure_def)
  ultimately show ?thesis by auto
qed

end
