(* ===== verification/Driver_Select.thy ===== *)
theory Driver_Select
  imports Driver_Conn Driver_Rows
begin

text \<open>
  A SELECT through \<open>database/sql\<close>, end to end: the interpolation of the arguments, the query on the
  wire, the server, the stream with its workers, and the cursor with the conversion of every cell.
\<close>

text \<open>The map types of every column have a key and a value type, and no chunk has fewer columns than the result.\<close>

definition selectable :: "quack_result \<Rightarrow> bool" where
  "selectable res \<longleftrightarrow>
     (\<forall>cols \<in> set (concat (qrBatches res)). length (qrCols res) \<le> length cols \<and> (\<forall>c \<in> set cols. pair_maps (cType c)))"

lemma decoded_chunk_wf: "chunk_codable cols \<Longrightarrow> chunk_wf (decoded_chunk cols)"
  using chunk_encodable [of cols] unfolding encodes_chunk_def by (metis decodeChunkContents_post(3))

lemma codable_readable:
  assumes "chunk_codable cols" "n \<le> length cols" "\<forall>c \<in> set cols. pair_maps (cType c)"
  shows "readable n (decoded_chunk cols)"
  using decoded_chunk_wf [OF assms(1)] assms(2,3)
  by (auto simp: readable_def ColumnCount_def decoded_chunk_def decoded_column_def dest!: in_set_takeD)

lemma delivered_readable:
  assumes "quack_ready s" "svResults s sql = Some res" "selectable res"
    and "mset chs = mset (map decoded_chunk (concat (qrBatches res)))"
  shows "list_all (readable (length (qrCols res))) chs"
proof -
  have "list_all chunk_codable (concat (qrBatches res))"
    using assms(1,2) by (auto simp: quack_ready_def batch_codable_def list_all_iff)
  then have "\<forall>ch \<in> set (map decoded_chunk (concat (qrBatches res))). readable (length (qrCols res)) ch"
    using codable_readable assms(3) by (auto simp: selectable_def list_all_iff)
  then show ?thesis unfolding list_all_iff using assms(4) mset_eq_setD by metis
qed

lemma mset_rows: "mset chs = mset chs' \<Longrightarrow> mset (concat (map rows_of chs)) = mset (concat (map rows_of chs'))"
  by (metis mset_concat mset_map sum_mset_sum_list)

text \<open>The rows of a result: every row of every chunk of every batch.\<close>

definition result_rows :: "quack_result \<Rightarrow> (chunk \<times> nat) list" where
  "result_rows res = concat (map (rows_of \<circ> decoded_chunk) (concat (qrBatches res)))"

text \<open>C26: a SELECT through \<open>database/sql\<close> returns the whole result: the columns have its names, and however
  workers, server and caller interleave, after a stream that ended without error and was not
  stopped \<open>Next\<close> has yielded every row of every batch exactly once, each cell crossed from the server's
  value, and then says \<open>io.EOF\<close>.\<close>

theorem select_reads_result:
  assumes "quack_ready s" "connected base (dcClient dc) s" "0 < Chunks_workers dc"
    and "interpolate fmt_float fmt_time query args = Ok sql" "go_len sql" "svResults s sql = Some res"
    and "selectable res" "float_numbers fm"
    and "conn_QueryContext fmt_float fmt_time (quack_post quote base) dc query args s = (r, dc', s')"
  shows "\<exists>pr. r = Ok pr \<and> Columns (newRows (prSchema pr) ps) = map cName (qrCols res) \<and>
    (\<forall>as st. stream_run (fetch_chunks (quack_post quote base) (dcCodec dc') (prResultUUID pr)) (Chunks_workers dc') (prNeedsMoreFetch pr)
        (Chunks_init (dcClient dc', s') pr) as st \<and> stIter st = CEnd Complete \<and> \<not> stStop st \<longrightarrow>
      (\<exists>rs table. mset rs = mset (result_rows res) \<and> list_all2 (row_crosses fm (length (qrCols res))) rs table
        \<and> next_results fm (length (qrCols res)) (length table + 1) (newRows (prSchema pr) (iter_pulls st)) = map Ok table @ [Err RowsEOF]))"
proof -
  obtain r0 dc0 s0 where q: "Query (quack_post quote base) dc sql s = (r0, dc0, s0)" by (metis surj_pair)
  from query_stream_delivers [OF assms(1,2,5,6,3) q] obtain pr
    where pr: "r0 = Ok pr" "prSchema pr = decoded_schema (qrCols res)"
      and run: "\<And>as st. stream_run (fetch_chunks (quack_post quote base) (dcCodec dc0) (prResultUUID pr)) (Chunks_workers dc0) (prNeedsMoreFetch pr)
        (Chunks_init (dcClient dc0, s0) pr) as st \<Longrightarrow> stIter st = CEnd Complete \<Longrightarrow> \<not> stStop st \<Longrightarrow>
        mset (stDelivered st) = mset (map decoded_chunk (concat (qrBatches res)))" by blast
  have same: "r = Ok pr" "dc' = dc0" "s' = s0" using assms(4,9) q pr(1) by (simp_all add: conn_QueryContext_def)
  have read: "\<exists>rs table. mset rs = mset (result_rows res) \<and> list_all2 (row_crosses fm (length (qrCols res))) rs table
      \<and> next_results fm (length (qrCols res)) (length table + 1) (newRows (prSchema pr) (iter_pulls st)) = map Ok table @ [Err RowsEOF]"
    if del: "mset (stDelivered st) = mset (map decoded_chunk (concat (qrBatches res)))" and e: "stIter st = CEnd Complete" for st :: "(client \<times> server, chunk, duck_error) stream"
  proof -
    have rs: "mset (concat (map rows_of (stDelivered st))) = mset (result_rows res)"
      using mset_rows [OF del] by (simp add: result_rows_def)
    have none: "stream_failure st = []" using e by (simp add: stream_failure_def)
    obtain table where table: "list_all2 (row_crosses fm (length (qrCols res))) (concat (map rows_of (stDelivered st))) table"
      and calls: "\<forall>m. next_results fm (length (qrCols res)) (length table + m) (newRows (prSchema pr) (iter_pulls st))
        = map Ok table @ take m (map Err (stream_failure st) @ replicate m (Err RowsEOF))"
      using cursor_reads [OF delivered_readable [OF assms(1,6,7) del] assms(8), of "prSchema pr"] by blast
    have "next_results fm (length (qrCols res)) (length table + 1) (newRows (prSchema pr) (iter_pulls st)) = map Ok table @ [Err RowsEOF]"
      using calls [rule_format, of 1] by (simp add: none)
    with rs table show ?thesis by blast
  qed
  then show ?thesis
    unfolding same using run pr(2) by (auto simp: Columns_def newRows_def decoded_schema_def)
qed

text \<open>The sample server's query, without arguments.\<close>

theorem select_reads_result_witness:
  "\<exists>pr. fst (conn_QueryContext (\<lambda>_. []) (\<lambda>_. []) (quack_post (\<lambda>s. s) ''http://h:8888'') sample_conn ''q'' [] sample_quack) = Ok pr
     \<and> Columns (newRows (prSchema pr) []) = [''n'']"
proof -
  let ?res = "\<lparr>qrCols = sample_chunk 0, qrBatches = [[sample_chunk 0], [sample_chunk 1]]\<rparr>"
  obtain r dc' s' where q: "conn_QueryContext (\<lambda>_. []) (\<lambda>_. []) (quack_post (\<lambda>s. s) ''http://h:8888'') sample_conn ''q'' [] sample_quack = (r, dc', s')"
    by (metis surj_pair)
  have "interpolate (\<lambda>_. []) (\<lambda>_. []) ''q'' [] = Ok ''q''" "go_len ''q''" "svResults sample_quack ''q'' = Some ?res" "selectable ?res"
      "0 < Chunks_workers sample_conn"
    by (simp_all add: interpolate_def go_len_def sample_quack_def selectable_def sample_chunk_def scalar_type_def Chunks_workers_def
      sample_conn_def sample_resolved_def)
  from select_reads_result [OF sample_ready sample_connected this(5) this(1-4) plain_float_numbers q, of "[]"]
  show ?thesis using q by (auto simp: sample_chunk_def)
qed

end
