(* ===== verification/Spec2Isabelle.thy ===== *)
theory Spec2Isabelle
  imports Chunk_Roundtrip Wire_Client Quack_Session Decimal_Text Driver_Conn Bouncer_Relay Token_File Driver_Select
begin

text \<open>
  \<^bold>\<open>duckcall\<close>: a Go client for DuckDB's quack protocol, a \<^verbatim>\<open>database/sql\<close> driver on top of it and a pooling proxy
  for it.  This library models the program and proves what it promises.

  \<^bold>\<open>The program.\<close>  A client posts one framed message per request to a server and gets one back.
  \<^verbatim>\<open>internal/qser\<close> is the framing, \<^verbatim>\<open>wire\<close> the messages, the handshake and the calls of a connection,
  \<^verbatim>\<open>codec\<close> the decoding of types, vectors, chunks and response bodies.  \<^verbatim>\<open>duckcall.go\<close> ties them
  together: \<open>Dial\<close> connects, \<open>Query\<close> sends a statement, and \<open>Chunks\<close> streams the result with
  concurrent workers.  \<^verbatim>\<open>driver\<close> offers this to \<^verbatim>\<open>database/sql\<close>: it parses DSNs, writes arguments into the
  statement, and turns chunks into rows of driver values.  \<^verbatim>\<open>cmd/quackbouncer\<close> is a server to its
  clients and a client of the server behind it; it hands a pool of sessions to virtual
  connections.  \<^verbatim>\<open>internal/quacktest\<close> and \<^verbatim>\<open>codec/codectest\<close> are the fake server and the encoder that
  the repository tests the client against; here they are the other end of the theorems.

  \<^bold>\<open>Theories and sources.\<close>  Definitions carry the names of the source; a method \<open>T.m\<close> is \<open>T_m\<close> where the
  bare name is taken.

  \<^item> \<open>Duck_Prelude\<close>: Go's errors and panics as the values of \<open>go\<close>, index and slice expressions, machine
    words, little-endian bytes, strings as bytes.
  \<^item> \<open>Qser\<close> (\<^verbatim>\<open>internal/qser/qser.go\<close>): the reader with its sticky error and the writer.  The
    locale \<open>reader_op\<close> is what every reading operation keeps, \<open>wire_codec\<close> a writer with its reader.
  \<^item> \<open>Logical_Type\<close>, \<open>Write_Type\<close> (\<^verbatim>\<open>codec/logicaltype.go\<close>, \<open>WriteType\<close>): type trees, their decoder
    and names.
  \<^item> \<open>Values\<close>, \<open>Decimal_Text\<close> (\<^verbatim>\<open>codec/values.go\<close>): decimals, times, intervals, UUIDs and their text.
  \<^item> \<open>Chunk\<close>, \<open>Chunk_Contract\<close>, \<open>Result_Codec\<close> (\<^verbatim>\<open>codec/chunk.go\<close>, \<^verbatim>\<open>result.go\<close>, \<^verbatim>\<open>codec.go\<close>): the vector
    decoder, its contract \<open>vector_contract\<close>, and the decoders of bodies.
  \<^item> \<open>Codectest\<close>, \<open>Cell_Roundtrip\<close>, \<open>Vector_Roundtrip\<close>, \<open>Chunk_Roundtrip\<close>
    (\<^verbatim>\<open>codec/codectest/codectest.go\<close>): the encoder, and that the decoder inverts it.
  \<^item> \<open>Wire_Messages\<close>, \<open>Wire_Client\<close> (\<^verbatim>\<open>wire/\<close>): messages, configuration, retries, the client.  The
    locale \<open>observed\<close> relates a client to the log of what it sent.
  \<^item> \<open>Stream_Fetch\<close>, \<open>Duckcall\<close> (\<^verbatim>\<open>duckcall.go\<close>): the stream as a step relation over goroutines,
    channels and context; \<open>batch_source\<close> is what it relies on in a server.
  \<^item> \<open>Quacktest\<close>, \<open>Quack_Session\<close> (\<^verbatim>\<open>internal/quacktest/quacktest.go\<close>): the fake server, and sessions
    of the client with it.
  \<^item> \<open>Driver_Interpolate\<close>, \<open>Driver_Conn\<close>, \<open>Driver_Rows\<close>, \<open>Driver_Select\<close> (\<^verbatim>\<open>driver/\<close>): the scanner for
    placeholders with the lexemes of SQL as its reference, DSNs and connections, the cursor with the
    conversion of values, and a SELECT from end to end.
  \<^item> \<open>Bouncer\<close>, \<open>Bouncer_Sessions\<close>, \<open>Bouncer_Relay\<close>, \<open>Token_File\<close> (\<^verbatim>\<open>cmd/quackbouncer/\<close>): the handlers
    whole and cut at their critical sections, all interleavings of requests, the proxy as a \<open>relay\<close>
    in front of a server, and the file of tokens.

  \<^bold>\<open>What the theorems show.\<close>

  \<^item> Hostile input: whatever the bytes, decoding a type, a chunk or a response body returns a value
    or an error, never a panic, within the bounds on depth, rows and list lengths; a decoded chunk
    holds one value of the right type per row; converting such a value does not panic either.
  \<^item> Round trips: every integer, type, chunk, body, envelope and message written is read back,
    and dictionary, constant and sequence vectors decode to the columns they denote.
  \<^item> The client: it sends exactly the messages of an abstract session, it makes between one and
    \<open>MaxRetries + 1\<close> connection requests, and whatever a server or the network puts into an error, its
    text contains the token only where the program's own words spell it.
  \<^item> The stream: in any interleaving nothing is delivered twice, a stream that ends without error and
    was not closed is complete, every run is finite and from every state the end can be reached with
    every worker gone.  Against the fake server the delivered chunks are those of the result.
  \<^item> The driver: interpolation fills exactly the placeholders outside quotes and comments and keeps
    arguments tokens of their own, where placeholders stand alone; integers cross exactly, nested
    values as well-formed JSON; a SELECT yields every row of the result once; a session the server has
    forgotten is retired, where the token is no part of the server's text.
  \<^item> The proxy: in any interleaving a session has one owner, the pool, a virtual connection or a request
    that opens, returns or closes it; a forward uses the session of its own client, as long as that
    client does not disconnect meanwhile; the pool stays within its maximum, only clients with a known
    token cause upstream sessions, and a query through the proxy is answered as without it.
  \<^item> What does not hold: a LIST type without a child type makes the printing of its name panic; a
    negative number for a placeholder behind a minus sign turns the rest of its line into a comment; a
    forward that races the disconnect of its own client may share its session with the next one; the
    pool keeps and hands out sessions the server has forgotten; a token that is part of the server's
    words hides from the driver that a session has expired.

  \<^bold>\<open>Bounds and fuel.\<close>  \<open>decodeType\<close> and \<open>decodeVector\<close> recurse on a depth that the code bounds by
  \<open>maxTypeDepth\<close> (64), so they are total without fuel; the other loops descend on what is left of their
  input, and the retry loop on the retries left.  A stream has the explicit bound on its
  runs that \<open>stream_weight\<close> gives.  \<open>run_task\<close> takes five steps, the most sections a handler of the proxy has
  (\<open>tasks_run_handler\<close>).  \<open>next_results\<close> makes a given number of calls, and its lemmas say what each returns.
  \<open>go_len\<close> says that a length fits Go's \<open>int\<close>.

  \<^bold>\<open>Parameters.\<close>  What comes from outside the repository, or from Go's library where its details do not
  matter, is an argument: the HTTP transport, the context and the timer (over a world of any type),
  \<^verbatim>\<open>url.Parse\<close>, \<^verbatim>\<open>os.Getenv\<close>, \<^verbatim>\<open>strconv.Atoi\<close>, \<^verbatim>\<open>time.ParseDuration\<close>, \<^verbatim>\<open>strconv.Quote\<close>, \<^verbatim>\<open>strconv.FormatFloat\<close>, the
  layouts of \<^verbatim>\<open>time.Format\<close>, and \<^verbatim>\<open>rand.Text\<close>.  What a theorem needs of them it says: that a formatted float is
  one token and a finite one a JSON number (\<open>float_numbers\<close>), that a formatted time has no quote, that
  identifiers do not repeat, that the cause of the caller's context does not name the token.  Errors keep the distinctions the code makes between them;
  texts are modelled where the token could reach them or the code compares them.

  \<^bold>\<open>Not modelled.\<close>  Command-line flags, logging, exit codes and listening sockets of the proxy; response
  headers; the delay the fake server can add to a fetch; the registration of the driver; the
  accessors that only return a field; the methods of \<^verbatim>\<open>driver/driver.go\<close> that wrap another without a
  condition; the tests.  These hold no state of the program that another part reads.
\<close>

end
